(* ===== verification/Prelude.thy ===== *)
theory Prelude
  imports Complex_Main "HOL-Library.Sublist"
begin

section \<open>Text primitives of the Python sources\<close>

text \<open>
  The part of the Python standard library that the modelled sources use on text: whitespace
  classes, \<open>str.strip\<close>, \<open>str.splitlines\<close>, \<open>str.find\<close>, \<open>str.count\<close>, \<open>str.replace\<close>,
  \<open>str.lower\<close>, \<open>str.casefold\<close>, \<open>str.join\<close>, slices, and the length of the UTF-8 encoding.

  A Python string is a list of code points. Here it is a HOL \<open>string\<close>, whose characters are
  the code points 0 to 255; every function below is the Python function on that range
  (one code point of the range folds outside it: U+00B5 is left alone by \<open>casefold\<close> here).
  Each regular expression of the sources is translated where it is used, as a recogniser
  over these primitives.
\<close>

named_theorems py_simps \<open>facts that evaluate or simplify the text primitives\<close>

type_synonym text_lines = "string list"

subsection \<open>Character classes\<close>

abbreviation LF :: char where "LF \<equiv> CHR 0x0A"
abbreviation CR :: char where "CR \<equiv> CHR 0x0D"
abbreviation TAB :: char where "TAB \<equiv> CHR 0x09"
abbreviation DQ :: char where "DQ \<equiv> CHR 0x22"
abbreviation BSL :: char where "BSL \<equiv> CHR 0x5C"
abbreviation TICK :: char where "TICK \<equiv> CHR 0x60"

text \<open>\<open>str.isspace\<close>, which is also the class \<open>\s\<close> of the \<open>re\<close> module on strings.\<close>

definition py_space :: "char \<Rightarrow> bool" where
  "py_space c \<longleftrightarrow> c = CHR 0x20 \<or> c = LF \<or> c = CR \<or> c = TAB \<or> c = CHR 0x0B \<or> c = CHR 0x0C
     \<or> c = CHR 0x1C \<or> c = CHR 0x1D \<or> c = CHR 0x1E \<or> c = CHR 0x1F \<or> c = CHR 0x85 \<or> c = CHR 0xA0"

text \<open>The characters at which \<open>str.splitlines\<close> ends a line.\<close>

definition line_break :: "char \<Rightarrow> bool" where
  "line_break c \<longleftrightarrow> c = LF \<or> c = CR \<or> c = CHR 0x0B \<or> c = CHR 0x0C
     \<or> c = CHR 0x1C \<or> c = CHR 0x1D \<or> c = CHR 0x1E \<or> c = CHR 0x85"

definition code_of :: "char \<Rightarrow> nat" where
  "code_of c = of_char c"

definition is_digit :: "char \<Rightarrow> bool" where
  "is_digit c \<longleftrightarrow> 48 \<le> code_of c \<and> code_of c \<le> 57"

definition is_alpha_ascii :: "char \<Rightarrow> bool" where
  "is_alpha_ascii c \<longleftrightarrow> (65 \<le> code_of c \<and> code_of c \<le> 90) \<or> (97 \<le> code_of c \<and> code_of c \<le> 122)"

definition is_hex :: "char \<Rightarrow> bool" where
  "is_hex c \<longleftrightarrow> is_digit c \<or> (65 \<le> code_of c \<and> code_of c \<le> 70) \<or> (97 \<le> code_of c \<and> code_of c \<le> 102)"

lemma line_break_space: "line_break c \<Longrightarrow> py_space c"
  by (auto simp: line_break_def py_space_def)

subsection \<open>Case mapping\<close>

definition lower_char :: "char \<Rightarrow> char" where
  "lower_char c =
     (let n = code_of c
      in if (65 \<le> n \<and> n \<le> 90) \<or> (192 \<le> n \<and> n \<le> 222 \<and> n \<noteq> 215) then char_of (n + 32) else c)"

definition lower :: "string \<Rightarrow> string" where
  "lower s = map lower_char s"

definition fold_char :: "char \<Rightarrow> string" where
  "fold_char c = (if c = CHR 0xDF then ''ss'' else [lower_char c])"

definition casefold :: "string \<Rightarrow> string" where
  "casefold s = concat (map fold_char s)"

lemma casefold_Nil [simp]: "casefold [] = []"
  by (simp add: casefold_def)

lemma casefold_append: "casefold (s @ t) = casefold s @ casefold t"
  by (simp add: casefold_def)

lemma lower_append [simp]: "lower (s @ t) = lower s @ lower t"
  by (simp add: lower_def)

lemma length_lower [simp]: "length (lower s) = length s"
  by (simp add: lower_def)

lemma casefold_eq_Nil [simp]: "casefold s = [] \<longleftrightarrow> s = []"
  by (cases s) (simp_all add: casefold_def fold_char_def)

subsection \<open>Stripping\<close>

definition lstrip_by :: "(char \<Rightarrow> bool) \<Rightarrow> string \<Rightarrow> string" where
  "lstrip_by p s = dropWhile p s"

definition rstrip_by :: "(char \<Rightarrow> bool) \<Rightarrow> string \<Rightarrow> string" where
  "rstrip_by p s = rev (dropWhile p (rev s))"

abbreviation lstrip :: "string \<Rightarrow> string" where "lstrip \<equiv> lstrip_by py_space"
abbreviation rstrip :: "string \<Rightarrow> string" where "rstrip \<equiv> rstrip_by py_space"

definition strip :: "string \<Rightarrow> string" where
  "strip s = rstrip (lstrip s)"

definition is_eol :: "char \<Rightarrow> bool" where
  "is_eol c \<longleftrightarrow> c = CR \<or> c = LF"

lemma rstrip_by_Nil [simp]: "rstrip_by p [] = []"
  by (simp add: rstrip_by_def)

lemma lstrip_by_Nil [simp]: "lstrip_by p [] = []"
  by (simp add: lstrip_by_def)

lemma rstrip_by_snoc: "rstrip_by p (s @ [c]) = (if p c then rstrip_by p s else s @ [c])"
  by (simp add: rstrip_by_def)

lemma rstrip_by_append_all: "list_all p t \<Longrightarrow> rstrip_by p (s @ t) = rstrip_by p s"
proof (induction t rule: rev_induct)
  case (snoc c t)
  then show ?case by (simp add: rstrip_by_snoc flip: append_assoc)
qed simp

lemma rstrip_by_id: "s = [] \<or> \<not> p (last s) \<Longrightarrow> rstrip_by p s = s"
  by (cases s rule: rev_cases) (auto simp: rstrip_by_snoc)

lemma rstrip_by_decomp: "\<exists>t. s = rstrip_by p s @ t \<and> list_all p t"
proof (induction s rule: rev_induct)
  case Nil
  show ?case by simp
next
  case (snoc c s)
  then obtain t where t: "s = rstrip_by p s @ t" "list_all p t" by blast
  show ?case
  proof (cases "p c")
    case True
    with t have "s @ [c] = rstrip_by p (s @ [c]) @ (t @ [c]) \<and> list_all p (t @ [c])"
      by (simp add: rstrip_by_snoc)
    then show ?thesis by blast
  next
    case False
    then show ?thesis by (simp add: rstrip_by_snoc)
  qed
qed

lemma rstrip_by_last: "rstrip_by p s \<noteq> [] \<Longrightarrow> \<not> p (last (rstrip_by p s))"
  by (induction s rule: rev_induct) (auto simp: rstrip_by_snoc)

lemma rstrip_by_idem [simp]: "rstrip_by p (rstrip_by p s) = rstrip_by p s"
  using rstrip_by_last rstrip_by_id by blast

lemma rstrip_by_eq_Nil: "rstrip_by p s = [] \<longleftrightarrow> list_all p s"
  by (induction s rule: rev_induct) (auto simp: rstrip_by_snoc)

lemma set_rstrip_by: "set (rstrip_by p s) \<subseteq> set s"
  by (metis rstrip_by_decomp set_append sup_ge1)

lemma lstrip_by_hd: "lstrip_by p s \<noteq> [] \<Longrightarrow> \<not> p (hd (lstrip_by p s))"
  by (simp add: lstrip_by_def hd_dropWhile)

lemma lstrip_by_id: "s = [] \<or> \<not> p (hd s) \<Longrightarrow> lstrip_by p s = s"
  by (cases s) (auto simp: lstrip_by_def)

lemma lstrip_by_append_all: "list_all p t \<Longrightarrow> lstrip_by p (t @ s) = lstrip_by p s"
  by (induction t) (auto simp: lstrip_by_def)

lemma lstrip_by_decomp: "s = takeWhile p s @ lstrip_by p s"
  by (simp add: lstrip_by_def)

lemma lstrip_by_eq_Nil: "lstrip_by p s = [] \<longleftrightarrow> list_all p s"
  by (simp add: lstrip_by_def dropWhile_eq_Nil_conv list_all_iff)

lemma rstrip_by_Cons: "\<not> p c \<Longrightarrow> rstrip_by p (c # s) = c # rstrip_by p s"
proof (induction s rule: rev_induct)
  case Nil
  then show ?case using rstrip_by_snoc [of p "[]" c] by simp
next
  case (snoc x xs)
  then show ?case
    using rstrip_by_snoc [of p "c # xs" x] by (simp add: rstrip_by_snoc)
qed

lemma strip_Nil [simp]: "strip [] = []"
  by (simp add: strip_def)

lemma strip_eq_Nil: "strip s = [] \<longleftrightarrow> list_all py_space s"
proof
  assume "strip s = []"
  then have "list_all py_space (lstrip s)" by (simp add: strip_def rstrip_by_eq_Nil)
  then have "lstrip s = []"
    using lstrip_by_hd [of py_space s] by (cases "lstrip s") auto
  then show "list_all py_space s" by (simp add: lstrip_by_eq_Nil)
next
  assume "list_all py_space s"
  then show "strip s = []" by (simp add: strip_def lstrip_by_eq_Nil [THEN iffD2])
qed

lemma strip_hd: "strip s \<noteq> [] \<Longrightarrow> \<not> py_space (hd (strip s))"
proof -
  assume ne: "strip s \<noteq> []"
  then have l: "lstrip s \<noteq> []" by (auto simp: strip_def)
  obtain t where "lstrip s = strip s @ t"
    unfolding strip_def using rstrip_by_decomp by blast
  then have "hd (strip s) = hd (lstrip s)" using ne by simp
  then show ?thesis using lstrip_by_hd [OF l] by simp
qed

lemma strip_last: "strip s \<noteq> [] \<Longrightarrow> \<not> py_space (last (strip s))"
  unfolding strip_def by (rule rstrip_by_last)

lemma strip_id: "s = [] \<or> (\<not> py_space (hd s) \<and> \<not> py_space (last s)) \<Longrightarrow> strip s = s"
  by (auto simp: strip_def lstrip_by_id rstrip_by_id)

lemma strip_idem [simp]: "strip (strip s) = strip s"
  using strip_hd strip_last by (intro strip_id) blast

subsection \<open>Lines\<close>

text \<open>
  \<open>py_lines s\<close> pairs each line of \<open>s\<close> with its terminator, which is empty only on an
  unterminated last line; \<open>splitlines\<close> and \<open>splitlines(keepends=True)\<close> are its projections.
\<close>

fun py_lines :: "string \<Rightarrow> (string \<times> string) list" where
  "py_lines [] = []"
| "py_lines (c # cs) =
     (if line_break c then
        (if c = CR \<and> cs \<noteq> [] \<and> hd cs = LF then ([], [CR, LF]) # py_lines (tl cs)
         else ([], [c]) # py_lines cs)
      else (case py_lines cs of
              [] \<Rightarrow> [([c], [])]
            | (l, e) # rest \<Rightarrow> (c # l, e) # rest))"

definition splitlines :: "string \<Rightarrow> text_lines" where
  "splitlines s = map fst (py_lines s)"

definition splitlines_keep :: "string \<Rightarrow> text_lines" where
  "splitlines_keep s = map (\<lambda>(l, e). l @ e) (py_lines s)"

lemma concat_splitlines_keep [simp]: "concat (splitlines_keep s) = s"
proof (induction s rule: py_lines.induct)
  case (2 c cs)
  consider (crlf) "line_break c" "c = CR \<and> cs \<noteq> [] \<and> hd cs = LF"
    | (brk) "line_break c" "\<not> (c = CR \<and> cs \<noteq> [] \<and> hd cs = LF)"
    | (plain) "\<not> line_break c" by blast
  then show ?case
  proof cases
    case crlf
    with 2(1) have "concat (splitlines_keep (tl cs)) = tl cs" by simp
    with crlf show ?thesis by (simp add: splitlines_keep_def) (metis list.collapse)
  next
    case brk
    with 2(2) have "concat (splitlines_keep cs) = cs" by simp
    with brk show ?thesis by (auto simp: splitlines_keep_def)
  next
    case plain
    with 2(3) have "concat (splitlines_keep cs) = cs" by simp
    with plain show ?thesis by (cases "py_lines cs") (auto simp: splitlines_keep_def)
  qed
qed (simp add: splitlines_keep_def)

lemma splitlines_keep_Nil [simp]: "splitlines_keep [] = []"
  by (simp add: splitlines_keep_def)

lemma splitlines_Nil [simp]: "splitlines [] = []"
  by (simp add: splitlines_def)

lemma length_splitlines_keep: "length (splitlines_keep s) = length (splitlines s)"
  by (simp add: splitlines_keep_def splitlines_def)

lemma splitlines_keep_eq_Nil [simp]: "splitlines_keep s = [] \<longleftrightarrow> s = []"
  by (metis concat.simps(1) concat_splitlines_keep splitlines_keep_Nil)

lemma py_lines_core: "(l, e) \<in> set (py_lines s) \<Longrightarrow> list_all (\<lambda>c. \<not> line_break c) l"
proof (induction s arbitrary: l e rule: py_lines.induct)
  case (2 c cs)
  show ?case
  proof (cases "line_break c")
    case True
    with 2 show ?thesis by (auto split: if_splits)
  next
    case False
    with 2(3) [OF False] 2(4) show ?thesis by (cases "py_lines cs") fastforce+
  qed
qed simp

text \<open>
  Line structure: a list of line and terminator pairs that \<open>splitlines\<close> can give. Each line is
  free of terminators; each but the last is terminated, and a lone carriage return is not
  followed by a line feed.
\<close>

definition terminator :: "string \<Rightarrow> bool" where
  "terminator e \<longleftrightarrow> e = [CR, LF] \<or> (\<exists>c. e = [c] \<and> line_break c)"

definition no_break :: "string \<Rightarrow> bool" where
  "no_break l \<longleftrightarrow> list_all (\<lambda>c. \<not> line_break c) l"

fun line_pairs :: "(string \<times> string) list \<Rightarrow> bool" where
  "line_pairs [] \<longleftrightarrow> True"
| "line_pairs [(l, e)] \<longleftrightarrow> no_break l \<and> (terminator e \<or> (e = [] \<and> l \<noteq> []))"
| "line_pairs ((l, e) # p # ps) \<longleftrightarrow>
     no_break l \<and> terminator e \<and> (e = [CR] \<longrightarrow> p \<noteq> ([], [LF])) \<and> line_pairs (p # ps)"

definition text_of :: "(string \<times> string) list \<Rightarrow> string" where
  "text_of ps = concat (map (\<lambda>(l, e). l @ e) ps)"

lemma text_of_simps [simp]: "text_of [] = []" "text_of (p # ps) = fst p @ snd p @ text_of ps"
  "text_of (ps @ qs) = text_of ps @ text_of qs"
  by (simp_all add: text_of_def split: prod.splits)

lemma text_of_py_lines [simp]: "text_of (py_lines s) = s"
  using concat_splitlines_keep [of s] by (simp add: text_of_def splitlines_keep_def)

lemma no_break_simps [simp]: "no_break []" "no_break (c # l) \<longleftrightarrow> \<not> line_break c \<and> no_break l"
  "no_break (l @ m) \<longleftrightarrow> no_break l \<and> no_break m"
  by (simp_all add: no_break_def)

lemma py_lines_no_break:
  "no_break l \<Longrightarrow> l \<noteq> [] \<Longrightarrow> py_lines (l @ s) = (case py_lines s of [] \<Rightarrow> [(l, [])] | (m, e) # r \<Rightarrow> (l @ m, e) # r)"
proof (induction l)
  case (Cons c l)
  then show ?case by (cases "l = []") (auto split: list.splits)
qed simp

lemma line_break_LF [simp]: "line_break LF" "line_break CR"
  by (simp_all add: line_break_def)

lemma py_lines_terminator:
  "terminator e \<Longrightarrow> (e = [CR] \<longrightarrow> s = [] \<or> hd s \<noteq> LF) \<Longrightarrow> py_lines (e @ s) = ([], e) # py_lines s"
  by (auto simp: terminator_def split: if_splits)

lemma py_lines_line:
  "no_break l \<Longrightarrow> terminator e \<Longrightarrow> (e = [CR] \<longrightarrow> s = [] \<or> hd s \<noteq> LF) \<Longrightarrow>
     py_lines (l @ e @ s) = (l, e) # py_lines s"
  by (cases "l = []") (simp_all add: py_lines_terminator py_lines_no_break)

lemma terminator_simps [simp]: "\<not> terminator []" "terminator [LF]" "terminator [CR]" "terminator [CR, LF]"
  by (simp_all add: terminator_def)

lemma terminator_hd: "terminator e \<Longrightarrow> hd (e @ s) = LF \<Longrightarrow> e = [LF]"
  by (auto simp: terminator_def)

lemma hd_text_of: "line_pairs (p # ps) \<Longrightarrow> hd (text_of (p # ps)) = LF \<Longrightarrow> p = ([], [LF])"
proof -
  assume lp: "line_pairs (p # ps)" and h: "hd (text_of (p # ps)) = LF"
  have nb: "no_break (fst p)" "fst p = [] \<Longrightarrow> terminator (snd p)" using lp by (cases p; cases ps; auto)+
  show ?thesis
  proof (cases "fst p = []")
    case True
    then show ?thesis using nb(2) h terminator_hd by (cases p) auto
  next
    case False
    then show ?thesis using nb(1) h by (cases "fst p") auto
  qed
qed

lemma py_lines_text_of: "line_pairs ps \<Longrightarrow> py_lines (text_of ps) = ps"
proof (induction ps rule: line_pairs.induct)
  case (2 l e)
  then show ?case
    using py_lines_line [of l e "[]"] py_lines_no_break [of l "[]"] by (cases "e = []") auto
next
  case (3 l e p ps)
  have "e = [CR] \<longrightarrow> text_of (p # ps) = [] \<or> hd (text_of (p # ps)) \<noteq> LF"
    using 3 hd_text_of [of p ps] by auto
  then have "py_lines (l @ e @ text_of (p # ps)) = (l, e) # py_lines (text_of (p # ps))"
    using 3 by (intro py_lines_line) auto
  then show ?case using 3 by simp
qed simp

lemma line_pairs_tl: "line_pairs (p # ps) \<Longrightarrow> line_pairs ps"
  by (cases p; cases ps) auto

lemma line_pairs_Cons:
  "line_pairs ps \<Longrightarrow> no_break l \<Longrightarrow> terminator e \<Longrightarrow> (e = [CR] \<Longrightarrow> ps = [] \<or> hd ps \<noteq> ([], [LF])) \<Longrightarrow>
     line_pairs ((l, e) # ps)"
  by (cases ps) auto

lemma line_pairs_py_lines: "line_pairs (py_lines s)"
proof (induction s rule: py_lines.induct)
  case (2 c cs)
  show ?case
  proof (cases "line_break c")
    case brk: True
    show ?thesis
    proof (cases "c = CR \<and> cs \<noteq> [] \<and> hd cs = LF")
      case True
      with brk 2(1) show ?thesis by (auto intro!: line_pairs_Cons)
    next
      case False
      have "py_lines cs = [] \<or> hd (py_lines cs) \<noteq> ([], [LF])" if "c = CR"
      proof (rule disjCI)
        assume "\<not> hd (py_lines cs) \<noteq> ([], [LF])"
        then have "py_lines cs = [] \<or> hd cs = LF \<and> cs \<noteq> []"
          using text_of_py_lines [of cs] by (cases "py_lines cs") auto
        then show "py_lines cs = []" using False that by auto
      qed
      then show ?thesis using False brk 2(2) by (auto intro!: line_pairs_Cons simp: terminator_def)
    qed
  next
    case False
    then have lp: "line_pairs (py_lines cs)" using 2(3) by simp
    show ?thesis
    proof (cases "py_lines cs")
      case Nil
      with False show ?thesis by simp
    next
      case (Cons q r)
      with lp False show ?thesis by (cases q; cases r) auto
    qed
  qed
qed simp

lemma line_pairs_append:
  "line_pairs (ps @ qs) \<longleftrightarrow> line_pairs ps \<and> line_pairs qs \<and>
     (ps \<noteq> [] \<longrightarrow> qs \<noteq> [] \<longrightarrow> terminator (snd (last ps)) \<and>
        (snd (last ps) = [CR] \<longrightarrow> hd qs \<noteq> ([], [LF])))"
proof (induction ps rule: line_pairs.induct)
  case (2 l e)
  then show ?case by (cases qs) auto
qed auto

lemma line_pairs_mem: "line_pairs ps \<Longrightarrow> (l, e) \<in> set ps \<Longrightarrow> no_break l \<and> (terminator e \<or> e = [])"
  by (induction ps rule: line_pairs.induct) auto

lemmas py_lines_mem = line_pairs_mem [OF line_pairs_py_lines]

lemma py_lines_eq_Nil [simp]: "py_lines s = [] \<longleftrightarrow> s = []"
  by (metis py_lines.simps(1) text_of_py_lines text_of_simps(1))

text \<open>Whole terminated lines can be spliced into a page between two of its lines.\<close>

lemma line_pairs_take_drop:
  "line_pairs ps \<Longrightarrow> line_pairs (take n ps) \<and> line_pairs (drop n ps) \<and>
     (n < length ps \<longrightarrow> take n ps \<noteq> [] \<longrightarrow> terminator (snd (last (take n ps))))"
  using line_pairs_append [of "take n ps" "drop n ps"] by auto

lemma line_pairs_splice:
  assumes "line_pairs ps" and "line_pairs ms" and "ms \<noteq> []" and "hd ms \<noteq> ([], [LF])"
    and "snd (last ms) = [LF]" and "n < length ps \<or> ps = [] \<or> terminator (snd (last ps))"
  shows "line_pairs (take n ps @ ms @ drop n ps)"
proof -
  have "take n ps \<noteq> [] \<longrightarrow> terminator (snd (last (take n ps)))"
    using line_pairs_take_drop [OF assms(1), of n] assms(6) by (cases "n < length ps") auto
  then show ?thesis
    using assms(2-5) line_pairs_take_drop [OF assms(1), of n] by (simp add: line_pairs_append)
qed

text \<open>Lines that end with a line feed. A text can be cut after any line feed.\<close>

lemma splitlines_keep_line: "no_break l \<Longrightarrow> splitlines_keep (l @ LF # s) = (l @ [LF]) # splitlines_keep s"
  using py_lines_line [of l "[LF]" s] by (simp add: splitlines_keep_def)

lemma splitlines_line: "no_break l \<Longrightarrow> splitlines (l @ LF # s) = l # splitlines s"
  using py_lines_line [of l "[LF]" s] by (simp add: splitlines_def)

lemma last_py_lines: "s \<noteq> [] \<Longrightarrow> \<exists>u l e. py_lines s = u @ [(l, e)] \<and> s = text_of u @ l @ e"
  by (metis append.right_neutral fst_conv py_lines_eq_Nil rev_exhaust snd_conv surj_pair text_of_py_lines text_of_simps)

lemma py_lines_cut: "py_lines (s @ LF # t) = py_lines (s @ [LF]) @ py_lines t"
proof -
  obtain u l e where u: "py_lines (s @ [LF]) = u @ [(l, e)]" "s @ [LF] = text_of u @ l @ e"
    using last_py_lines [of "s @ [LF]"] by blast
  have mem: "no_break l \<and> (terminator e \<or> e = [])"
    using py_lines_mem [of l e "s @ [LF]"] u(1) by simp
  have "e \<noteq> []"
  proof
    assume "e = []"
    then have "l = [] \<or> last l = LF" using u(2) by (metis append.right_neutral last_appendR last_snoc)
    moreover have "l \<noteq> [] \<or> e \<noteq> []"
      using line_pairs_py_lines [of "s @ [LF]"] u(1) by (auto simp: line_pairs_append)
    ultimately have "LF \<in> set l" using \<open>e = []\<close> by (metis last_in_set)
    then show False using mem by (auto simp: no_break_def list_all_iff)
  qed
  then have "last e = LF" using u(2) by (metis append_assoc last_appendR last_snoc)
  then have "terminator (snd (last (py_lines (s @ [LF]))))" "snd (last (py_lines (s @ [LF]))) \<noteq> [CR]"
    using mem \<open>e \<noteq> []\<close> u(1) by auto
  then have "line_pairs (py_lines (s @ [LF]) @ py_lines t)"
    using line_pairs_py_lines [of "s @ [LF]"] line_pairs_py_lines [of t]
    unfolding line_pairs_append by blast
  then show ?thesis
    using py_lines_text_of [of "py_lines (s @ [LF]) @ py_lines t"] by simp
qed

lemma splitlines_keep_cut: "splitlines_keep (s @ LF # t) = splitlines_keep (s @ [LF]) @ splitlines_keep t"
  unfolding splitlines_keep_def by (subst py_lines_cut) (rule map_append)

lemma splitlines_cut: "splitlines (s @ LF # t) = splitlines (s @ [LF]) @ splitlines t"
  unfolding splitlines_def by (subst py_lines_cut) (rule map_append)

subsection \<open>Searching\<close>

definition startswith :: "string \<Rightarrow> string \<Rightarrow> bool" where
  "startswith s p \<longleftrightarrow> take (length p) s = p"

definition endswith :: "string \<Rightarrow> string \<Rightarrow> bool" where
  "endswith s p \<longleftrightarrow> length p \<le> length s \<and> drop (length s - length p) s = p"

text \<open>\<open>find_sub p s\<close> is \<open>s.find(p)\<close>, with \<open>None\<close> for -1.\<close>

fun find_sub :: "string \<Rightarrow> string \<Rightarrow> nat option" where
  "find_sub p [] = (if p = [] then Some 0 else None)"
| "find_sub p (c # cs) =
     (if startswith (c # cs) p then Some 0 else map_option Suc (find_sub p cs))"

text \<open>\<open>p in s\<close>.\<close>

definition contains :: "string \<Rightarrow> string \<Rightarrow> bool" where
  "contains s p \<longleftrightarrow> find_sub p s \<noteq> None"

text \<open>\<open>s.find(p, i)\<close> for \<open>0 \<le> i\<close>.\<close>

definition find_from :: "string \<Rightarrow> string \<Rightarrow> nat \<Rightarrow> nat option" where
  "find_from p s i =
     (if i \<le> length s then map_option (\<lambda>j. i + j) (find_sub p (drop i s)) else None)"

lemma startswith_append [simp]: "startswith (p @ s) p"
  by (simp add: startswith_def)

lemma startswith_Nil [simp]: "startswith s []"
  by (simp add: startswith_def)

lemma startswith_iff: "startswith s p \<longleftrightarrow> (\<exists>t. s = p @ t)"
  by (metis append_eq_conv_conj append_take_drop_id startswith_def)

lemma find_sub_Some: "find_sub p s = Some i \<Longrightarrow> i + length p \<le> length s \<and> take (length p) (drop i s) = p"
proof (induction s arbitrary: i)
  case (Cons c cs)
  then show ?case
    by (auto simp: startswith_iff split: if_splits dest: arg_cong [where f = length])
qed (auto split: if_splits)

lemma find_sub_decomp: "find_sub p s = Some i \<Longrightarrow> s = take i s @ p @ drop (i + length p) s"
  using find_sub_Some [of p s i]
  by (metis add.commute append.assoc append_take_drop_id drop_drop)

lemma find_sub_Nil: "find_sub [] s = Some 0"
  by (cases s) (auto simp: startswith_def)

lemma contains_iff: "contains s p \<longleftrightarrow> (\<exists>a b. s = a @ p @ b)"
proof
  assume "contains s p"
  then show "\<exists>a b. s = a @ p @ b"
    unfolding contains_def using find_sub_decomp [of p s] by (metis option.exhaust)
next
  have "find_sub p (a @ p @ b) \<noteq> None" for a b
  proof (induction a)
    case Nil
    have "startswith (p @ b) p" by (simp add: startswith_def)
    then show ?case by (cases "p @ b") (auto simp: startswith_def)
  qed auto
  then show "\<exists>a b. s = a @ p @ b \<Longrightarrow> contains s p"
    by (auto simp: contains_def)
qed

text \<open>Non-overlapping occurrences, left to right, for a non-empty pattern.\<close>

function split_sub :: "string \<Rightarrow> string \<Rightarrow> string list" where
  "split_sub p s =
     (if p = [] then [s]
      else case find_sub p s of
             None \<Rightarrow> [s]
           | Some i \<Rightarrow> take i s # split_sub p (drop (i + length p) s))"
  by pat_completeness auto
termination
proof (relation "measure (\<lambda>(p, s). length s)", goal_cases)
  case (2 p s i)
  then show ?case using find_sub_Some [of p s i] by (cases p) auto
qed simp

declare split_sub.simps [simp del]

definition join :: "string \<Rightarrow> string list \<Rightarrow> string" where
  "join sep xs = (case xs of [] \<Rightarrow> [] | y # ys \<Rightarrow> y @ concat (map (\<lambda>z. sep @ z) ys))"

text \<open>\<open>s.count(p)\<close> and \<open>s.replace(p, r)\<close>, with Python's reading of an empty pattern.\<close>

definition count_sub :: "string \<Rightarrow> string \<Rightarrow> nat" where
  "count_sub p s = (if p = [] then length s + 1 else length (split_sub p s) - 1)"

definition replace_sub :: "string \<Rightarrow> string \<Rightarrow> string \<Rightarrow> string" where
  "replace_sub p r s =
     (if p = [] then r @ concat (map (\<lambda>c. c # r) s) else join r (split_sub p s))"

lemma join_Nil [simp]: "join sep [] = []"
  by (simp add: join_def)

lemma join_single [simp]: "join sep [x] = x"
  by (simp add: join_def)

lemma join_Cons_Cons [simp]: "join sep (x # y # ys) = x @ sep @ join sep (y # ys)"
  by (simp add: join_def)

lemma join_empty [simp]: "join [] xs = concat xs"
  by (cases xs) (simp_all add: join_def append_Nil [abs_def])

lemma split_sub_neq_Nil [simp]: "split_sub p s \<noteq> []"
  by (subst split_sub.simps) (auto split: option.splits)

lemma join_split_sub: "p \<noteq> [] \<Longrightarrow> join p (split_sub p s) = s"
proof (induction p s rule: split_sub.induct)
  case (1 p s)
  show ?case
  proof (cases "find_sub p s")
    case None
    with 1 show ?thesis by (simp add: split_sub.simps [of p s])
  next
    case (Some i)
    let ?r = "drop (i + length p) s"
    have "split_sub p s = take i s # split_sub p ?r"
      using Some 1 by (simp add: split_sub.simps [of p s])
    moreover have "join p (take i s # split_sub p ?r) = take i s @ p @ join p (split_sub p ?r)"
      by (cases "split_sub p ?r") auto
    moreover have "join p (split_sub p ?r) = ?r" using 1 Some by simp
    ultimately show ?thesis using find_sub_decomp [OF Some] by simp
  qed
qed

text \<open>A substring that does not occur is not replaced.\<close>

lemma count_sub_zero_replace: "count_sub p s = 0 \<Longrightarrow> replace_sub p r s = s"
  by (auto simp: count_sub_def replace_sub_def split_sub.simps [of p s] Suc_le_eq
           split: if_splits option.splits)

subsection \<open>Lengths and lists\<close>

definition utf8_len :: "string \<Rightarrow> nat" where
  "utf8_len s = sum_list (map (\<lambda>c. if code_of c < 128 then 1 else 2) s)"

lemma utf8_len_append [simp]: "utf8_len (s @ t) = utf8_len s + utf8_len t"
  by (simp add: utf8_len_def)

text \<open>\<open>lines.insert(i, x)\<close>; an index past the end appends.\<close>

definition list_insert :: "nat \<Rightarrow> 'a \<Rightarrow> 'a list \<Rightarrow> 'a list" where
  "list_insert i x xs = take i xs @ x # drop i xs"

lemma list_insert_map: "map f (list_insert n x xs) = list_insert n (f x) (map f xs)"
  by (simp add: list_insert_def take_map drop_map)

lemma concat_insert_line:
  "concat (list_insert n (l @ e) (map (\<lambda>(l, e). l @ e) ps)) = text_of (list_insert n (l, e) ps)"
  by (simp add: text_of_def list_insert_map)

text \<open>\<open>range(a, b)\<close> is \<open>[a..<b]\<close>; \<open>xs[a:b]\<close> for indices in \<open>nat\<close>.\<close>

definition slice :: "nat \<Rightarrow> nat \<Rightarrow> 'a list \<Rightarrow> 'a list" where
  "slice a b xs = take (b - a) (drop a xs)"

text \<open>The first index in a list of candidates that satisfies a test: a \<open>for ... return\<close> loop.\<close>

fun first_index :: "(nat \<Rightarrow> bool) \<Rightarrow> nat list \<Rightarrow> nat option" where
  "first_index P [] = None"
| "first_index P (i # is) = (if P i then Some i else first_index P is)"

lemma first_index_Some: "first_index P is = Some i \<Longrightarrow> i \<in> set is \<and> P i"
  by (induction "is") (auto split: if_splits)

lemma first_index_None: "first_index P is = None \<longleftrightarrow> (\<forall>i \<in> set is. \<not> P i)"
  by (induction "is") auto

lemma first_index_upt:
  "first_index P [a..<b] = Some i \<longleftrightarrow> a \<le> i \<and> i < b \<and> P i \<and> (\<forall>j. a \<le> j \<and> j < i \<longrightarrow> \<not> P j)"
proof (induction "b - a" arbitrary: a)
  case 0
  then show ?case by auto
next
  case (Suc n)
  then have ab: "a < b" and n: "n = b - Suc a" by auto
  show ?case
  proof (cases "P a")
    case True
    then have "first_index P [a..<b] = Some a" using ab by (simp add: upt_conv_Cons)
    moreover have "i = a \<longleftrightarrow> a \<le> i \<and> i < b \<and> P i \<and> (\<forall>j. a \<le> j \<and> j < i \<longrightarrow> \<not> P j)"
      using True ab by (metis le_refl le_neq_implies_less not_less)
    ultimately show ?thesis by auto
  next
    case False
    then have "first_index P [a..<b] = first_index P [Suc a..<b]"
      using ab by (simp add: upt_conv_Cons)
    moreover have "Suc a \<le> i \<and> (\<forall>j. Suc a \<le> j \<and> j < i \<longrightarrow> \<not> P j) \<longleftrightarrow>
        a \<le> i \<and> (\<forall>j. a \<le> j \<and> j < i \<longrightarrow> \<not> P j)" if "P i"
      using False that by (metis Suc_leD Suc_leI le_neq_implies_less)
    ultimately show ?thesis by (simp only: Suc.hyps(1) [OF n]) blast
  qed
qed

text \<open>The last index below a bound that satisfies a test: a descending loop.\<close>

lemma first_index_rev_upt:
  "first_index P (rev [a..<b]) = Some i \<longleftrightarrow> a \<le> i \<and> i < b \<and> P i \<and> (\<forall>j. i < j \<and> j < b \<longrightarrow> \<not> P j)"
proof (induction b)
  case 0
  show ?case by simp
next
  case (Suc b)
  show ?case
  proof (cases "a \<le> b \<and> P b")
    case True
    then show ?thesis by (auto simp: less_Suc_eq)
  next
    case False
    then have "first_index P (rev [a..<Suc b]) = first_index P (rev [a..<b])" by auto
    with Suc False show ?thesis by (auto simp: less_Suc_eq)
  qed
qed

end
