(* ===== verification/Fences.thy ===== *)
theory Fences
  imports Prelude
begin

section \<open>The page-wide dead-zone scanner\<close>

text \<open>
  Model of \<open>src/graph/global_fence_scanner.py\<close>: the 0-based indices of the lines that no
  editor of the graph may touch, that is lines of fenced code, of HTML comments and of
  \<open>#+BEGIN_QUERY\<close> blocks. Three passes run over the lines of the page; each keeps its own
  copy of the code-fence state, so that HTML and query markers inside a fence are masked.

  A pass is a step function from a state and a line to the next state and to whether the
  line is protected, run by \<open>scan_lines\<close>. The locale \<open>fence_masked\<close> is the contract the
  three passes share: their fence component follows \<open>update_md_fence\<close>, and a line that
  stays inside a fence leaves their state alone and cannot influence their verdict.
\<close>

subsection \<open>Line tests\<close>

definition strip_eol :: "string \<Rightarrow> string" where
  "strip_eol s = rstrip_by is_eol s"

abbreviation BEGIN_QUERY :: string where "BEGIN_QUERY \<equiv> ''#+BEGIN_QUERY''"
abbreviation END_QUERY :: string where "END_QUERY \<equiv> ''#+END_QUERY''"

definition is_begin_query :: "string \<Rightarrow> bool" where
  "is_begin_query line =
     (let t = lstrip line
      in startswith t BEGIN_QUERY \<and>
         (length t = length BEGIN_QUERY \<or> t ! length BEGIN_QUERY \<in> {CHR '' '', TAB}))"

definition is_end_query :: "string \<Rightarrow> bool" where
  "is_end_query line =
     (let t = lstrip line
      in startswith t END_QUERY \<and>
         (length t = length END_QUERY \<or> t ! length END_QUERY \<in> {CHR '' '', TAB}))"

text \<open>
  \<open>_scan_html_line\<close>: the loop over the comment delimiters of one line. The result is
  whether the line overlaps a comment and whether a comment is open after it.
\<close>

function html_loop :: "string \<Rightarrow> nat \<Rightarrow> bool \<Rightarrow> bool \<Rightarrow> bool \<times> bool" where
  "html_loop line pos overlaps in_c =
     (if pos \<le> length line then
        (if in_c then
           (case find_from ''-->'' line pos of
              None \<Rightarrow> (True, True)
            | Some close_at \<Rightarrow> html_loop line (close_at + 3) True False)
         else
           (case find_from ''<!--'' line pos of
              None \<Rightarrow> (overlaps, False)
            | Some open_at \<Rightarrow> html_loop line (open_at + 4) True True))
      else (overlaps, in_c))"
  by pat_completeness auto
termination
  by (relation "measure (\<lambda>(line, pos, _, _). Suc (length line) - pos)")
     (auto simp: find_from_def split: if_splits)

declare html_loop.simps [simp del]

definition scan_html_line :: "string \<Rightarrow> bool \<Rightarrow> bool \<times> bool" where
  "scan_html_line line in_comment = html_loop line 0 in_comment in_comment"

text \<open>
  The two fence expressions: at most three leading spaces, at least three backticks, then
  (opening) no further backtick, or (closing) only white space. Both return the number of
  backticks.
\<close>

definition fence_indent_ok :: "string \<Rightarrow> bool" where
  "fence_indent_ok line \<longleftrightarrow> length (takeWhile (\<lambda>c. c = CHR '' '') line) \<le> 3"

definition fence_rest :: "string \<Rightarrow> string" where
  "fence_rest line = dropWhile (\<lambda>c. c = CHR '' '') line"

definition md_fence_open :: "string \<Rightarrow> nat option" where
  "md_fence_open line =
     (let r = fence_rest line; n = length (takeWhile (\<lambda>c. c = TICK) r)
      in if fence_indent_ok line \<and> 3 \<le> n \<and> TICK \<notin> set (drop n r) then Some n else None)"

definition md_fence_close :: "string \<Rightarrow> nat option" where
  "md_fence_close line =
     (let r = fence_rest line; n = length (takeWhile (\<lambda>c. c = TICK) r)
      in if fence_indent_ok line \<and> 3 \<le> n \<and> list_all py_space (drop n r) then Some n else None)"

definition update_md_fence :: "string \<Rightarrow> nat \<Rightarrow> nat" where
  "update_md_fence line in_ticks =
     (if in_ticks \<noteq> 0 then
        (case md_fence_close line of
           Some n \<Rightarrow> if in_ticks \<le> n then 0 else in_ticks
         | None \<Rightarrow> in_ticks)
      else (case md_fence_open line of None \<Rightarrow> 0 | Some n \<Rightarrow> n))"

subsection \<open>The three passes\<close>

fun scan_lines :: "('s \<Rightarrow> string \<Rightarrow> 's \<times> bool) \<Rightarrow> 's \<Rightarrow> nat \<Rightarrow> text_lines \<Rightarrow> nat set" where
  "scan_lines step s i [] = {}"
| "scan_lines step s i (raw # rest) =
     (let (s', hit) = step s raw
      in (if hit then {i} else {}) \<union> scan_lines step s' (Suc i) rest)"

definition md_step :: "nat \<Rightarrow> string \<Rightarrow> nat \<times> bool" where
  "md_step ticks raw =
     (let new_ticks = update_md_fence (strip_eol raw) ticks
      in (new_ticks, ticks \<noteq> 0 \<or> (new_ticks \<noteq> 0 \<and> ticks = 0)))"

definition query_step :: "nat \<times> bool \<Rightarrow> string \<Rightarrow> (nat \<times> bool) \<times> bool" where
  "query_step s raw =
     (let line = strip_eol raw; (md_ticks, in_q) = s; md_ticks' = update_md_fence line md_ticks
      in if md_ticks' \<noteq> 0 then ((md_ticks', in_q), False)
         else if in_q then ((md_ticks', \<not> is_end_query line), True)
         else if is_begin_query line then ((md_ticks', True), True)
         else ((md_ticks', in_q), False))"

definition html_step :: "nat \<times> bool \<Rightarrow> string \<Rightarrow> (nat \<times> bool) \<times> bool" where
  "html_step s raw =
     (let line = strip_eol raw; (md_ticks, in_html) = s; md_ticks' = update_md_fence line md_ticks
      in if md_ticks' \<noteq> 0 then ((md_ticks', in_html), False)
         else (let (overlap, in_html') = scan_html_line line in_html
               in ((md_ticks', in_html'), overlap)))"

definition protected_md_lines :: "text_lines \<Rightarrow> nat set" where
  "protected_md_lines lines = scan_lines md_step 0 0 lines"

definition protected_query_lines :: "text_lines \<Rightarrow> nat set" where
  "protected_query_lines lines = scan_lines query_step (0, False) 0 lines"

definition protected_html_lines :: "text_lines \<Rightarrow> nat set" where
  "protected_html_lines lines = scan_lines html_step (0, False) 0 lines"

definition protected_lines :: "text_lines \<Rightarrow> nat set" where
  "protected_lines lines =
     protected_md_lines lines \<union> protected_query_lines lines \<union> protected_html_lines lines"

definition compute_page_protected_line_indices :: "string \<Rightarrow> nat set" where
  "compute_page_protected_line_indices file_content = protected_lines (splitlines file_content)"

subsection \<open>The shared contract of the passes\<close>

definition fence_state :: "nat \<Rightarrow> text_lines \<Rightarrow> nat" where
  "fence_state t lines = foldl (\<lambda>t raw. update_md_fence (strip_eol raw) t) t lines"

definition stays_fenced :: "nat \<Rightarrow> text_lines \<Rightarrow> bool" where
  "stays_fenced t lines \<longleftrightarrow> (\<forall>raw \<in> set lines. update_md_fence (strip_eol raw) t = t)"

definition run_state :: "('s \<Rightarrow> string \<Rightarrow> 's \<times> bool) \<Rightarrow> 's \<Rightarrow> text_lines \<Rightarrow> 's" where
  "run_state step s lines = foldl (\<lambda>s raw. fst (step s raw)) s lines"

lemma scan_lines_append:
  "scan_lines step s i (xs @ ys) =
     scan_lines step s i xs \<union> scan_lines step (run_state step s xs) (i + length xs) ys"
  by (induction xs arbitrary: s i) (auto simp: run_state_def split: prod.splits)

lemma scan_lines_bounds: "scan_lines step s i xs \<subseteq> {i..<i + length xs}"
proof (induction xs arbitrary: s i)
  case (Cons raw xs)
  show ?case
    using Cons.IH [of "fst (step s raw)" "Suc i"] by (auto split: prod.splits)
qed simp

locale fence_masked =
  fixes step :: "'s \<Rightarrow> string \<Rightarrow> 's \<times> bool"
    and ticks :: "'s \<Rightarrow> nat"
    and fenced_hit :: bool
  assumes ticks_step: "ticks (fst (step s raw)) = update_md_fence (strip_eol raw) (ticks s)"
    and step_fenced:
      "ticks s \<noteq> 0 \<Longrightarrow> update_md_fence (strip_eol raw) (ticks s) = ticks s \<Longrightarrow>
       step s raw = (s, fenced_hit)"
begin

lemma run_ticks: "ticks (run_state step s lines) = fence_state (ticks s) lines"
  by (induction lines arbitrary: s) (simp_all add: run_state_def fence_state_def ticks_step)

lemma scan_fenced_body:
  assumes "ticks s \<noteq> 0" and "stays_fenced (ticks s) body"
  shows "scan_lines step s i (body @ post) =
           (if fenced_hit then {i..<i + length body} else {}) \<union>
           scan_lines step s (i + length body) post"
  using assms(2)
proof (induction body arbitrary: i)
  case (Cons raw body)
  then have "step s raw = (s, fenced_hit)"
    using assms(1) step_fenced by (auto simp: stays_fenced_def)
  moreover have "stays_fenced (ticks s) body" using Cons.prems by (simp add: stays_fenced_def)
  ultimately show ?case using Cons.IH [of "Suc i"] by auto
qed simp

lemma scan_swap_body:
  assumes "fence_state (ticks s) pre = t" and "t \<noteq> 0"
    and "stays_fenced t b1" and "stays_fenced t b2" and "length b1 = length b2"
  shows "scan_lines step s i (pre @ b1 @ post) = scan_lines step s i (pre @ b2 @ post)"
  using assms scan_fenced_body [of "run_state step s pre"]
  by (simp add: scan_lines_append [of step s i pre] run_ticks)

end

interpretation md_pass: fence_masked md_step "\<lambda>t. t" True
  by unfold_locales (auto simp: md_step_def Let_def)

interpretation query_pass: fence_masked query_step fst False
  by unfold_locales (auto simp: query_step_def Let_def split: prod.splits)

interpretation html_pass: fence_masked html_step fst False
  by unfold_locales (auto simp: html_step_def Let_def split: prod.splits)

subsection \<open>Facts the editors use\<close>

lemma protected_lines_bounds: "protected_lines lines \<subseteq> {..<length lines}"
  using scan_lines_bounds [of md_step 0 0 lines] scan_lines_bounds [of query_step "(0, False)" 0 lines]
    scan_lines_bounds [of html_step "(0, False)" 0 lines]
  by (auto simp: protected_lines_def protected_md_lines_def protected_query_lines_def
      protected_html_lines_def)

lemma finite_protected_lines [simp]: "finite (protected_lines lines)"
  using protected_lines_bounds finite_subset by blast

lemma compute_protected_bounds:
  "i \<in> compute_page_protected_line_indices text \<Longrightarrow> i < length (splitlines text)"
  using protected_lines_bounds by (auto simp: compute_page_protected_line_indices_def)

lemma fenced_body_swap:
  assumes "fence_state 0 pre \<noteq> 0"
    and "stays_fenced (fence_state 0 pre) b1" and "stays_fenced (fence_state 0 pre) b2"
    and "length b1 = length b2"
  shows "protected_lines (pre @ b1 @ post) = protected_lines (pre @ b2 @ post)"
  using assms md_pass.scan_swap_body [of 0 pre "fence_state 0 pre" b1 b2 0 post]
    query_pass.scan_swap_body [of "(0, False)" pre "fence_state 0 pre" b1 b2 0 post]
    html_pass.scan_swap_body [of "(0, False)" pre "fence_state 0 pre" b1 b2 0 post]
  by (simp add: protected_lines_def protected_md_lines_def protected_query_lines_def
      protected_html_lines_def)

lemma fenced_body_protected:
  assumes "fence_state 0 pre \<noteq> 0" and "stays_fenced (fence_state 0 pre) body"
  shows "{length pre..<length pre + length body} \<subseteq> protected_lines (pre @ body @ post)"
proof -
  have "run_state md_step 0 pre = fence_state 0 pre" using md_pass.run_ticks by simp
  then have "{length pre..<length pre + length body} \<subseteq> protected_md_lines (pre @ body @ post)"
    using assms md_pass.scan_fenced_body [of "run_state md_step 0 pre" body "length pre" post]
    by (auto simp: protected_md_lines_def scan_lines_append [of md_step 0 0 pre])
  then show ?thesis by (auto simp: protected_lines_def)
qed

subsection \<open>Properties\<close>

text \<open>
  C5. Masking. Two pages that differ only inside one code fence have the same dead zones,
  whatever comment or query markers the differing lines hold, and the fenced lines are dead.
\<close>

theorem fenced_body_irrelevant:
  assumes "splitlines t1 = pre @ b1 @ post" and "splitlines t2 = pre @ b2 @ post"
    and "length b1 = length b2" and "fence_state 0 pre \<noteq> 0"
    and "stays_fenced (fence_state 0 pre) b1" and "stays_fenced (fence_state 0 pre) b2"
  shows "compute_page_protected_line_indices t1 = compute_page_protected_line_indices t2 \<and>
    {length pre..<length pre + length b1} \<subseteq> compute_page_protected_line_indices t1"
  using assms fenced_body_swap [of pre b1 b2 post] fenced_body_protected [of pre b1 post]
  by (simp add: compute_page_protected_line_indices_def)

lemma fenced_body_irrelevant_witness:
  "compute_page_protected_line_indices (join [LF] [''- a'', ''```py'', ''<!-- x'', ''```'', ''- b'']) =
   compute_page_protected_line_indices (join [LF] [''- a'', ''```py'', ''y'', ''```'', ''- b'']) \<and>
   {2..<3} \<subseteq> compute_page_protected_line_indices (join [LF] [''- a'', ''```py'', ''<!-- x'', ''```'', ''- b''])"
  using fenced_body_irrelevant
    [of "join [LF] [''- a'', ''```py'', ''<!-- x'', ''```'', ''- b'']" "[''- a'', ''```py'']"
        "[''<!-- x'']" "[''```'', ''- b'']" "join [LF] [''- a'', ''```py'', ''y'', ''```'', ''- b'']" "[''y'']"]
  by code_simp

end
