(* ===== verification/Mldoc.thy ===== *)
theory Mldoc
  imports Prelude
begin

section \<open>Logseq property lines and structural guards\<close>

text \<open>
  Model of \<open>src/graph/mldoc_properties.py\<close> (property lines \<open>key:: value\<close>, the comma-separated
  list reader, the double-quoted spans) and of \<open>src/graph/mldoc_guards.py\<close> (fences, drawers
  and macros that block a refactoring). The list reader is the state machine of the source:
  a quote flag, a link depth and the piece read so far. The relation \<open>scans\<close> describes what
  it reads without emitting a piece; it carries the round trip of the reader.
\<close>

subsection \<open>Property lines\<close>

record property_line =
  pl_indent :: string
  pl_key_raw :: string
  pl_key_normalized :: string
  pl_sep_after_colons :: string
  pl_value_raw :: string
  pl_value_start :: nat

definition line_core :: "property_line \<Rightarrow> string" where
  "line_core p = pl_indent p @ pl_key_raw p @ ''::'' @ pl_sep_after_colons p @ pl_value_raw p"

definition is_bullet_mark :: "char \<Rightarrow> bool" where
  "is_bullet_mark c \<longleftrightarrow> c = CHR ''-'' \<or> c = CHR ''*'' \<or> c = CHR ''+''"

text \<open>
  The list bullet: white space, one of the three marks, white space. The result is the
  leading white space, the mark, and the text after the white space that follows the mark.
\<close>

definition bullet_match :: "string \<Rightarrow> (string \<times> char \<times> string) option" where
  "bullet_match s =
     (case lstrip s of
        [] \<Rightarrow> None
      | m # r \<Rightarrow>
          if is_bullet_mark m \<and> r \<noteq> [] \<and> py_space (hd r)
          then Some (takeWhile py_space s, m, lstrip r) else None)"

definition is_bullet :: "string \<Rightarrow> bool" where
  "is_bullet s \<longleftrightarrow> bullet_match s \<noteq> None"

definition hash_head :: "string \<Rightarrow> bool" where
  "hash_head s =
     (case lstrip s of
        [] \<Rightarrow> False
      | c # r \<Rightarrow> c = CHR ''#'' \<and> (r = [] \<or> py_space (hd r) \<or> hd r = CHR ''#''))"

definition normalize_logseq_property_key :: "string \<Rightarrow> string" where
  "normalize_logseq_property_key key = casefold (strip key)"

text \<open>The key part, \<open>^(\s*)(\S.*)$\<close>: no line feed except as the very last character.\<close>

definition key_part_ok :: "string \<Rightarrow> bool" where
  "key_part_ok left \<longleftrightarrow> lstrip left \<noteq> [] \<and> LF \<notin> set (butlast (lstrip left))"

definition parse_logseq_property_line :: "string \<Rightarrow> property_line option" where
  "parse_logseq_property_line line =
     (let s = rstrip_by is_eol line
      in if strip s = [] then None
         else if is_bullet s then None
         else if hash_head s then None
         else case find_sub ''::'' s of
           None \<Rightarrow> None
         | Some idx \<Rightarrow>
            (let left = take idx s; right = drop (idx + 2) s
             in if \<not> key_part_ok left then None
                else let indent = takeWhile py_space left; key_raw = rstrip (lstrip left)
                     in if key_raw = [] \<or> hd key_raw = CHR ''#'' then None
                        else if CHR '':'' \<in> set key_raw then None
                        else let sep_after = takeWhile py_space right;
                                 value_raw = lstrip right;
                                 kn = normalize_logseq_property_key key_raw
                             in if kn = [] \<or> kn = ''id'' then None
                                else Some \<lparr>pl_indent = indent, pl_key_raw = key_raw,
                                       pl_key_normalized = kn,
                                       pl_sep_after_colons = sep_after, pl_value_raw = value_raw,
                                       pl_value_start = idx + 2 + length sep_after\<rparr>))"

definition is_logseq_block_property_line :: "string \<Rightarrow> bool" where
  "is_logseq_block_property_line stripped_line \<longleftrightarrow> parse_logseq_property_line stripped_line \<noteq> None"

subsection \<open>Comma-separated values\<close>

definition push_piece :: "string \<Rightarrow> string list \<Rightarrow> string list" where
  "push_piece current rest = (if strip current = [] then rest else strip current # rest)"

fun split_loop :: "bool \<Rightarrow> nat \<Rightarrow> string \<Rightarrow> string \<Rightarrow> string list" where
  "split_loop in_dq depth cur [] = push_piece cur []"
| "split_loop in_dq depth cur (ch # r) =
     (if in_dq then
        (if ch = BSL \<and> r \<noteq> [] then split_loop True depth (cur @ [ch, hd r]) (tl r)
         else split_loop (ch \<noteq> DQ) depth (cur @ [ch]) r)
      else if ch = DQ then split_loop True depth (cur @ [ch]) r
      else if ch = CHR ''['' \<and> r \<noteq> [] \<and> hd r = CHR ''[''
        then split_loop False (depth + 1) (cur @ ''[['') (tl r)
      else if 0 < depth \<and> ch = CHR '']'' \<and> r \<noteq> [] \<and> hd r = CHR '']''
        then split_loop False (depth - 1) (cur @ '']]'') (tl r)
      else if ch = CHR '','' \<and> depth = 0 then push_piece cur (split_loop False 0 [] r)
      else split_loop False depth (cur @ [ch]) r)"

definition split_logseq_property_list_values :: "string \<Rightarrow> string list" where
  "split_logseq_property_list_values raw_value =
     (let v = strip raw_value in if v = [] then [] else split_loop False 0 [] v)"

text \<open>Double-quoted spans: the position after the opening quote, then the closing quote.\<close>

fun dq_close :: "nat \<Rightarrow> string \<Rightarrow> (nat \<times> string) option" where
  "dq_close i [] = None"
| "dq_close i (c # r) =
     (if c = BSL then (case r of [] \<Rightarrow> None | _ # r' \<Rightarrow> dq_close (i + 2) r')
      else if c = DQ then Some (i, r)
      else dq_close (i + 1) r)"

lemma dq_close_shorter: "dq_close i r = Some (j, r') \<Longrightarrow> length r' < length r"
  by (induction i r rule: dq_close.induct) (auto split: if_splits list.splits)

function dq_spans :: "nat \<Rightarrow> nat \<Rightarrow> string \<Rightarrow> (nat \<times> nat) list" where
  "dq_spans base i [] = []"
| "dq_spans base i (c # r) =
     (if c \<noteq> DQ then dq_spans base (i + 1) r
      else case dq_close (i + 1) r of
             None \<Rightarrow> []
           | Some (j, r') \<Rightarrow> (base + i, base + j + 1) # dq_spans base (j + 1) r')"
  by pat_completeness auto
termination
  by (relation "measure (\<lambda>(_, _, s). length s)") (auto dest!: dq_close_shorter)

definition double_quoted_spans_in_value :: "string \<Rightarrow> nat \<Rightarrow> (nat \<times> nat) list" where
  "double_quoted_spans_in_value value_raw base_offset = dq_spans base_offset 0 value_raw"

subsection \<open>Structural guards\<close>

definition drawer_char :: "char \<Rightarrow> bool" where
  "drawer_char c \<longleftrightarrow> is_alpha_ascii c \<or> is_digit c \<or> c = CHR ''_'' \<or> c = CHR ''-''"

definition drawer_at :: "string \<Rightarrow> bool" where
  "drawer_at s =
     (case s of
        c # a # r \<Rightarrow> c = CHR '':'' \<and> is_alpha_ascii a \<and>
          (case dropWhile drawer_char r of [] \<Rightarrow> False | x # _ \<Rightarrow> x = CHR '':'')
      | _ \<Rightarrow> False)"

fun has_drawer :: "string \<Rightarrow> bool" where
  "has_drawer [] = False"
| "has_drawer (c # cs) = (drawer_at (c # cs) \<or> has_drawer cs)"

definition has_macro_open :: "string \<Rightarrow> bool" where
  "has_macro_open s = contains s ''{{''"

definition bullet_first_line_refactor_blocked :: "string \<Rightarrow> bool" where
  "bullet_first_line_refactor_blocked body \<longleftrightarrow>
     contains body [TICK, TICK, TICK] \<or> has_macro_open body \<or> has_drawer body"

definition guarded_lines :: "text_lines \<Rightarrow> bool" where
  "guarded_lines lines \<longleftrightarrow>
     list_ex (\<lambda>l. has_drawer (rstrip_by (\<lambda>c. c = LF) l) \<or> has_macro_open (rstrip_by (\<lambda>c. c = LF) l)) lines"

definition pre_id_block_lines_protected :: "text_lines \<Rightarrow> nat \<Rightarrow> nat \<Rightarrow> bool" where
  "pre_id_block_lines_protected lines bullet_idx id_line_idx =
     (if id_line_idx \<le> bullet_idx + 1 then False
      else let mid = slice (bullet_idx + 1) id_line_idx lines
           in contains (concat mid) [TICK, TICK, TICK] \<or> guarded_lines mid)"

definition block_span_has_code_fence_or_drawer :: "text_lines \<Rightarrow> nat \<Rightarrow> nat \<Rightarrow> bool" where
  "block_span_has_code_fence_or_drawer lines bullet_idx subtree_end =
     (let hi = min subtree_end (length lines)
      in if hi \<le> bullet_idx then False
         else let chunk = slice bullet_idx hi lines
              in contains (concat chunk) [TICK, TICK, TICK] \<or> guarded_lines chunk)"

subsection \<open>What a parsed property line is\<close>

lemma find_colons_key:
  assumes "CHR '':'' \<notin> set k"
  shows "find_sub ''::'' (k @ ''::'' @ r) = Some (length k)"
  using assms by (induction k) (auto simp: startswith_def)

lemma find_colons_take: "find_sub ''::'' s = Some i \<Longrightarrow> find_sub ''::'' (take i s @ ''::'' @ r) = Some i"
proof (induction s arbitrary: i)
  case (Cons c cs)
  show ?case
  proof (cases "startswith (c # cs) ''::''")
    case True
    with Cons.prems show ?thesis by (simp add: startswith_def)
  next
    case False
    with Cons.prems obtain j where j: "find_sub ''::'' cs = Some j" "i = Suc j" by auto
    from False have "\<not> startswith (c # take j cs @ ''::'' @ r) ''::''"
      using find_sub_Some [OF j(1)] by (cases j; cases cs) (auto simp: startswith_def)
    with Cons.IH [OF j(1)] j(2) show ?thesis by simp
  qed
qed (simp split: if_splits)

lemma parse_property_intro:
  assumes ind: "list_all py_space i" and ki: "CHR '':'' \<notin> set (i @ k)"
    and k: "k \<noteq> []" "\<not> py_space (hd k)" "\<not> py_space (last k)" "hd k \<noteq> CHR ''#''" "LF \<notin> set k"
    and kn: "normalize_logseq_property_key k \<noteq> ''id''"
    and nb: "\<not> is_bullet (i @ k @ ''::'' @ r)"
    and eol: "rstrip_by is_eol (i @ k @ ''::'' @ r) = i @ k @ ''::'' @ r"
  shows "parse_logseq_property_line (i @ k @ ''::'' @ r) =
    Some \<lparr>pl_indent = i, pl_key_raw = k, pl_key_normalized = normalize_logseq_property_key k,
      pl_sep_after_colons = takeWhile py_space r, pl_value_raw = lstrip r,
      pl_value_start = length i + length k + 2 + length (takeWhile py_space r)\<rparr>"
proof -
  let ?s = "i @ k @ ''::'' @ r"
  obtain c k' where ck: "k = c # k'" using k(1) by (cases k) auto
  have ls: "lstrip (i @ t) = t" if "t \<noteq> []" "hd t = c" for t
    using ind k(2) ck that by (simp add: lstrip_by_append_all lstrip_by_id)
  have tw: "takeWhile py_space (i @ k) = i"
    using ind k(2) ck by (simp add: takeWhile_append list_all_iff)
  have "strip ?s \<noteq> []" using k(2) ck by (auto simp: strip_eq_Nil list_all_iff)
  moreover have "\<not> hash_head ?s"
    using ls [of "k @ ''::'' @ r"] k(4) ck by (simp add: hash_head_def)
  moreover have "find_sub ''::'' ?s = Some (length (i @ k))"
    using find_colons_key [OF ki, of r] by simp
  moreover have "lstrip (i @ k) = k" using ls [of k] ck by simp
  moreover have "rstrip k = k" using k(3) by (simp add: rstrip_by_id)
  moreover have "normalize_logseq_property_key k \<noteq> []"
    using k by (simp add: normalize_logseq_property_key_def strip_id)
  moreover have "LF \<notin> set (butlast k)" using k(5) in_set_butlastD by metis
  ultimately show ?thesis
    using nb eol k ki kn tw by (simp add: parse_logseq_property_line_def Let_def key_part_ok_def)
qed

lemma parse_property_elim:
  assumes "parse_logseq_property_line line = Some p"
  obtains t where
    "rstrip_by is_eol line = pl_indent p @ pl_key_raw p @ t @ ''::'' @ pl_sep_after_colons p @ pl_value_raw p"
    "list_all py_space (pl_indent p)" "list_all py_space t" "list_all py_space (pl_sep_after_colons p)"
    "CHR '':'' \<notin> set (pl_indent p @ pl_key_raw p)"
    "pl_key_raw p \<noteq> []" "\<not> py_space (hd (pl_key_raw p))" "\<not> py_space (last (pl_key_raw p))"
    "hd (pl_key_raw p) \<noteq> CHR ''#''" "LF \<notin> set (pl_key_raw p)"
    "pl_key_normalized p = normalize_logseq_property_key (pl_key_raw p)"
    "pl_key_normalized p \<noteq> ''id''" "\<not> is_bullet (rstrip_by is_eol line)"
    "pl_value_raw p = [] \<or> \<not> py_space (hd (pl_value_raw p))"
    "drop (pl_value_start p) (rstrip_by is_eol line) = pl_value_raw p"
proof -
  let ?s = "rstrip_by is_eol line"
  from assms obtain idx where idx: "find_sub ''::'' ?s = Some idx"
    by (auto simp: parse_logseq_property_line_def Let_def split: if_splits option.splits)
  let ?l = "take idx ?s" and ?r = "drop (idx + 2) ?s"
  have s: "?s = ?l @ ''::'' @ ?r" using find_sub_decomp [OF idx] by simp
  have ok: "key_part_ok ?l" "rstrip (lstrip ?l) \<noteq> []" "hd (rstrip (lstrip ?l)) \<noteq> CHR ''#''"
    "CHR '':'' \<notin> set (rstrip (lstrip ?l))" "\<not> is_bullet ?s"
    "normalize_logseq_property_key (rstrip (lstrip ?l)) \<noteq> ''id''"
    and p: "p = \<lparr>pl_indent = takeWhile py_space ?l, pl_key_raw = rstrip (lstrip ?l),
      pl_key_normalized = normalize_logseq_property_key (rstrip (lstrip ?l)),
      pl_sep_after_colons = takeWhile py_space ?r, pl_value_raw = lstrip ?r,
      pl_value_start = idx + 2 + length (takeWhile py_space ?r)\<rparr>"
    using assms idx by (auto simp: parse_logseq_property_line_def Let_def split: if_splits)
  obtain t where t: "lstrip ?l = rstrip (lstrip ?l) @ t" "list_all py_space t"
    using rstrip_by_decomp by blast
  have l: "?l = takeWhile py_space ?l @ rstrip (lstrip ?l) @ t"
    using t(1) lstrip_by_decomp [of ?l py_space] by simp
  have r: "?r = takeWhile py_space ?r @ lstrip ?r" by (rule lstrip_by_decomp)
  have hdk: "hd (rstrip (lstrip ?l)) = hd (lstrip ?l)" using t(1) ok(2) by (metis hd_append2)
  have sp: "\<not> py_space (hd (rstrip (lstrip ?l)))"
    using lstrip_by_hd [of py_space ?l] ok(1) hdk by (simp add: key_part_ok_def)
  have lf: "LF \<notin> set (rstrip (lstrip ?l))"
  proof
    assume "LF \<in> set (rstrip (lstrip ?l))"
    moreover have "last (rstrip (lstrip ?l)) \<noteq> LF"
      using rstrip_by_last [OF ok(2)] by (auto simp: py_space_def)
    ultimately have "LF \<in> set (butlast (rstrip (lstrip ?l)))"
      using ok(2) by (metis append_butlast_last_id rotate1.simps(2) set_ConsD set_rotate1)
    moreover have "set (butlast (rstrip (lstrip ?l))) \<subseteq> set (butlast (lstrip ?l))"
      using t(1) ok(2) by (metis butlast.simps(1) butlast_append in_set_butlastD append.right_neutral
          order_refl set_append subsetI Un_iff)
    ultimately show False using ok(1) by (auto simp: key_part_ok_def)
  qed
  have vh: "lstrip ?r = [] \<or> \<not> py_space (hd (lstrip ?r))" using lstrip_by_hd by blast
  have len: "length ?l = idx" using find_sub_Some [OF idx] by simp
  have vs: "drop (idx + 2 + length (takeWhile py_space ?r)) ?s = lstrip ?r"
    by (metis (no_types) add.commute append_eq_conv_conj drop_drop r)
  show thesis
  proof (rule that [of t])
    show "?s = pl_indent p @ pl_key_raw p @ t @ ''::'' @ pl_sep_after_colons p @ pl_value_raw p"
      using s l r p by (metis append.assoc property_line.select_convs(1,2,4,5))
    have "CHR '':'' \<notin> set (takeWhile py_space ?l)"
      by (auto dest!: set_takeWhileD simp: py_space_def)
    then show "CHR '':'' \<notin> set (pl_indent p @ pl_key_raw p)" using ok(4) p by simp
  qed (use p ok t(2) sp lf vh vs rstrip_by_last [OF ok(2)]
       in \<open>auto simp: list_all_iff dest!: set_takeWhileD\<close>)
qed

lemma bullet_prefix_key:
  assumes "list_all py_space i" "k \<noteq> []" "\<not> py_space (hd k)" "is_bullet (i @ k @ ''::'' @ r)"
    "list_all py_space t"
  shows "is_bullet (i @ k @ t @ ''::'' @ r)"
proof -
  obtain c k' where ck: "k = c # k'" using assms(2) by (cases k) auto
  with assms show ?thesis
    by (cases k'; cases t)
      (auto simp: is_bullet_def bullet_match_def lstrip_by_append_all lstrip_by_id list_all_iff
        py_space_def split: if_splits)
qed

lemma reparse_line_core:
  assumes "parse_logseq_property_line line = Some p"
  shows "parse_logseq_property_line (line_core p) =
    Some (p\<lparr>pl_value_start := length (pl_indent p) + length (pl_key_raw p) + 2 + length (pl_sep_after_colons p)\<rparr>)"
  using assms
proof (rule parse_property_elim)
  fix t
  let ?r = "pl_sep_after_colons p @ pl_value_raw p"
  let ?s = "rstrip_by is_eol line"
  assume s: "?s = pl_indent p @ pl_key_raw p @ t @ ''::'' @ pl_sep_after_colons p @ pl_value_raw p"
    and a: "list_all py_space (pl_indent p)" "list_all py_space t" "list_all py_space (pl_sep_after_colons p)"
    "CHR '':'' \<notin> set (pl_indent p @ pl_key_raw p)"
    "pl_key_raw p \<noteq> []" "\<not> py_space (hd (pl_key_raw p))" "\<not> py_space (last (pl_key_raw p))"
    "hd (pl_key_raw p) \<noteq> CHR ''#''" "LF \<notin> set (pl_key_raw p)"
    "pl_key_normalized p = normalize_logseq_property_key (pl_key_raw p)"
    "pl_key_normalized p \<noteq> ''id''" "\<not> is_bullet ?s"
    "pl_value_raw p = [] \<or> \<not> py_space (hd (pl_value_raw p))"
  have nb: "\<not> is_bullet (pl_indent p @ pl_key_raw p @ ''::'' @ ?r)"
    using bullet_prefix_key [OF a(1) a(5) a(6) _ a(2), of ?r] a(12) s by auto
  have "?s \<noteq> []" using s by simp
  then have "\<not> is_eol (last ?s)" using rstrip_by_last by blast
  then have "\<not> is_eol (last (''::'' @ ?r))" using s by (simp add: last_append split: if_splits)
  then have e: "rstrip_by is_eol (pl_indent p @ pl_key_raw p @ ''::'' @ ?r) =
      pl_indent p @ pl_key_raw p @ ''::'' @ ?r"
    by (intro rstrip_by_id) (simp add: last_append split: if_splits)
  have "takeWhile py_space ?r = pl_sep_after_colons p" "lstrip ?r = pl_value_raw p"
    using a(3,13) by (auto simp: takeWhile_append list_all_iff lstrip_by_append_all lstrip_by_id
        takeWhile_eq_Nil_iff)
  then show ?thesis
    using parse_property_intro [OF a(1,4,5,6,7,8,9) _ nb e] a(10,11)
    by (simp add: line_core_def)
qed

subsection \<open>The list reader reads back what it wrote\<close>

text \<open>
  \<open>scans dq d s dq' d'\<close>: from quote flag \<open>dq\<close> and link depth \<open>d\<close> the reader consumes \<open>s\<close>
  without emitting a piece and is then at \<open>dq'\<close> and \<open>d'\<close>. A lone bracket is one that the next
  character does not double.
\<close>

definition not_next :: "char \<Rightarrow> string \<Rightarrow> bool" where
  "not_next c r \<longleftrightarrow> r = [] \<or> hd r \<noteq> c"

inductive scans :: "bool \<Rightarrow> nat \<Rightarrow> string \<Rightarrow> bool \<Rightarrow> nat \<Rightarrow> bool" where
  stop: "scans dq d [] dq d"
| escape: "scans True d r dq' d' \<Longrightarrow> scans True d (BSL # c # r) dq' d'"
| dangling: "scans True d [BSL] True d"
| quoted: "c \<noteq> BSL \<Longrightarrow> scans (c \<noteq> DQ) d r dq' d' \<Longrightarrow> scans True d (c # r) dq' d'"
| quote: "scans True d r dq' d' \<Longrightarrow> scans False d (DQ # r) dq' d'"
| link: "scans False (Suc d) r dq' d' \<Longrightarrow> scans False d (CHR ''['' # CHR ''['' # r) dq' d'"
| unlink: "scans False d r dq' d' \<Longrightarrow> scans False (Suc d) (CHR '']'' # CHR '']'' # r) dq' d'"
| plain: "c \<noteq> DQ \<Longrightarrow> c = CHR ''['' \<longrightarrow> not_next (CHR ''['') r \<Longrightarrow>
    c = CHR '']'' \<longrightarrow> d = 0 \<or> not_next (CHR '']'') r \<Longrightarrow> c = CHR '','' \<longrightarrow> d \<noteq> 0 \<Longrightarrow>
    scans False d r dq' d' \<Longrightarrow> scans False d (c # r) dq' d'"

inductive_cases scans_NilE: "scans dq d [] dq' d'"
inductive_cases scans_FalseE: "scans False d (c # r) dq' d'"

lemma split_loop_scans:
  assumes "scans dq d s dq' d'"
    and "rest = [] \<or> (\<not> dq' \<and> hd rest \<noteq> CHR ''['' \<and> hd rest \<noteq> CHR '']'')"
  shows "split_loop dq d cur (s @ rest) = split_loop dq' d' (cur @ s) rest"
  using assms
proof (induction arbitrary: cur rule: scans.induct)
  case (plain c r d dq' d')
  have "\<not> (c = CHR ''['' \<and> r @ rest \<noteq> [] \<and> hd (r @ rest) = CHR ''['')"
    "\<not> (0 < d \<and> c = CHR '']'' \<and> r @ rest \<noteq> [] \<and> hd (r @ rest) = CHR '']'')"
    using plain.hyps(2,3) plain.prems by (auto simp: not_next_def hd_append)
  with plain.hyps(1,4) plain.IH [OF plain.prems, of "cur @ [c]"] show ?case by auto
qed auto

lemma split_loop_cases:
  "(\<exists>dq' d'. scans dq d s dq' d' \<and> split_loop dq d cur s = push_piece (cur @ s) []) \<or>
   (\<exists>p rest. s = p @ CHR '','' # rest \<and> scans dq d p False 0 \<and>
      split_loop dq d cur s = push_piece (cur @ p) (split_loop False 0 [] rest))"
proof (induction s arbitrary: dq d cur rule: length_induct)
  case (1 s)
  note IH = "1.IH" [rule_format]
  have lift: ?case
    if tok: "s = tok @ r" "tok \<noteq> []"
      and step: "split_loop dq d cur s = split_loop dq1 d1 (cur @ tok) r"
      and sc: "\<And>p dq' d'. prefix p r \<Longrightarrow> scans dq1 d1 p dq' d' \<Longrightarrow> (dq' \<longrightarrow> p = r) \<Longrightarrow>
                 scans dq d (tok @ p) dq' d'" for tok r dq1 d1
  proof -
    have "length r < length s" using tok by simp
    from IH [OF this, of dq1 d1 "cur @ tok"] show ?thesis
    proof (elim disjE exE conjE)
      fix dq' d' assume "scans dq1 d1 r dq' d'" "split_loop dq1 d1 (cur @ tok) r = push_piece ((cur @ tok) @ r) []"
      then show ?thesis using sc [of r] tok step by auto
    next
      fix p rest
      assume r: "r = p @ CHR '','' # rest" "scans dq1 d1 p False 0"
        "split_loop dq1 d1 (cur @ tok) r = push_piece ((cur @ tok) @ p) (split_loop False 0 [] rest)"
      then have "s = (tok @ p) @ CHR '','' # rest" "scans dq d (tok @ p) False 0"
        using sc [of p] tok by auto
      moreover have "split_loop dq d cur s = push_piece (cur @ (tok @ p)) (split_loop False 0 [] rest)"
        using r(3) step by simp
      ultimately show ?thesis by blast
    qed
  qed
  show ?case
  proof (cases s)
    case Nil
    then show ?thesis by (auto intro: scans.stop)
  next
    case (Cons c r)
    have nn: "not_next x p" if "prefix p r" "not_next x r" for p x
      using that by (cases p; cases r) (auto simp: not_next_def)
    show ?thesis
    proof (cases dq)
      case True
      consider (esc) c1 r1 where "c = BSL" "r = c1 # r1" | (dang) "c = BSL" "r = []" | (oth) "c \<noteq> BSL"
        by (cases r) auto
      then show ?thesis
      proof cases
        case esc
        then show ?thesis using Cons True by (intro lift [of "[c, c1]" r1 True d]) (auto intro: scans.escape)
      next
        case dang
        then show ?thesis using Cons True scans.dangling [of d] by auto
      next
        case oth
        then show ?thesis using Cons True by (intro lift [of "[c]" r "c \<noteq> DQ" d]) (auto intro: scans.quoted)
      qed
    next
      case False
      consider (q) "c = DQ" | (op) r1 where "c = CHR ''[''" "r = CHR ''['' # r1"
        | (cl) r1 where "0 < d" "c = CHR '']''" "r = CHR '']'' # r1"
        | (comma) "c = CHR '',''" "d = 0"
        | (pl) "c \<noteq> DQ" "c = CHR ''['' \<longrightarrow> not_next (CHR ''['') r"
            "c = CHR '']'' \<longrightarrow> d = 0 \<or> not_next (CHR '']'') r" "c = CHR '','' \<longrightarrow> d \<noteq> 0"
        by (cases r) (auto simp: not_next_def)
      then show ?thesis
      proof cases
        case q
        then show ?thesis using Cons False by (intro lift [of "[c]" r True d]) (auto intro: scans.quote)
      next
        case op
        then show ?thesis
          using Cons False by (intro lift [of "''[[''" r1 False "Suc d"]) (auto intro: scans.link)
      next
        case cl
        then obtain d1 where "d = Suc d1" by (cases d) auto
        with cl show ?thesis
          using Cons False by (intro lift [of "'']]''" r1 False d1]) (auto intro: scans.unlink)
      next
        case comma
        then show ?thesis using Cons False scans.stop [of False 0] by fastforce
      next
        case pl
        have "split_loop False d cur (c # r) = split_loop False d (cur @ [c]) r"
          using pl by (auto simp: not_next_def)
        moreover have "scans False d ([c] @ p) dq' d'"
          if "prefix p r" "scans False d p dq' d'" for p dq' d'
          using that(2) pl nn [OF that(1)] by (auto intro: scans.plain)
        ultimately show ?thesis
          using Cons False by (intro lift [of "[c]" r False d]) auto
      qed
    qed
  qed
qed


lemma scans_dropWhile:
  "scans False d s dq' d' \<Longrightarrow> scans False d (dropWhile py_space s) dq' d'"
proof (induction s)
  case (Cons c s)
  show ?case
  proof (cases "py_space c")
    case True
    then have "scans False d s dq' d'"
      using Cons.prems by (auto elim!: scans_FalseE simp: py_space_def)
    then show ?thesis using True Cons.IH by simp
  qed (use Cons.prems in simp)
qed simp

lemma scans_snoc_space:
  "scans dq d t dq' d' \<Longrightarrow> t = s @ [w] \<Longrightarrow> py_space w \<Longrightarrow> \<not> dq' \<Longrightarrow> scans dq d s dq' d'"
proof (induction arbitrary: s rule: scans.induct)
  case (escape d r dq' d' c)
  show ?case
  proof (cases r rule: rev_cases)
    case Nil
    with escape show ?thesis by (auto elim: scans_NilE)
  next
    case (snoc r' x)
    with escape show ?thesis by (auto simp flip: append_Cons intro!: scans.escape)
  qed
next
  case (quoted c d r dq' d')
  show ?case
  proof (cases r rule: rev_cases)
    case Nil
    with quoted show ?thesis by (auto elim: scans_NilE simp: py_space_def)
  next
    case (snoc r' x)
    with quoted show ?thesis by (cases s) (auto intro!: scans.quoted)
  qed
next
  case (quote d r dq' d')
  then show ?case by (cases s) (auto intro: scans.quote simp: py_space_def)
next
  case (link d r dq' d')
  then show ?case
    by (cases s; cases "tl s") (auto intro: scans.link simp: py_space_def)
next
  case (unlink d r dq' d')
  then show ?case
    by (cases s; cases "tl s") (auto intro: scans.unlink simp: py_space_def)
next
  case (plain c r d dq' d')
  show ?case
  proof (cases s)
    case Nil
    with plain.prems plain.hyps(5) show ?thesis by (auto elim: scans_NilE intro: scans.stop)
  next
    case (Cons x s')
    then have r: "r = s' @ [w]" "x = c" using plain.prems by auto
    have "scans False d s' dq' d'" using plain.IH r plain.prems by simp
    moreover have "c = CHR ''['' \<longrightarrow> not_next (CHR ''['') s'"
      "c = CHR '']'' \<longrightarrow> d = 0 \<or> not_next (CHR '']'') s'"
      using plain.hyps(2,3) r by (cases s'; simp add: not_next_def)+
    ultimately show ?thesis using Cons r(2) plain.hyps(1,4) by (auto intro: scans.plain)
  qed
qed auto

lemma scans_rstrip: "scans dq d s False d' \<Longrightarrow> scans dq d (rstrip s) False d'"
  by (induction s rule: rev_induct) (auto simp: rstrip_by_snoc dest: scans_snoc_space)

lemma scans_strip: "scans False 0 s False d' \<Longrightarrow> scans False 0 (strip s) False d'"
  unfolding strip_def lstrip_by_def by (intro scans_rstrip scans_dropWhile)

text \<open>Lists of pieces the reader can tell apart: trimmed, and all but the last end neutral.\<close>

fun piece_list :: "string list \<Rightarrow> bool" where
  "piece_list [] \<longleftrightarrow> True"
| "piece_list [x] \<longleftrightarrow> x \<noteq> [] \<and> strip x = x \<and> (\<exists>dq d. scans False 0 x dq d)"
| "piece_list (x # y # r) \<longleftrightarrow> x \<noteq> [] \<and> strip x = x \<and> scans False 0 x False 0 \<and> piece_list (y # r)"

lemma piece_list_Cons:
  "x \<noteq> [] \<Longrightarrow> strip x = x \<Longrightarrow> scans False 0 x False 0 \<Longrightarrow> piece_list r \<Longrightarrow> piece_list (x # r)"
  by (cases r) auto

lemma piece_list_split_loop:
  "s = [] \<or> \<not> py_space (last s) \<Longrightarrow> piece_list (split_loop False 0 [] s)"
proof (induction s rule: length_induct)
  case (1 s)
  from split_loop_cases [of False 0 s "[]"] show ?case
  proof (elim disjE exE conjE)
    fix dq' d'
    assume sc: "scans False 0 s dq' d'" and eq: "split_loop False 0 [] s = push_piece ([] @ s) []"
    have "strip s = lstrip s"
    proof (cases "lstrip s = []")
      case False
      then have "last (lstrip s) = last s"
        by (metis append_is_Nil_conv last_append lstrip_by_decomp)
      with False "1.prems" show ?thesis by (auto simp: strip_def intro!: rstrip_by_id)
    qed (simp add: strip_def)
    then have "scans False 0 (strip s) dq' d'" using scans_dropWhile [OF sc] by (simp add: lstrip_by_def)
    then show ?thesis using eq by (auto simp: push_piece_def)
  next
    fix p rest
    assume s: "s = p @ CHR '','' # rest" and sc: "scans False 0 p False 0"
      and eq: "split_loop False 0 [] s = push_piece ([] @ p) (split_loop False 0 [] rest)"
    have "piece_list (split_loop False 0 [] rest)"
      using "1.IH" [rule_format, of rest] "1.prems" s by (cases "rest = []") (auto simp: push_piece_def)
    then show ?thesis using eq scans_strip [OF sc] by (auto simp: push_piece_def intro!: piece_list_Cons)
  qed
qed

lemma piece_list_trimmed: "piece_list xs \<Longrightarrow> x \<in> set xs \<Longrightarrow> x \<noteq> [] \<and> strip x = x"
  by (induction xs rule: piece_list.induct) auto

lemma split_loop_space: "py_space c \<Longrightarrow> split_loop False d cur (c # r) = split_loop False d (cur @ [c]) r"
  by (auto simp: py_space_def)

lemma strip_space_Cons: "py_space c \<Longrightarrow> strip (c # x) = strip x"
  by (simp add: strip_def lstrip_by_def)

lemma split_loop_join:
  "piece_list xs \<Longrightarrow> xs \<noteq> [] \<Longrightarrow> list_all py_space w \<Longrightarrow> split_loop False 0 w (join '', '' xs) = xs"
proof (induction xs arbitrary: w rule: piece_list.induct)
  case (2 x)
  then obtain dq d where "scans False 0 x dq d" by auto
  moreover have "strip (w @ x) = x" using 2 by (simp add: strip_def lstrip_by_append_all)
  ultimately show ?case
    using split_loop_scans [of False 0 x dq d "[]" w] 2 by (simp add: push_piece_def)
next
  case (3 x y r)
  have w: "strip (w @ x) = x" using 3 by (simp add: strip_def lstrip_by_append_all)
  have "split_loop False 0 w (x @ CHR '','' # CHR '' '' # join '', '' (y # r)) =
      split_loop False 0 (w @ x) (CHR '','' # CHR '' '' # join '', '' (y # r))"
    using 3 by (intro split_loop_scans) auto
  also have "\<dots> = push_piece (w @ x) (split_loop False 0 '' '' (join '', '' (y # r)))"
    by simp
  also have "\<dots> = x # y # r"
    using 3 w by (auto simp: push_piece_def py_space_def)
  finally show ?case by simp
qed simp

lemma strip_join: "piece_list xs \<Longrightarrow> strip (join '', '' xs) = join '', '' xs"
proof (cases xs)
  case (Cons x r)
  assume pl: "piece_list xs"
  have tr: "y \<noteq> [] \<and> \<not> py_space (hd y) \<and> \<not> py_space (last y)" if "y \<in> set xs" for y
    using piece_list_trimmed [OF pl that] strip_hd [of y] strip_last [of y] by auto
  have "hd (join '', '' xs) = hd x" using tr [of x] Cons by (simp add: join_def)
  moreover have "last (join '', '' xs) = last (last xs)"
    using tr Cons by (induction r rule: rev_induct) (auto simp: join_def last_append)
  moreover have "last xs \<in> set xs" using Cons by simp
  ultimately show ?thesis using tr Cons by (intro strip_id) auto
qed simp

lemma piece_list_split_values: "piece_list (split_logseq_property_list_values v)"
  using piece_list_split_loop [of "strip v"] strip_last [of v]
  by (auto simp: split_logseq_property_list_values_def Let_def)

lemma split_values_join: "piece_list xs \<Longrightarrow> split_logseq_property_list_values (join '', '' xs) = xs"
  using strip_join [of xs] split_loop_join [of xs "[]"] piece_list_trimmed [of xs "hd xs"]
  by (cases xs; cases "tl xs") (auto simp: split_logseq_property_list_values_def Let_def join_def)

subsection \<open>Properties\<close>

text \<open>
  C6. Reading a list-valued property is a round trip: the pieces joined by a comma and a
  space are read back as the same pieces, for every value, balanced or not.
\<close>

theorem split_values_roundtrip:
  "split_logseq_property_list_values (join '', '' (split_logseq_property_list_values v)) =
     split_logseq_property_list_values v"
  by (rule split_values_join [OF piece_list_split_values])

text \<open>
  The normalised text of a parsed property line (\<open>line_core\<close>) is again a property line
  with the same indent, key, separator and value; only the offset of the value may move,
  when the original had white space before the colons.
\<close>

theorem property_line_reparse:
  "Option.bind (parse_logseq_property_line line) (\<lambda>p. parse_logseq_property_line (line_core p)) =
     map_option (\<lambda>p. p\<lparr>pl_value_start :=
       length (pl_indent p) + length (pl_key_raw p) + 2 + length (pl_sep_after_colons p)\<rparr>)
       (parse_logseq_property_line line)"
  using reparse_line_core by (cases "parse_logseq_property_line line") auto

end
