(* ===== verification/Blocks.thy ===== *)
theory Blocks
  imports Mldoc Fences
begin

section \<open>Locating a block in the lines of a page\<close>

text \<open>
  Model of the line helpers of \<open>src/graph/markdown_blocks.py\<close>: a block is found by its
  \<open>id::\<close> line; its bullet is the nearest bullet above that line; its subtree ends at the next
  bullet that is not deeper. Line indices are \<open>nat\<close>, a descending or ascending search is
  \<open>first_index\<close> over the range the source loops over.
\<close>

definition strip_line_endings :: "string \<Rightarrow> string" where
  "strip_line_endings line = rstrip_by is_eol line"

definition strip_lines_for_match :: "text_lines \<Rightarrow> text_lines" where
  "strip_lines_for_match lines = map strip_line_endings lines"

definition canonical_line_suffix :: "string \<Rightarrow> string" where
  "canonical_line_suffix original =
     (if endswith original [CR, LF] \<or> endswith original [LF] \<or> endswith original [CR]
      then [LF] else [])"

text \<open>\<open>^\s*id::\s*<uuid>\s*$\<close>, ignoring case, for the trimmed and lowered UUID.\<close>

definition id_line_for :: "string \<Rightarrow> string \<Rightarrow> bool" where
  "id_line_for u line =
     (let r = lstrip (strip_line_endings line)
      in startswith (lower r) ''id::'' \<and> lower (strip (drop 4 r)) = lower u)"

definition find_id_line_index :: "text_lines \<Rightarrow> string \<Rightarrow> nat option" where
  "find_id_line_index lines block_uuid =
     (let u = lower (strip block_uuid)
      in first_index (\<lambda>i. id_line_for u (lines ! i)) [0..<length lines])"

text \<open>The indent of a bullet line, \<open>len(group(1))\<close>.\<close>

definition bullet_indent :: "string \<Rightarrow> nat option" where
  "bullet_indent line = map_option (\<lambda>(ws, _, _). length ws) (bullet_match (strip_line_endings line))"

definition block_bullet_index :: "text_lines \<Rightarrow> nat \<Rightarrow> nat option" where
  "block_bullet_index lines id_line_idx =
     first_index (\<lambda>j. bullet_indent (lines ! j) \<noteq> None) (rev [0..<id_line_idx])"

definition ends_subtree :: "nat \<Rightarrow> string \<Rightarrow> bool" where
  "ends_subtree base line = (case bullet_indent line of None \<Rightarrow> False | Some n \<Rightarrow> n \<le> base)"

definition block_subtree_end :: "text_lines \<Rightarrow> nat \<Rightarrow> nat \<Rightarrow> nat" where
  "block_subtree_end lines id_line_idx bullet_idx =
     (case bullet_indent (lines ! bullet_idx) of
        None \<Rightarrow> length lines
      | Some base \<Rightarrow>
          (case first_index (\<lambda>k. ends_subtree base (lines ! k)) [id_line_idx + 1..<length lines] of
             None \<Rightarrow> length lines
           | Some k \<Rightarrow> k))"

definition block_body_start :: "nat \<Rightarrow> nat \<Rightarrow> nat" where
  "block_body_start bullet_idx id_line_idx =
     (if bullet_idx + 1 \<le> id_line_idx then bullet_idx + 1 else id_line_idx)"

definition bullet_indent_unit :: "text_lines \<Rightarrow> nat \<Rightarrow> string" where
  "bullet_indent_unit lines bullet_idx =
     (case bullet_indent (lines ! bullet_idx) of
        None \<Rightarrow> ''  ''
      | Some depth \<Rightarrow>
          if 2 \<le> depth \<and> startswith (lines ! bullet_idx) [TAB] then [TAB] else ''  '')"

fun insert_scan :: "text_lines \<Rightarrow> nat \<Rightarrow> nat \<Rightarrow> nat list \<Rightarrow> nat" where
  "insert_scan stripped min_indent insert_at [] = insert_at"
| "insert_scan stripped min_indent insert_at (i # is) =
     (case bullet_match (stripped ! i) of
        Some (ws, _, _) \<Rightarrow>
          if min_indent \<le> length ws then insert_at
          else insert_scan stripped min_indent (i + 1) is
      | None \<Rightarrow> insert_scan stripped min_indent (i + 1) is)"

definition block_property_insert_index :: "text_lines \<Rightarrow> nat \<Rightarrow> nat \<Rightarrow> nat" where
  "block_property_insert_index stripped bullet_idx block_end =
     (case bullet_match (stripped ! bullet_idx) of
        None \<Rightarrow> bullet_idx + 1
      | Some (ws, _, _) \<Rightarrow>
          insert_scan stripped (length ws + length (bullet_indent_unit stripped bullet_idx))
            (bullet_idx + 1) [bullet_idx + 1..<min block_end (length stripped)])"

definition locate_block_by_uuid :: "text_lines \<Rightarrow> string \<Rightarrow> (nat \<times> nat \<times> nat) option" where
  "locate_block_by_uuid lines block_uuid =
     (let stripped = strip_lines_for_match lines
      in case find_id_line_index stripped block_uuid of
           None \<Rightarrow> None
         | Some id_idx \<Rightarrow>
             (case block_bullet_index stripped id_idx of
                None \<Rightarrow> None
              | Some b_idx \<Rightarrow> Some (b_idx, id_idx, block_subtree_end stripped id_idx b_idx)))"

subsection \<open>Lines and their terminators\<close>

lemma strip_line_endings_idem [simp]: "strip_line_endings (strip_line_endings l) = strip_line_endings l"
  by (simp add: strip_line_endings_def)

lemma bullet_indent_strip [simp]: "bullet_indent (strip_line_endings l) = bullet_indent l"
  by (simp add: bullet_indent_def)

lemma id_line_for_strip [simp]: "id_line_for u (strip_line_endings l) = id_line_for u l"
  by (simp add: id_line_for_def)

lemma length_strip_lines [simp]: "length (strip_lines_for_match lines) = length lines"
  by (simp add: strip_lines_for_match_def)

lemma nth_strip_lines [simp]: "i < length lines \<Longrightarrow> strip_lines_for_match lines ! i = strip_line_endings (lines ! i)"
  by (simp add: strip_lines_for_match_def)

lemma endswith_snoc [simp]: "endswith (s @ [c]) [d] \<longleftrightarrow> c = d"
  by (simp add: endswith_def)

lemma endswith_append [simp]: "endswith (s @ t) t"
  by (simp add: endswith_def)

lemma endswith_last: "endswith s [c] \<longleftrightarrow> s \<noteq> [] \<and> last s = c"
  by (cases s rule: rev_cases) (auto simp: endswith_def)

lemma canonical_suffix_iff:
  "canonical_line_suffix l = (if l \<noteq> [] \<and> is_eol (last l) then [LF] else [])"
proof -
  have "endswith l [CR, LF] \<Longrightarrow> l \<noteq> [] \<and> last l = LF"
    by (auto simp: endswith_def) (metis append_take_drop_id last_ConsL last_ConsR last_append list.distinct(1))
  then show ?thesis by (auto simp: canonical_line_suffix_def endswith_last is_eol_def)
qed

text \<open>Rewriting a line to its core and its canonical suffix keeps the core.\<close>

lemma strip_canonical [simp]: "strip_line_endings (strip_line_endings l @ canonical_line_suffix l) = strip_line_endings l"
  by (simp add: strip_line_endings_def canonical_suffix_iff rstrip_by_snoc is_eol_def)

lemma canonical_canonical [simp]:
  "canonical_line_suffix (strip_line_endings l @ canonical_line_suffix l) = canonical_line_suffix l"
proof (cases "canonical_line_suffix l = []")
  case True
  have "strip_line_endings l = [] \<or> \<not> is_eol (last (strip_line_endings l))"
    unfolding strip_line_endings_def using rstrip_by_last by blast
  with True show ?thesis by (auto simp: canonical_suffix_iff)
next
  case False
  then have "canonical_line_suffix l = [LF]" by (simp add: canonical_suffix_iff split: if_splits)
  then show ?thesis by (simp add: canonical_suffix_iff [of "_ @ _"] is_eol_def)
qed

subsection \<open>What a located block is\<close>

text \<open>
  The specification of a block: its \<open>id::\<close> line is the first that names the UUID, its
  bullet is the last bullet above it, and its subtree is the longest run of lines below the
  \<open>id::\<close> line without a bullet at the block's own indent or less.
\<close>

definition block_at :: "text_lines \<Rightarrow> string \<Rightarrow> nat \<Rightarrow> nat \<Rightarrow> nat \<Rightarrow> bool" where
  "block_at lines u b i e \<longleftrightarrow>
     b < i \<and> i < e \<and> e \<le> length lines \<and>
     id_line_for (lower (strip u)) (lines ! i) \<and>
     (\<forall>j < i. \<not> id_line_for (lower (strip u)) (lines ! j)) \<and>
     bullet_indent (lines ! b) \<noteq> None \<and>
     (\<forall>j. b < j \<and> j < i \<longrightarrow> bullet_indent (lines ! j) = None) \<and>
     (\<forall>k. i < k \<and> k < e \<longrightarrow> \<not> ends_subtree (the (bullet_indent (lines ! b))) (lines ! k)) \<and>
     (e < length lines \<longrightarrow> ends_subtree (the (bullet_indent (lines ! b))) (lines ! e))"

lemma find_id_line_Some:
  "find_id_line_index (strip_lines_for_match lines) u = Some i \<longleftrightarrow>
     i < length lines \<and> id_line_for (lower (strip u)) (lines ! i) \<and>
     (\<forall>j < i. \<not> id_line_for (lower (strip u)) (lines ! j))"
  by (auto simp: find_id_line_index_def Let_def first_index_upt)

lemma block_bullet_Some:
  "i \<le> length lines \<Longrightarrow> block_bullet_index (strip_lines_for_match lines) i = Some b \<longleftrightarrow>
     b < i \<and> bullet_indent (lines ! b) \<noteq> None \<and> (\<forall>j. b < j \<and> j < i \<longrightarrow> bullet_indent (lines ! j) = None)"
  by (auto simp: block_bullet_index_def first_index_rev_upt)

lemma ends_subtree_strip [simp]: "ends_subtree n (strip_line_endings l) = ends_subtree n l"
  by (simp add: ends_subtree_def)

lemma block_subtree_end_props:
  assumes "b < length lines" "i < length lines" "bullet_indent (lines ! b) = Some base"
  shows "i < block_subtree_end lines i b" "block_subtree_end lines i b \<le> length lines"
    "\<forall>k. i < k \<and> k < block_subtree_end lines i b \<longrightarrow> \<not> ends_subtree base (lines ! k)"
    "block_subtree_end lines i b < length lines \<longrightarrow> ends_subtree base (lines ! block_subtree_end lines i b)"
proof -
  let ?f = "first_index (\<lambda>k. ends_subtree base (lines ! k)) [i + 1..<length lines]"
  have "i < block_subtree_end lines i b \<and> block_subtree_end lines i b \<le> length lines \<and>
    (\<forall>k. i < k \<and> k < block_subtree_end lines i b \<longrightarrow> \<not> ends_subtree base (lines ! k)) \<and>
    (block_subtree_end lines i b < length lines \<longrightarrow> ends_subtree base (lines ! block_subtree_end lines i b))"
  proof (cases ?f)
    case None
    then have "\<not> ends_subtree base (lines ! k)" if "i < k" "k < length lines" for k
      using that by (simp add: first_index_None)
    with None assms show ?thesis by (auto simp: block_subtree_end_def)
  next
    case (Some k)
    then have "block_subtree_end lines i b = k" using assms by (simp add: block_subtree_end_def)
    moreover have "i + 1 \<le> k \<and> k < length lines \<and> ends_subtree base (lines ! k) \<and>
        (\<forall>j. i + 1 \<le> j \<and> j < k \<longrightarrow> \<not> ends_subtree base (lines ! j))"
      using Some by (subst (asm) first_index_upt)
    ultimately show ?thesis by auto
  qed
  then show "i < block_subtree_end lines i b" "block_subtree_end lines i b \<le> length lines"
    "\<forall>k. i < k \<and> k < block_subtree_end lines i b \<longrightarrow> \<not> ends_subtree base (lines ! k)"
    "block_subtree_end lines i b < length lines \<longrightarrow> ends_subtree base (lines ! block_subtree_end lines i b)"
    by blast+
qed

lemma locate_block_at:
  assumes "locate_block_by_uuid lines u = Some (b, i, e)"
  shows "block_at lines u b i e"
proof -
  let ?s = "strip_lines_for_match lines"
  have id: "find_id_line_index ?s u = Some i" and b: "block_bullet_index ?s i = Some b"
    and e: "e = block_subtree_end ?s i b"
    using assms by (auto simp: locate_block_by_uuid_def Let_def split: option.splits)
  have i: "i < length lines" using id find_id_line_Some by blast
  have bb: "b < i" "bullet_indent (lines ! b) \<noteq> None"
    "\<forall>j. b < j \<and> j < i \<longrightarrow> bullet_indent (lines ! j) = None"
    using b block_bullet_Some [of i lines b] i by auto
  then obtain base where base: "bullet_indent (lines ! b) = Some base" by auto
  have "bullet_indent (?s ! b) = Some base" using base bb i by simp
  note props = block_subtree_end_props [OF _ _ this, of i, folded e]
  have "i < e" "e \<le> length lines" using props bb(1) i by auto
  moreover have "\<forall>k. i < k \<and> k < e \<longrightarrow> \<not> ends_subtree base (lines ! k)"
    using props(3) bb(1) i \<open>e \<le> length lines\<close> by auto
  moreover have "e < length lines \<longrightarrow> ends_subtree base (lines ! e)"
    using props(4) bb(1) i by auto
  ultimately have "i < e" "e \<le> length lines" "\<forall>k. i < k \<and> k < e \<longrightarrow> \<not> ends_subtree base (lines ! k)"
    "e < length lines \<longrightarrow> ends_subtree base (lines ! e)" by blast+
  then show ?thesis
    using id bb base by (simp add: block_at_def find_id_line_Some)
qed

lemma block_at_unique:
  assumes "block_at lines u b i e" and "block_at lines u b' i' e'"
  shows "b' = b \<and> i' = i \<and> e' = e"
proof -
  have i: "i' = i" using assms unfolding block_at_def by (meson linorder_neqE_nat)
  have b: "b' = b" using assms i unfolding block_at_def by (metis linorder_neqE_nat)
  have "e' = e"
  proof (rule ccontr)
    assume "e' \<noteq> e"
    then consider "e < e'" | "e' < e" by linarith
    then show False
    proof cases
      case 1
      then have "e < length lines" using assms(2) by (auto simp: block_at_def)
      then show False using 1 assms i b by (auto simp: block_at_def)
    next
      case 2
      then have "e' < length lines" using assms(1) by (auto simp: block_at_def)
      then show False using 2 assms i b by (auto simp: block_at_def)
    qed
  qed
  with i b show ?thesis by simp
qed

lemma block_at_locate:
  assumes "block_at lines u b i e"
  shows "locate_block_by_uuid lines u = Some (b, i, e)"
proof -
  let ?s = "strip_lines_for_match lines"
  have "find_id_line_index ?s u = Some i" "block_bullet_index ?s i = Some b"
    using assms block_bullet_Some [of i lines b]
    by (auto simp: block_at_def find_id_line_Some)
  then have l: "locate_block_by_uuid lines u = Some (b, i, block_subtree_end ?s i b)"
    by (simp add: locate_block_by_uuid_def Let_def)
  then show ?thesis using locate_block_at [OF l] block_at_unique assms by blast
qed

lemma insert_scan_bounds:
  "sorted_wrt (<) is \<Longrightarrow> \<forall>i \<in> set is. lo \<le> i \<and> i < hi \<Longrightarrow> lo \<le> pos \<Longrightarrow> pos \<le> max lo hi \<Longrightarrow>
   lo \<le> insert_scan s m pos is \<and> insert_scan s m pos is \<le> max lo hi"
proof (induction "is" arbitrary: pos)
  case (Cons i "is")
  then have "lo \<le> insert_scan s m (i + 1) is \<and> insert_scan s m (i + 1) is \<le> max lo hi" by simp
  with Cons.prems show ?case by (auto split: option.splits)
qed simp

lemma insert_index_bounds:
  "bullet_idx < block_property_insert_index stripped bullet_idx block_end \<and>
   block_property_insert_index stripped bullet_idx block_end
     \<le> max (bullet_idx + 1) (min block_end (length stripped))"
  using insert_scan_bounds [of "[bullet_idx + 1..<min block_end (length stripped)]" "bullet_idx + 1"
      "min block_end (length stripped)" "bullet_idx + 1"]
  by (auto simp: block_property_insert_index_def Suc_le_eq split: option.splits)

subsection \<open>Properties\<close>

text \<open>
  C3. Locating a block implements its specification: the three indices are those of the
  unique block of the page with the UUID, and there is none exactly when no block has it.
\<close>

theorem locate_block_iff:
  "locate_block_by_uuid lines u = Some (b, i, e) \<longleftrightarrow> block_at lines u b i e"
  using locate_block_at block_at_locate by blast

end
