(* ===== verification/BlockRefs.thy ===== *)
theory BlockRefs
  imports Fences
begin

section \<open>Block references and their UUIDs\<close>

text \<open>
  Model of \<open>src/graph/logseq_uuid.py\<close>: the shape of a block UUID and the pre-flight check
  that every \<open>((...))\<close> outside the dead zones of a page holds one.
\<close>

definition uuid_canonical :: "string \<Rightarrow> bool" where
  "uuid_canonical v \<longleftrightarrow> length v = 36 \<and>
     list_all (\<lambda>i. if i \<in> {8, 13, 18, 23} then v ! i = CHR ''-'' else is_hex (v ! i)) [0..<36]"

text \<open>
  \<open>is_standard_uuid_shape\<close>: the constructor of \<open>uuid.UUID\<close> accepts every canonical string,
  so its failure branch is never taken.
\<close>

definition is_standard_uuid_shape :: "string \<Rightarrow> bool" where
  "is_standard_uuid_shape value \<longleftrightarrow> length value = 36 \<and> uuid_canonical value"

text \<open>The version of a \<open>uuid.UUID\<close> is its 13th hexadecimal digit, for the RFC 4122 variant only.\<close>

definition uuid_version_char :: "string \<Rightarrow> char option" where
  "uuid_version_char v =
     (if lower_char (v ! 19) \<in> {CHR ''8'', CHR ''9'', CHR ''a'', CHR ''b''} then Some (v ! 14) else None)"

definition is_logseq_block_uuid :: "string \<Rightarrow> bool" where
  "is_logseq_block_uuid value \<longleftrightarrow>
     is_standard_uuid_shape value \<and> uuid_version_char value \<in> {Some (CHR ''4''), Some (CHR ''5'')}"

text \<open>\<open>\(\(([^)]+)\)\)\<close> at the head of a text: the inner part and what follows the match.\<close>

definition block_ref_at :: "string \<Rightarrow> (string \<times> string) option" where
  "block_ref_at s =
     (if startswith s ''(('' then
        let r = drop 2 s; inner = takeWhile (\<lambda>c. c \<noteq> CHR '')'') r; rest = dropWhile (\<lambda>c. c \<noteq> CHR '')'') r
        in if inner \<noteq> [] \<and> startswith rest ''))'' then Some (inner, drop 2 rest) else None
      else None)"

lemma block_ref_at_shorter: "block_ref_at s = Some (x, r) \<Longrightarrow> length r < length s"
proof -
  assume "block_ref_at s = Some (x, r)"
  then have "s \<noteq> []" and "r = drop 2 (dropWhile (\<lambda>c. c \<noteq> CHR '')'') (drop 2 s))"
    by (auto simp: block_ref_at_def Let_def startswith_def split: if_splits)
  moreover have "length (dropWhile (\<lambda>c. c \<noteq> CHR '')'') (drop 2 s)) \<le> length (drop 2 s)"
    by (rule length_dropWhile_le)
  ultimately show ?thesis by (cases s) auto
qed

function block_refs :: "string \<Rightarrow> string list" where
  "block_refs [] = []"
| "block_refs (c # cs) =
     (case block_ref_at (c # cs) of
        None \<Rightarrow> block_refs cs
      | Some (inner, rest) \<Rightarrow> inner # block_refs rest)"
  by pat_completeness auto
termination
  by (relation "measure length") (auto dest: block_ref_at_shorter)

definition line_bad_refs :: "string \<Rightarrow> string list" where
  "line_bad_refs line = filter (\<lambda>inner. \<not> is_standard_uuid_shape inner) (map strip (block_refs line))"

fun malformed_from :: "nat set \<Rightarrow> nat \<Rightarrow> text_lines \<Rightarrow> string list" where
  "malformed_from protected i [] = []"
| "malformed_from protected i (line # rest) =
     (if i \<in> protected then [] else line_bad_refs line) @ malformed_from protected (Suc i) rest"

definition find_malformed_block_refs :: "string \<Rightarrow> nat set \<Rightarrow> string list" where
  "find_malformed_block_refs text protected = malformed_from protected 0 (splitlines text)"

definition valid_block_refs :: "string \<Rightarrow> bool" where
  "valid_block_refs text \<longleftrightarrow>
     find_malformed_block_refs text (compute_page_protected_line_indices text) = []"

text \<open>\<open>assert_valid_block_refs_in_markdown\<close>: the first offending token, if there is one.\<close>

definition assert_valid_block_refs_in_markdown :: "string \<Rightarrow> string + unit" where
  "assert_valid_block_refs_in_markdown text =
     (case find_malformed_block_refs text (compute_page_protected_line_indices text) of
        [] \<Rightarrow> Inr ()
      | sample # _ \<Rightarrow> Inl (if 48 < length sample then take 45 sample @ ''...'' else sample))"

lemma malformed_from_Nil:
  "malformed_from P i lines = [] \<longleftrightarrow>
     (\<forall>j < length lines. i + j \<notin> P \<longrightarrow> (\<forall>x \<in> set (block_refs (lines ! j)). is_standard_uuid_shape (strip x)))"
proof (induction lines arbitrary: i)
  case (Cons line rest)
  let ?Q = "\<lambda>l. \<forall>x \<in> set (block_refs l). is_standard_uuid_shape (strip x)"
  have "(\<forall>j < length (line # rest). i + j \<notin> P \<longrightarrow> ?Q ((line # rest) ! j)) \<longleftrightarrow>
      (i \<notin> P \<longrightarrow> ?Q line) \<and> (\<forall>j < length rest. Suc i + j \<notin> P \<longrightarrow> ?Q (rest ! j))"
    by (auto simp: All_less_Suc2)
  moreover have "line_bad_refs line = [] \<longleftrightarrow> ?Q line"
    by (auto simp: line_bad_refs_def filter_empty_conv)
  moreover have "malformed_from P i (line # rest) = [] \<longleftrightarrow>
      (i \<notin> P \<longrightarrow> line_bad_refs line = []) \<and> malformed_from P (Suc i) rest = []"
    by auto
  ultimately show ?case using Cons.IH [of "Suc i"] by (simp only:)
qed simp

lemma assert_refs_Inr [simp]: "assert_valid_block_refs_in_markdown t = Inr () \<longleftrightarrow> valid_block_refs t"
  by (auto simp: assert_valid_block_refs_in_markdown_def valid_block_refs_def split: list.splits)

lemma valid_block_refs_iff:
  "valid_block_refs text \<longleftrightarrow>
     (\<forall>i < length (splitlines text). i \<notin> compute_page_protected_line_indices text \<longrightarrow>
        (\<forall>x \<in> set (block_refs (splitlines text ! i)). is_standard_uuid_shape (strip x)))"
  by (simp add: valid_block_refs_def find_malformed_block_refs_def malformed_from_Nil)

subsection \<open>Properties\<close>

text \<open>
  The pre-flight check of a write passes exactly when every block reference of every
  line outside the dead zones holds, once trimmed, a UUID of the standard shape.
\<close>

theorem assert_block_refs_iff:
  "assert_valid_block_refs_in_markdown text = Inr () \<longleftrightarrow>
     (\<Union>i \<in> {..<length (splitlines text)} - compute_page_protected_line_indices text.
        strip ` set (block_refs (splitlines text ! i))) \<subseteq> {u. is_standard_uuid_shape u}"
  by (auto simp: valid_block_refs_iff)

end
