(* ===== verification/Safety.thy ===== *)
theory Safety
  imports Fences
begin

section \<open>Write safety: the validators of generated edits and the read-only policy\<close>

text \<open>
  Model of \<open>src/graph/safety/validators.py\<close>, the hard checks on a page a language model has
  rewritten, and of \<open>src/graph/safety/write_policy.py\<close>, the fail-closed read-only policy.
  Paths are canonical component lists; resolving a path is an operation of the file system,
  so it is a parameter \<open>resolve\<close>, whose result is \<open>None\<close> where the system reports an
  unresolvable path.
\<close>

subsection \<open>Validators\<close>

text \<open>\<open>^\s*id::\s*.+\s*$\<close>, ignoring case.\<close>

definition is_id_line :: "string \<Rightarrow> bool" where
  "is_id_line line =
     (let r = lstrip line in startswith (lower r) ''id::'' \<and> drop 4 r \<noteq> [])"

definition id_lines :: "string \<Rightarrow> text_lines" where
  "id_lines text = filter is_id_line (splitlines text)"

datatype safety_reason =
    IdLineDeleted
  | ProtectedLineRemoved nat
  | ProtectedLineModified nat

text \<open>A \<open>SafetyValidationResult\<close> is \<open>None\<close> when ok, and the reason otherwise.\<close>

definition reject_id_line_deletion :: "string \<Rightarrow> string \<Rightarrow> safety_reason option" where
  "reject_id_line_deletion before after =
     (if list_all (\<lambda>line. line \<in> set (id_lines after)) (id_lines before)
      then None else Some IdLineDeleted)"

fun check_protected :: "text_lines \<Rightarrow> text_lines \<Rightarrow> nat list \<Rightarrow> safety_reason option" where
  "check_protected before_lines after_lines [] = None"
| "check_protected before_lines after_lines (idx # rest) =
     (if length before_lines \<le> idx then check_protected before_lines after_lines rest
      else if length after_lines \<le> idx then Some (ProtectedLineRemoved idx)
      else if before_lines ! idx \<noteq> after_lines ! idx then Some (ProtectedLineModified idx)
      else check_protected before_lines after_lines rest)"

definition reject_protected_zones_modification :: "string \<Rightarrow> string \<Rightarrow> safety_reason option" where
  "reject_protected_zones_modification before after =
     check_protected (splitlines before) (splitlines after)
       (sorted_list_of_set (compute_page_protected_line_indices before))"

definition validate_llm_write_diff :: "string \<Rightarrow> string \<Rightarrow> safety_reason option" where
  "validate_llm_write_diff before after =
     (case reject_id_line_deletion before after of
        Some r \<Rightarrow> Some r
      | None \<Rightarrow> reject_protected_zones_modification before after)"

lemma check_protected_None:
  "check_protected b a is = None \<longleftrightarrow>
     (\<forall>i \<in> set is. i < length b \<longrightarrow> i < length a \<and> a ! i = b ! i)"
  by (induction "is") auto

lemma finite_protected [simp]: "finite (compute_page_protected_line_indices text)"
  by (simp add: compute_page_protected_line_indices_def)

lemma validate_ok_iff:
  "validate_llm_write_diff before after = None \<longleftrightarrow>
     set (id_lines before) \<subseteq> set (id_lines after) \<and>
     (\<forall>i \<in> compute_page_protected_line_indices before.
        i < length (splitlines after) \<and> splitlines after ! i = splitlines before ! i)"
  using compute_protected_bounds [of _ before]
  by (auto simp: validate_llm_write_diff_def reject_id_line_deletion_def list_all_iff
      reject_protected_zones_modification_def check_protected_None split: option.splits)

lemma validate_refl: "validate_llm_write_diff text text = None"
  using compute_protected_bounds by (auto simp: validate_ok_iff)

subsection \<open>The read-only policy\<close>

type_synonym path = "string list"

datatype policy_reason =
    GraphRootUnresolvable
  | CachePathNotAbsolute
  | CachePathUnresolvable
  | CachePathInsideGraph
  | PathUnresolvable
  | GraphRootMutationBlocked

datatype policy_error =
    GraphReadOnlyError policy_reason
  | InvalidBooleanToken

text \<open>\<open>_mapping_bool\<close> on the raw value of the variable (\<open>''''\<close> when it is not set).\<close>

definition mapping_bool :: "string \<Rightarrow> bool \<Rightarrow> policy_error + bool" where
  "mapping_bool value dflt =
     (let raw = lower (strip value)
      in if raw = [] then Inr dflt
         else if raw \<in> {''1'', ''true'', ''yes'', ''on''} then Inr True
         else if raw \<in> {''0'', ''false'', ''no'', ''off''} then Inr False
         else Inl InvalidBooleanToken)"

definition is_graph_read_only :: "string \<Rightarrow> policy_error + bool" where
  "is_graph_read_only env_value = mapping_bool env_value False"

record write_policy =
  wp_graph_root :: path
  wp_read_only :: bool
  wp_cache_path :: "path option"

definition is_relative_to :: "path \<Rightarrow> path \<Rightarrow> bool" where
  "is_relative_to p groot \<longleftrightarrow> prefix groot p"

text \<open>
  \<open>RuntimeWritePolicy(...)\<close>: the checks of \<open>__post_init__\<close>. The cache path comes with
  whether it is absolute.
\<close>

definition make_policy ::
  "(path \<Rightarrow> path option) \<Rightarrow> path \<Rightarrow> bool \<Rightarrow> (bool \<times> path) option \<Rightarrow> policy_error + write_policy" where
  "make_policy resolve groot read_only cache =
     (case resolve groot of
        None \<Rightarrow> Inl (GraphReadOnlyError GraphRootUnresolvable)
      | Some graph_root \<Rightarrow>
          (case cache of
             None \<Rightarrow> Inr \<lparr>wp_graph_root = graph_root, wp_read_only = read_only, wp_cache_path = None\<rparr>
           | Some (absolute, cache_path) \<Rightarrow>
               if \<not> absolute then Inl (GraphReadOnlyError CachePathNotAbsolute)
               else case resolve cache_path of
                 None \<Rightarrow> Inl (GraphReadOnlyError CachePathUnresolvable)
               | Some resolved_cache \<Rightarrow>
                   if is_relative_to resolved_cache graph_root
                   then Inl (GraphReadOnlyError CachePathInsideGraph)
                   else Inr \<lparr>wp_graph_root = graph_root, wp_read_only = read_only,
                              wp_cache_path = Some resolved_cache\<rparr>))"

definition ensure_write_allowed ::
  "(path \<Rightarrow> path option) \<Rightarrow> write_policy \<Rightarrow> path \<Rightarrow> policy_error + path" where
  "ensure_write_allowed resolve policy path =
     (case resolve path of
        None \<Rightarrow> Inl (GraphReadOnlyError PathUnresolvable)
      | Some resolved \<Rightarrow>
          if wp_read_only policy \<and> is_relative_to resolved (wp_graph_root policy)
          then Inl (GraphReadOnlyError GraphRootMutationBlocked)
          else Inr resolved)"

definition guard_graph_mutation ::
  "(path \<Rightarrow> path option) \<Rightarrow> string \<Rightarrow> path \<Rightarrow> path \<Rightarrow> policy_error + unit" where
  "guard_graph_mutation resolve env_value groot path =
     (case is_graph_read_only env_value of
        Inl e \<Rightarrow> Inl e
      | Inr False \<Rightarrow> Inr ()
      | Inr True \<Rightarrow>
          (case make_policy resolve groot True None of
             Inl e \<Rightarrow> Inl e
           | Inr policy \<Rightarrow>
               (case ensure_write_allowed resolve policy path of Inl e \<Rightarrow> Inl e | Inr _ \<Rightarrow> Inr ())))"

text \<open>\<open>guard_graph_mutation_from_env\<close>: the graph root is \<open>LOGSEQ_GRAPH_PATH\<close>, \<open>None\<close> when empty.\<close>

definition guard_graph_mutation_from_env ::
  "(path \<Rightarrow> path option) \<Rightarrow> string \<Rightarrow> path option \<Rightarrow> path \<Rightarrow> policy_error + unit" where
  "guard_graph_mutation_from_env resolve env_value raw_graph path =
     (case is_graph_read_only env_value of
        Inl e \<Rightarrow> Inl e
      | Inr False \<Rightarrow> Inr ()
      | Inr True \<Rightarrow>
          (case raw_graph of
             None \<Rightarrow> Inl (GraphReadOnlyError GraphRootUnresolvable)
           | Some groot \<Rightarrow>
               (case make_policy resolve groot True None of
                  Inl e \<Rightarrow> Inl e
                | Inr policy \<Rightarrow>
                    (case ensure_write_allowed resolve policy path of Inl e \<Rightarrow> Inl e | Inr _ \<Rightarrow> Inr ()))))"

lemma guard_allows_iff:
  "guard_graph_mutation resolve v groot path = Inr () \<longleftrightarrow>
     is_graph_read_only v = Inr False \<or>
     (is_graph_read_only v = Inr True \<and>
      (\<exists>r p. resolve groot = Some r \<and> resolve path = Some p \<and> \<not> is_relative_to p r))"
  by (auto simp: guard_graph_mutation_def make_policy_def ensure_write_allowed_def
      split: sum.splits bool.splits option.splits)

lemma make_policy_cache_outside:
  "make_policy resolve groot ro cache = Inr p \<Longrightarrow> wp_cache_path p = Some c \<Longrightarrow>
     \<not> is_relative_to c (wp_graph_root p)"
  by (auto simp: make_policy_def split: option.splits prod.splits if_splits)

subsection \<open>Properties\<close>

text \<open>
  A rewritten page passes the validators exactly when it keeps every \<open>id::\<close> line of the
  original text and every dead-zone line in place.
\<close>

theorem validators_accept_iff:
  "validate_llm_write_diff before after = None \<longleftrightarrow>
     set (id_lines before) \<subseteq> set (id_lines after) \<and>
     compute_page_protected_line_indices before \<subseteq>
       {i. i < length (splitlines after) \<and> splitlines after ! i = splitlines before ! i}"
  by (auto simp: validate_ok_iff)

text \<open>
  C7. The write guard fails closed: it lets a write through exactly when the policy variable
  reads as off, or reads as on and both the graph root and the target resolve with the
  target outside the root. An invalid token blocks every write.
\<close>

theorem guard_fails_closed:
  "guard_graph_mutation resolve v groot p = Inr () \<longleftrightarrow>
     is_graph_read_only v = Inr False \<or>
     (is_graph_read_only v = Inr True \<and>
      (\<exists>r q. resolve groot = Some r \<and> resolve p = Some q \<and> \<not> is_relative_to q r))"
  by (rule guard_allows_iff)

end
