(* ===== verification/FileStore.thy ===== *)
theory FileStore
  imports Blocks BlockRefs Safety
begin

section \<open>The file store: sandbox, optimistic concurrency control, atomic writes\<close>

text \<open>
  Model of \<open>src/graph/path_sandbox.py\<close> and \<open>page_path.py\<close> (which file a page reference
  names), of the optimistic concurrency control and the atomic write of
  \<open>src/graph/markdown_blocks.py\<close>, with the retry constants of \<open>src/graph/io_retry.py\<close>.

  The world is the part of the file system that the graph layer sees: files by canonical
  path, with their text and their \<open>st_mtime_ns\<close>; the resolution of paths; the environment
  variables of the write policy; the events of the page-written port. The operating system
  and other programs act at two places only, both part of the world: \<open>io_script\<close> says how the
  next commit attempts end (an \<open>OSError\<close> may come with edits by others, which land while
  the writer sleeps before its next attempt), and \<open>clock\<close> is the modification time the
  next write of any program gets. Files hold valid UTF-8, so a file is its decoded text and
  its size is \<open>utf8_len\<close>. Time-outs and log messages are left out.
\<close>

subsection \<open>World\<close>

record fs_file =
  body :: string
  mtime :: int

type_synonym edit = "path \<times> string"

datatype io_outcome = IoOk | IoError "edit list"

datatype py_exn =
    PolicyError policy_error
  | PathTraversal
  | MalformedBlockRef string
  | OccConflict
  | OsError
  | ValueError string

record world =
  files :: "path \<Rightarrow> fs_file option"
  resolve :: "path \<Rightarrow> path option"
  clock :: int
  env_read_only :: string
  env_graph :: "path option"
  io_script :: "io_outcome list"
  page_events :: "(path \<times> string option) list"

text \<open>What any other program does to the store: give a file a new text, now.\<close>

definition put_file :: "path \<Rightarrow> string \<Rightarrow> world \<Rightarrow> world" where
  "put_file p text w =
     w\<lparr>files := (files w)(p \<mapsto> \<lparr>body = text, mtime = clock w\<rparr>), clock := clock w + 1\<rparr>"

definition apply_edits :: "edit list \<Rightarrow> world \<Rightarrow> world" where
  "apply_edits es w = fold (\<lambda>(p, text). put_file p text) es w"

text \<open>Resolving with \<open>strict=False\<close>; a path the system cannot resolve is left as it is.\<close>

definition resolved :: "world \<Rightarrow> path \<Rightarrow> path" where
  "resolved w p = (case resolve w p of None \<Rightarrow> p | Some q \<Rightarrow> q)"

definition stat_file :: "world \<Rightarrow> path \<Rightarrow> fs_file option" where
  "stat_file w p = files w (resolved w p)"

subsection \<open>The sandbox\<close>

definition assert_path_within_graph :: "world \<Rightarrow> path \<Rightarrow> path \<Rightarrow> py_exn + path" where
  "assert_path_within_graph w p groot =
     (if is_relative_to (resolved w p) (resolved w groot) then Inr (resolved w p) else Inl PathTraversal)"

definition filename_encode_char :: "char \<Rightarrow> string" where
  "filename_encode_char c =
     (if c = CHR ''?'' then ''%3F'' else if c = CHR ''#'' then ''%23''
      else if c = CHR ''%'' then ''%25'' else if c = CHR ''<'' then ''%3C''
      else if c = CHR ''>'' then ''%3E'' else if c = CHR ''|'' then ''%7C''
      else if c = BSL then ''%5C'' else if c = DQ then ''%22''
      else if c = CHR '':'' then ''%3A'' else if c = CHR ''*'' then ''%2A''
      else [c])"

definition logseq_encode_filename_stem :: "string \<Rightarrow> string" where
  "logseq_encode_filename_stem stem = concat (map filename_encode_char stem)"

definition removesuffix :: "string \<Rightarrow> string \<Rightarrow> string" where
  "removesuffix s suf = (if suf \<noteq> [] \<and> endswith s suf then take (length s - length suf) s else s)"

definition slash :: "string \<Rightarrow> string" where
  "slash s = map (\<lambda>c. if c = BSL then CHR ''/'' else c) s"

definition page_title_to_filename :: "string \<Rightarrow> string" where
  "page_title_to_filename title =
     logseq_encode_filename_stem
       (replace_sub ''/'' ''___'' (removesuffix (slash (strip title)) ''.md'')) @ ''.md''"

text \<open>The components of a relative path text: \<open>Path\<close> drops empty and \<open>.\<close> components.\<close>

definition path_parts :: "string \<Rightarrow> path" where
  "path_parts s = filter (\<lambda>c. c \<noteq> [] \<and> c \<noteq> ''.'') (split_sub ''/'' s)"

definition validate_page_ref :: "string \<Rightarrow> py_exn + unit" where
  "validate_page_ref raw =
     (let normalized = slash (strip raw)
      in if normalized = [] \<or> startswith normalized ''/'' then Inl PathTraversal
         else if ''..'' \<in> set (path_parts normalized) then Inl PathTraversal
         else Inr ())"

definition ref_filename :: "string \<Rightarrow> string" where
  "ref_filename ref =
     (if endswith ref ''.md'' then ref else page_title_to_filename (removesuffix ref ''.md''))"

definition graph_safe_page_path :: "world \<Rightarrow> path \<Rightarrow> string \<Rightarrow> py_exn + path" where
  "graph_safe_page_path w graph_root page_ref =
     (let groot = resolved w graph_root; raw = slash (strip page_ref)
      in case validate_page_ref raw of
           Inl e \<Rightarrow> Inl e
         | Inr _ \<Rightarrow>
             if startswith raw ''pages/'' then
               (let rel = drop 6 raw
                in case validate_page_ref rel of
                     Inl e \<Rightarrow> Inl e
                   | Inr _ \<Rightarrow> assert_path_within_graph w (groot @ [''pages''] @ path_parts (ref_filename rel)) groot)
             else assert_path_within_graph w (groot @ [''pages''] @ path_parts (ref_filename raw)) groot)"

subsection \<open>Optimistic concurrency control\<close>

text \<open>
  A baseline is an integer or a float. A float baseline is compared with \<open>st_mtime\<close>, the
  modification time in seconds; the model keeps both as rational numbers.
\<close>

datatype baseline = IntBase int | FloatBase rat

definition read_file_mtime_ns :: "world \<Rightarrow> path \<Rightarrow> int option" where
  "read_file_mtime_ns w p = map_option mtime (stat_file w p)"

definition read_file_mtime :: "world \<Rightarrow> path \<Rightarrow> rat option" where
  "read_file_mtime w p = map_option (\<lambda>f. of_int (mtime f) / 1000000000) (stat_file w p)"

definition normalize_baseline_mtime_ns :: "baseline \<Rightarrow> int" where
  "normalize_baseline_mtime_ns v =
     (case v of
        FloatBase r \<Rightarrow> if r < 1000000000000 then \<lfloor>r * 1000000000\<rfloor> else \<lfloor>r\<rfloor>
      | IntBase n \<Rightarrow> if n < 1000000000000 then n * 1000000000 else n)"

definition file_mtime_drifted :: "world \<Rightarrow> path \<Rightarrow> baseline \<Rightarrow> bool" where
  "file_mtime_drifted w p v =
     (case v of
        FloatBase r \<Rightarrow>
          if r < 1000000000000 then
            (case read_file_mtime w p of None \<Rightarrow> True | Some current \<Rightarrow> current \<noteq> r)
          else (case read_file_mtime_ns w p of None \<Rightarrow> True
                | Some current \<Rightarrow> current \<noteq> normalize_baseline_mtime_ns v)
      | IntBase n \<Rightarrow>
          if n < 1000000000000 then
            (case read_file_mtime_ns w p of None \<Rightarrow> True | Some current \<Rightarrow> current div 1000000000 \<noteq> n)
          else (case read_file_mtime_ns w p of None \<Rightarrow> True
                | Some current \<Rightarrow> current \<noteq> normalize_baseline_mtime_ns v))"

definition occ_snapshot :: "world \<Rightarrow> path \<Rightarrow> int option" where
  "occ_snapshot w p = read_file_mtime_ns w p"

record occ =
  occ_file_path :: path
  occ_baseline :: int

definition occ_capture :: "world \<Rightarrow> path \<Rightarrow> occ option" where
  "occ_capture w p =
     (case read_file_mtime_ns w p of
        None \<Rightarrow> None
      | Some m \<Rightarrow> Some \<lparr>occ_file_path = p, occ_baseline = m\<rparr>)"

definition occ_drifted :: "world \<Rightarrow> occ \<Rightarrow> bool" where
  "occ_drifted w s = file_mtime_drifted w (occ_file_path s) (IntBase (occ_baseline s))"

definition occ_refresh_after_own_write :: "world \<Rightarrow> occ \<Rightarrow> occ" where
  "occ_refresh_after_own_write w s =
     (case read_file_mtime_ns w (occ_file_path s) of
        None \<Rightarrow> s
      | Some m \<Rightarrow> s\<lparr>occ_baseline := m\<rparr>)"

definition occ_verify_before_write :: "world \<Rightarrow> path \<Rightarrow> baseline \<Rightarrow> bool \<Rightarrow> py_exn + bool" where
  "occ_verify_before_write w p v raise_on_conflict =
     (if file_mtime_drifted w p v then (if raise_on_conflict then Inl OccConflict else Inr False)
      else Inr True)"

subsection \<open>The atomic write\<close>

definition IO_RETRY_ATTEMPTS :: nat where
  "IO_RETRY_ATTEMPTS = 4"

definition is_markdown :: "path \<Rightarrow> bool" where
  "is_markdown p \<longleftrightarrow> p \<noteq> [] \<and> endswith (lower (last p)) ''.md'' \<and> 3 < length (last p)"

text \<open>
  One commit: the temporary file, \<open>fsync\<close> and \<open>os.replace\<close>. It either replaces the target
  as one step or raises, and then the temporary file is gone and the target untouched.
\<close>

definition next_io :: "world \<Rightarrow> io_outcome \<times> world" where
  "next_io w =
     (case io_script w of
        [] \<Rightarrow> (IoOk, w)
      | x # xs \<Rightarrow> (x, w\<lparr>io_script := xs\<rparr>))"

definition emit_page_written :: "path \<Rightarrow> string option \<Rightarrow> world \<Rightarrow> world" where
  "emit_page_written p summary w = w\<lparr>page_events := page_events w @ [(p, summary)]\<rparr>"

fun commit_loop ::
  "nat \<Rightarrow> path \<Rightarrow> path \<Rightarrow> string \<Rightarrow> baseline option \<Rightarrow> string option \<Rightarrow> world \<Rightarrow> world \<times> (py_exn + unit)" where
  "commit_loop 0 file_path p data v summary w = (w, Inl OsError)"
| "commit_loop (Suc n) file_path p data v summary w =
     (if (case v of None \<Rightarrow> False | Some b \<Rightarrow> file_mtime_drifted w file_path b) then (w, Inl OccConflict)
      else case next_io w of
        (IoOk, w1) \<Rightarrow>
          (let w2 = put_file p data w1
           in (if is_markdown file_path then emit_page_written p summary w2 else w2, Inr ()))
      | (IoError es, w1) \<Rightarrow> commit_loop n file_path p data v summary (apply_edits es w1))"

definition atomic_write_bytes ::
  "path \<Rightarrow> string \<Rightarrow> path \<Rightarrow> bool \<Rightarrow> baseline option \<Rightarrow> string option \<Rightarrow> world \<Rightarrow> world \<times> (py_exn + unit)" where
  "atomic_write_bytes file_path data graph_root validate_block_refs v summary w =
     (case guard_graph_mutation (resolve w) (env_read_only w) graph_root file_path of
        Inl e \<Rightarrow> (w, Inl (PolicyError e))
      | Inr _ \<Rightarrow>
          (case (if validate_block_refs \<and> is_markdown file_path \<and> contains data ''((''
                 then assert_valid_block_refs_in_markdown data else Inr ()) of
             Inl sample \<Rightarrow> (w, Inl (MalformedBlockRef sample))
           | Inr _ \<Rightarrow>
               (case assert_path_within_graph w file_path graph_root of
                  Inl e \<Rightarrow> (w, Inl e)
                | Inr p \<Rightarrow> commit_loop IO_RETRY_ATTEMPTS file_path p data v summary w)))"

definition atomic_write_bytes_if_unchanged ::
  "path \<Rightarrow> string \<Rightarrow> path \<Rightarrow> baseline \<Rightarrow> bool \<Rightarrow> string option \<Rightarrow> world \<Rightarrow> world \<times> (py_exn + bool)" where
  "atomic_write_bytes_if_unchanged file_path data graph_root v validate_block_refs summary w =
     (case guard_graph_mutation (resolve w) (env_read_only w) graph_root file_path of
        Inl e \<Rightarrow> (w, Inl (PolicyError e))
      | Inr _ \<Rightarrow>
          if file_mtime_drifted w file_path v then (w, Inr False)
          else case atomic_write_bytes file_path data graph_root validate_block_refs (Some v) summary w of
            (w1, Inr _) \<Rightarrow> (w1, Inr True)
          | (w1, Inl OccConflict) \<Rightarrow> (w1, Inr False)
          | (w1, Inl e) \<Rightarrow> (w1, Inl e))"

text \<open>\<open>atomic_write_file\<close>: the same write for text.\<close>

definition atomic_write_file :: "path \<Rightarrow> string \<Rightarrow> path \<Rightarrow> bool \<Rightarrow> world \<Rightarrow> world \<times> (py_exn + unit)" where
  "atomic_write_file file_path contents graph_root validate_block_refs w =
     atomic_write_bytes file_path contents graph_root validate_block_refs None None w"

text \<open>
  \<open>read_text\<close> opens in text mode: universal newlines turn \<open>\r\n\<close> and \<open>\r\<close> into \<open>\n\<close>.
\<close>

fun universal_newlines :: "string \<Rightarrow> string" where
  "universal_newlines [] = []"
| "universal_newlines (c # cs) =
     (if c = CR then LF # universal_newlines (if cs \<noteq> [] \<and> hd cs = LF then tl cs else cs)
      else c # universal_newlines cs)"

definition read_graph_file_text :: "world \<Rightarrow> path \<Rightarrow> path \<Rightarrow> py_exn + string" where
  "read_graph_file_text w p graph_root =
     (case assert_path_within_graph w p graph_root of
        Inl e \<Rightarrow> Inl e
      | Inr safe \<Rightarrow>
          (case files w safe of
             None \<Rightarrow> Inl OsError
           | Some f \<Rightarrow> Inr (universal_newlines (body f))))"

text \<open>\<open>read_page_lines\<close>: the path and its lines, or the error code.\<close>

definition read_page_lines :: "world \<Rightarrow> path \<Rightarrow> string \<Rightarrow> string + (path \<times> text_lines)" where
  "read_page_lines w graph_root page_ref =
     (let groot = resolved w graph_root
      in case graph_safe_page_path w groot page_ref of
           Inl _ \<Rightarrow> Inl ''path_escapes_graph''
         | Inr p \<Rightarrow>
             (case files w p of
                None \<Rightarrow> Inl ''page_not_found''
              | Some f \<Rightarrow> Inr (p, splitlines_keep (universal_newlines (body f)))))"

text \<open>
  \<open>sweep_dangling_atomic_tmp_files\<close>: \<open>^\.[^/\\]+\..+\.tmp$\<close> on the names of the files under
  \<open>pages/\<close> and \<open>journals/\<close>. The number of removed files it returns is left out.
\<close>

definition atomic_tmp_name :: "string \<Rightarrow> bool" where
  "atomic_tmp_name name \<longleftrightarrow>
     startswith name ''.'' \<and> endswith name ''.tmp'' \<and> 5 \<le> length name \<and>
     list_ex (\<lambda>i. name ! i = CHR ''.'' \<and>
        list_all (\<lambda>c. c \<noteq> CHR ''/'' \<and> c \<noteq> BSL) (slice 1 i name) \<and>
        LF \<notin> set (slice (i + 1) (length name - 4) name))
       [2..<length name - 5]"

definition swept :: "world \<Rightarrow> path \<Rightarrow> path \<Rightarrow> bool" where
  "swept w groot p \<longleftrightarrow>
     (is_relative_to p (groot @ [''pages'']) \<or> is_relative_to p (groot @ [''journals''])) \<and>
     p \<noteq> [] \<and> atomic_tmp_name (last p) \<and> is_relative_to (resolved w p) groot"

definition sweep_dangling_atomic_tmp_files :: "path \<Rightarrow> world \<Rightarrow> world \<times> (py_exn + unit)" where
  "sweep_dangling_atomic_tmp_files graph_root w =
     (case guard_graph_mutation (resolve w) (env_read_only w) graph_root graph_root of
        Inl e \<Rightarrow> (w, Inl (PolicyError e))
      | Inr _ \<Rightarrow>
          (let groot = resolved w graph_root
           in (w\<lparr>files := (\<lambda>p. if swept w groot p then None else files w p)\<rparr>, Inr ())))"

subsection \<open>The world under edits by others\<close>

definition clock_ok :: "world \<Rightarrow> bool" where
  "clock_ok w \<longleftrightarrow> (\<forall>p f. files w p = Some f \<longrightarrow> mtime f < clock w)"

definition scripted_edits :: "io_outcome list \<Rightarrow> edit list" where
  "scripted_edits s = concat (map (\<lambda>x. case x of IoOk \<Rightarrow> [] | IoError es \<Rightarrow> es) s)"

lemma apply_edits_Nil [simp]: "apply_edits [] w = w"
  by (simp add: apply_edits_def)

lemma apply_edits_append [simp]: "apply_edits (xs @ ys) w = apply_edits ys (apply_edits xs w)"
  by (simp add: apply_edits_def)

lemma apply_edits_Cons: "apply_edits (e # es) w = apply_edits es (put_file (fst e) (snd e) w)"
  by (simp add: apply_edits_def case_prod_beta)

lemma put_file_simps [simp]:
  "resolve (put_file p t w) = resolve w" "io_script (put_file p t w) = io_script w"
  "env_read_only (put_file p t w) = env_read_only w" "env_graph (put_file p t w) = env_graph w"
  "page_events (put_file p t w) = page_events w"
  by (simp_all add: put_file_def)

lemma apply_edits_simps [simp]:
  "resolve (apply_edits es w) = resolve w" "io_script (apply_edits es w) = io_script w"
  "env_read_only (apply_edits es w) = env_read_only w" "env_graph (apply_edits es w) = env_graph w"
  "page_events (apply_edits es w) = page_events w"
  by (induction es arbitrary: w) (simp_all add: apply_edits_Cons)

lemma clock_ok_put: "clock_ok w \<Longrightarrow> clock_ok (put_file p t w)"
  by (fastforce simp: clock_ok_def put_file_def)

lemma clock_ok_edits: "clock_ok w \<Longrightarrow> clock_ok (apply_edits es w)"
  by (induction es arbitrary: w) (simp_all add: apply_edits_Cons clock_ok_put)

lemma clock_edits: "clock (apply_edits es w) = clock w + int (length es)"
  by (induction es arbitrary: w) (simp_all add: apply_edits_Cons put_file_def)

text \<open>An edited file has a modification time no earlier than the clock before the edits.\<close>

lemma edits_untouched: "p \<notin> fst ` set es \<Longrightarrow> files (apply_edits es w) p = files w p"
  by (induction es arbitrary: w) (auto simp: apply_edits_Cons put_file_def)

lemma edits_touched:
  "p \<in> fst ` set es \<Longrightarrow> \<exists>f. files (apply_edits es w) p = Some f \<and> clock w \<le> mtime f"
proof (induction es arbitrary: w)
  case (Cons e es)
  let ?w = "put_file (fst e) (snd e) w"
  show ?case
  proof (cases "p \<in> fst ` set es")
    case True
    then obtain f where "files (apply_edits es ?w) p = Some f" "clock ?w \<le> mtime f"
      using Cons.IH by blast
    then show ?thesis by (auto simp: apply_edits_Cons put_file_def)
  next
    case False
    with Cons.prems have "p = fst e" by auto
    with False show ?thesis
      by (simp add: apply_edits_Cons edits_untouched) (simp add: put_file_def)
  qed
qed simp

lemma drifted_cong: "files w = files w' \<Longrightarrow> resolve w = resolve w' \<Longrightarrow> file_mtime_drifted w = file_mtime_drifted w'"
proof -
  assume "files w = files w'" "resolve w = resolve w'"
  then have "stat_file w = stat_file w'" by (intro ext) (simp add: stat_file_def resolved_def)
  then have "read_file_mtime_ns w = read_file_mtime_ns w'" "read_file_mtime w = read_file_mtime w'"
    by (intro ext; simp add: read_file_mtime_ns_def read_file_mtime_def)+
  then show ?thesis by (intro ext) (simp add: file_mtime_drifted_def split: baseline.splits)
qed

lemma resolved_cong: "resolve w = resolve w' \<Longrightarrow> resolved w p = resolved w' p"
  by (simp add: resolved_def)

lemma resolved_edits [simp]: "resolved (apply_edits es w) = resolved w"
  by (intro ext resolved_cong) simp

text \<open>A nanosecond baseline is compared exactly.\<close>

lemma drifted_ns:
  "1000000000000 \<le> m \<Longrightarrow>
     file_mtime_drifted w p (IntBase m) \<longleftrightarrow> map_option mtime (files w (resolved w p)) \<noteq> Some m"
  by (auto simp: file_mtime_drifted_def normalize_baseline_mtime_ns_def read_file_mtime_ns_def
      stat_file_def split: option.splits)

text \<open>
  Optimistic concurrency control detects every edit of the page: the baseline is below the
  clock, an edit is not.
\<close>

lemma edits_drift:
  assumes "clock_ok w" and "read_file_mtime_ns w p = Some m" and "1000000000000 \<le> m"
  shows "file_mtime_drifted (apply_edits es w) p (IntBase m) \<longleftrightarrow> resolved w p \<in> fst ` set es"
proof -
  obtain f where f: "files w (resolved w p) = Some f" "mtime f = m"
    using assms(2) by (auto simp: read_file_mtime_ns_def stat_file_def)
  then have "m < clock w" using assms(1) by (auto simp: clock_ok_def)
  then show ?thesis
    using drifted_ns [OF assms(3)] edits_touched [of "resolved w p" es w]
      edits_untouched [of "resolved w p" es w] f
    by (cases "resolved w p \<in> fst ` set es") auto
qed

subsection \<open>What an atomic write does\<close>

lemma commit_loop_spec:
  assumes "commit_loop n fp p data v s w = (w', r)"
  shows "\<exists>es x. set es \<subseteq> set (scripted_edits (io_script w)) \<and> x = apply_edits es w \<and>
    (if r = Inr () then
       (\<forall>b. v = Some b \<longrightarrow> \<not> file_mtime_drifted x fp b) \<and>
       files w' = (files x)(p \<mapsto> \<lparr>body = data, mtime = clock x\<rparr>) \<and> clock w' = clock x + 1 \<and>
       page_events w' = page_events w @ (if is_markdown fp then [(p, s)] else [])
     else files w' = files x \<and> clock w' = clock x \<and> page_events w' = page_events w) \<and>
    resolve w' = resolve w \<and> env_read_only w' = env_read_only w \<and> env_graph w' = env_graph w"
  using assms
proof (induction n arbitrary: w)
  case 0
  then show ?case by (intro exI [of _ "[]"]) auto
next
  case (Suc n)
  show ?case
  proof (cases "case v of None \<Rightarrow> False | Some b \<Rightarrow> file_mtime_drifted w fp b")
    case True
    with Suc.prems show ?thesis by (intro exI [of _ "[]"]) auto
  next
    case drift: False
    show ?thesis
    proof (cases "next_io w")
      case (Pair out w1)
      then have w1: "files w1 = files w" "clock w1 = clock w" "resolve w1 = resolve w"
        "page_events w1 = page_events w" "env_read_only w1 = env_read_only w" "env_graph w1 = env_graph w"
        by (auto simp: next_io_def split: list.splits)
      show ?thesis
      proof (cases out)
        case IoOk
        with Suc.prems drift Pair w1 show ?thesis
          by (intro exI [of _ "[]"])
            (auto simp: put_file_def emit_page_written_def Let_def split: option.splits if_splits)
      next
        case (IoError es)
        then have "commit_loop n fp p data v s (apply_edits es w1) = (w', r)"
          using Suc.prems drift Pair by (auto split: option.splits)
        from Suc.IH [OF this] obtain es' where sub: "set es' \<subseteq> set (scripted_edits (io_script w1))"
          and spec: "if r = Inr () then
             (\<forall>b. v = Some b \<longrightarrow> \<not> file_mtime_drifted (apply_edits es' (apply_edits es w1)) fp b) \<and>
             files w' = (files (apply_edits es' (apply_edits es w1)))
               (p \<mapsto> \<lparr>body = data, mtime = clock (apply_edits es' (apply_edits es w1))\<rparr>) \<and>
             clock w' = clock (apply_edits es' (apply_edits es w1)) + 1 \<and>
             page_events w' = page_events w @ (if is_markdown fp then [(p, s)] else [])
           else files w' = files (apply_edits es' (apply_edits es w1)) \<and>
             clock w' = clock (apply_edits es' (apply_edits es w1)) \<and> page_events w' = page_events w"
          and fr: "resolve w' = resolve w" "env_read_only w' = env_read_only w" "env_graph w' = env_graph w"
          using w1 by auto
        have same: "files (apply_edits xs w1) = files (apply_edits xs w)"
          "clock (apply_edits xs w1) = clock (apply_edits xs w)" for xs
          using w1
        proof (induction xs rule: rev_induct)
          case (snoc x xs)
          { case 1 with snoc show ?case by (simp add: apply_edits_Cons put_file_def) }
          { case 2 with snoc show ?case by (simp add: apply_edits_Cons put_file_def) }
        qed simp_all
        have io: "io_script w = IoError es # io_script w1"
          using Pair IoError by (auto simp: next_io_def split: list.splits)
        have "set (es @ es') \<subseteq> set (scripted_edits (io_script w))"
          using sub io by (auto simp: scripted_edits_def)
        moreover have "file_mtime_drifted (apply_edits (es @ es') w1) = file_mtime_drifted (apply_edits (es @ es') w)"
          using same [of "es @ es'"] w1 by (intro drifted_cong) auto
        ultimately show ?thesis
          using spec fr same [of "es @ es'"] by (intro exI [of _ "es @ es'"]) auto
      qed
    qed
  qed
qed

text \<open>
  All or nothing: up to the edits of others that land during the retries, a write that
  returns puts exactly its data into the resolved target, and a write that raises changes
  no file.
\<close>

lemma atomic_write_spec:
  assumes "atomic_write_bytes fp data groot vbr v s w = (w', r)"
  shows "\<exists>es x. set es \<subseteq> set (scripted_edits (io_script w)) \<and> x = apply_edits es w \<and>
    (if r = Inr () then
       (\<forall>b. v = Some b \<longrightarrow> \<not> file_mtime_drifted x fp b) \<and>
       files w' = (files x)(resolved w fp \<mapsto> \<lparr>body = data, mtime = clock x\<rparr>) \<and> clock w' = clock x + 1 \<and>
       page_events w' = page_events w @ (if is_markdown fp then [(resolved w fp, s)] else []) \<and>
       is_relative_to (resolved w fp) (resolved w groot) \<and>
       (vbr \<and> is_markdown fp \<and> contains data ''(('' \<longrightarrow> valid_block_refs data) \<and>
       guard_graph_mutation (resolve w) (env_read_only w) groot fp = Inr ()
     else files w' = files x \<and> clock w' = clock x \<and> page_events w' = page_events w) \<and>
    resolve w' = resolve w \<and> env_read_only w' = env_read_only w \<and> env_graph w' = env_graph w"
proof (cases "guard_graph_mutation (resolve w) (env_read_only w) groot fp")
  case (Inl e)
  with assms show ?thesis by (intro exI [of _ "[]"]) (auto simp: atomic_write_bytes_def)
next
  case (Inr u)
  let ?chk = "if vbr \<and> is_markdown fp \<and> contains data ''(('' then assert_valid_block_refs_in_markdown data else Inr ()"
  show ?thesis
  proof (cases ?chk)
    case (Inl e)
    with Inr assms show ?thesis by (intro exI [of _ "[]"]) (auto simp: atomic_write_bytes_def)
  next
    case chk: (Inr u')
    show ?thesis
    proof (cases "assert_path_within_graph w fp groot")
      case (Inl e)
      with Inr chk assms show ?thesis by (intro exI [of _ "[]"]) (auto simp: atomic_write_bytes_def)
    next
      case sand: (Inr p)
      then have p: "p = resolved w fp" "is_relative_to (resolved w fp) (resolved w groot)"
        by (auto simp: assert_path_within_graph_def split: if_splits)
      have c: "commit_loop IO_RETRY_ATTEMPTS fp p data v s w = (w', r)"
        using assms Inr chk sand by (simp add: atomic_write_bytes_def)
      have refs: "vbr \<and> is_markdown fp \<and> contains data ''(('' \<longrightarrow> valid_block_refs data"
        using chk by (auto split: if_splits)
      from commit_loop_spec [OF c] obtain es where es: "set es \<subseteq> set (scripted_edits (io_script w))"
        and post: "if r = Inr () then
            (\<forall>b. v = Some b \<longrightarrow> \<not> file_mtime_drifted (apply_edits es w) fp b) \<and>
            files w' = (files (apply_edits es w))(p \<mapsto> \<lparr>body = data, mtime = clock (apply_edits es w)\<rparr>) \<and>
            clock w' = clock (apply_edits es w) + 1 \<and>
            page_events w' = page_events w @ (if is_markdown fp then [(p, s)] else [])
          else files w' = files (apply_edits es w) \<and> clock w' = clock (apply_edits es w) \<and>
            page_events w' = page_events w"
        and fr: "resolve w' = resolve w \<and> env_read_only w' = env_read_only w \<and> env_graph w' = env_graph w"
        by blast
      show ?thesis
        using es post fr p refs Inr
        by (intro exI [of _ es] exI [of _ "apply_edits es w"]) (simp split: if_splits)
    qed
  qed
qed

text \<open>The contract of a conditional write: \<open>True\<close> is a commit over an unchanged baseline.\<close>

definition conditional_write_post ::
  "path \<Rightarrow> string \<Rightarrow> baseline \<Rightarrow> world \<Rightarrow> world \<Rightarrow> py_exn + bool \<Rightarrow> bool" where
  "conditional_write_post fp data v w w' r \<longleftrightarrow>
     (\<exists>es. set es \<subseteq> set (scripted_edits (io_script w)) \<and>
       (if r = Inr True then
          \<not> file_mtime_drifted (apply_edits es w) fp v \<and>
          files w' = (files (apply_edits es w))
            (resolved w fp \<mapsto> \<lparr>body = data, mtime = clock (apply_edits es w)\<rparr>)
        else files w' = files (apply_edits es w)) \<and>
       resolve w' = resolve w)"

lemma conditional_write_spec:
  assumes "atomic_write_bytes_if_unchanged fp data groot v vbr s w = (w', r)"
  shows "conditional_write_post fp data v w w' r"
proof -
  consider (none) "w' = w" "r \<noteq> Inr True"
    | (wr) w1 r1 where "atomic_write_bytes fp data groot vbr (Some v) s w = (w1, r1)" "w' = w1"
        "r = Inr True \<longleftrightarrow> r1 = Inr ()"
    using assms
    by (auto simp: atomic_write_bytes_if_unchanged_def split: sum.splits if_splits prod.splits py_exn.splits)
  then show ?thesis
  proof cases
    case none
    then show ?thesis unfolding conditional_write_post_def by (intro exI [of _ "[]"]) auto
  next
    case wr
    from atomic_write_spec [OF wr(1)] wr(2,3) show ?thesis
      unfolding conditional_write_post_def by (auto split: if_splits)
  qed
qed

lemma conditional_write_True:
  assumes "atomic_write_bytes_if_unchanged fp data groot (IntBase m) vbr s (apply_edits es w) = (w', Inr True)"
    and "clock_ok w" and "read_file_mtime_ns w fp = Some m" and "1000000000000 \<le> m"
  shows "\<exists>es'. resolved w fp \<notin> fst ` set (es @ es') \<and>
    set es' \<subseteq> set (scripted_edits (io_script w)) \<and>
    files w' = (files (apply_edits (es @ es') w))
      (resolved w fp \<mapsto> \<lparr>body = data, mtime = clock (apply_edits (es @ es') w)\<rparr>)"
proof -
  from conditional_write_spec [OF assms(1)] obtain es' where
    "set es' \<subseteq> set (scripted_edits (io_script w))"
    "\<not> file_mtime_drifted (apply_edits (es @ es') w) fp (IntBase m)"
    "files w' = (files (apply_edits (es @ es') w))
      (resolved w fp \<mapsto> \<lparr>body = data, mtime = clock (apply_edits (es @ es') w)\<rparr>)"
    by (auto simp: conditional_write_post_def)
  then show ?thesis using edits_drift [OF assms(2-4)] by blast
qed

lemma conditional_write_conflict:
  assumes "clock_ok w" and "read_file_mtime_ns w fp = Some m" and "1000000000000 \<le> m"
    and "resolved w fp \<in> fst ` set es"
  shows "\<exists>r. atomic_write_bytes_if_unchanged fp data groot (IntBase m) vbr s (apply_edits es w) =
      (apply_edits es w, r) \<and> r \<noteq> Inr True"
  using edits_drift [OF assms(1-3)] assms(4)
  by (auto simp: atomic_write_bytes_if_unchanged_def split: sum.splits)

lemma read_only_write_blocked:
  assumes "is_graph_read_only (env_read_only w) = Inr True"
    and "resolve w groot = Some r" and "resolve w fp = Some q" and "is_relative_to q r"
  shows "\<exists>e. atomic_write_bytes fp data groot vbr v s w = (w, Inl (PolicyError e))"
proof -
  have "guard_graph_mutation (resolve w) (env_read_only w) groot fp \<noteq> Inr ()"
    using assms by (auto simp: guard_allows_iff)
  then show ?thesis by (cases "guard_graph_mutation (resolve w) (env_read_only w) groot fp")
      (auto simp: atomic_write_bytes_def)
qed

lemma safe_page_path_inside:
  "graph_safe_page_path w groot ref = Inr p \<Longrightarrow>
     is_relative_to p (resolved w (resolved w groot)) \<and> (\<exists>q. p = resolved w q)"
  by (auto simp: graph_safe_page_path_def assert_path_within_graph_def Let_def
      split: sum.splits if_splits)

subsection \<open>The contract of a conditional writer\<close>

text \<open>
  \<open>later p w w'\<close>: from \<open>w\<close> to \<open>w'\<close> the file at \<open>p\<close> was left alone, or was given a new text at
  the clock of \<open>w\<close> or after. Edits of others and backups of other files are such steps.
\<close>

definition later :: "path \<Rightarrow> world \<Rightarrow> world \<Rightarrow> bool" where
  "later p w w' \<longleftrightarrow> resolve w' = resolve w \<and> clock w \<le> clock w' \<and>
     (files w' p = files w p \<or> (\<exists>f. files w' p = Some f \<and> clock w \<le> mtime f))"

lemma later_refl [simp]: "later p w w"
  by (simp add: later_def)

lemma later_trans: "later p w1 w2 \<Longrightarrow> later p w2 w3 \<Longrightarrow> later p w1 w3"
  by (auto simp: later_def intro: order_trans)

lemma later_edits [simp]: "later p w (apply_edits es w)"
  using edits_untouched [of p es w] edits_touched [of p es w]
  by (auto simp: later_def clock_edits)

lemma later_unrelated: "p \<noteq> q \<Longrightarrow> later p w (w\<lparr>files := (files w)(q := x)\<rparr>)"
  by (simp add: later_def)

locale page_writer =
  fixes wr :: "path \<Rightarrow> string \<Rightarrow> baseline \<Rightarrow> world \<Rightarrow> world \<times> (py_exn + bool)"
  assumes wr_post: "wr fp data v w = (w', r) \<Longrightarrow> conditional_write_post fp data v w w' r"
begin

text \<open>
  A writer whose baseline is the modification time of the page it read succeeds only if the
  page still is what it read, and then the page has the new data.
\<close>

lemma write_serialised:
  assumes "wr fp data (IntBase (mtime f)) w = (w', Inr True)" and "later (resolved w0 fp) w0 w"
    and "clock_ok w0" and "files w0 (resolved w0 fp) = Some f" and "1000000000000 \<le> mtime f"
  shows "files w (resolved w0 fp) = Some f \<and> (\<exists>t. files w' (resolved w0 fp) = Some \<lparr>body = data, mtime = t\<rparr>)"
proof -
  from wr_post [OF assms(1)] obtain es where nd: "\<not> file_mtime_drifted (apply_edits es w) fp (IntBase (mtime f))"
    and fw: "files w' = (files (apply_edits es w))(resolved w fp \<mapsto> \<lparr>body = data, mtime = clock (apply_edits es w)\<rparr>)"
    by (auto simp: conditional_write_post_def)
  have r: "resolved w fp = resolved w0 fp" using assms(2) by (auto simp: later_def intro: resolved_cong)
  obtain g where g: "files (apply_edits es w) (resolved w0 fp) = Some g" "mtime g = mtime f"
    using nd drifted_ns [OF assms(5)] r by (auto simp: resolved_edits)
  have old: "mtime f < clock w0" using assms(3,4) by (auto simp: clock_ok_def)
  have "\<not> (\<exists>h. files (apply_edits es w) (resolved w0 fp) = Some h \<and> clock w \<le> mtime h)"
    using g old assms(2) by (auto simp: later_def)
  then have "files (apply_edits es w) (resolved w0 fp) = files w (resolved w0 fp)"
    using later_edits [of "resolved w0 fp" w es] by (auto simp: later_def)
  moreover have "files w (resolved w0 fp) = files w0 (resolved w0 fp)"
    using assms(2) g old calculation by (auto simp: later_def)
  ultimately show ?thesis using assms(4) fw r by auto
qed

lemma write_refused_keeps:
  assumes "wr fp data v w = (w', r)" and "r \<noteq> Inr True"
  shows "\<exists>es. set es \<subseteq> set (scripted_edits (io_script w)) \<and> files w' = files (apply_edits es w)"
  using wr_post [OF assms(1)] assms(2) by (auto simp: conditional_write_post_def)

end

interpretation cond_write: page_writer "\<lambda>fp data v w. atomic_write_bytes_if_unchanged fp data groot v vbr s w"
  for groot vbr s
  by unfold_locales (rule conditional_write_spec)

subsection \<open>Properties\<close>

text \<open>A world with one page, for the witnesses.\<close>

definition example_world :: "string \<Rightarrow> string \<Rightarrow> world" where
  "example_world text read_only =
     \<lparr>files = (\<lambda>p. if p = [''g'', ''pages'', ''A.md''] then Some \<lparr>body = text, mtime = 1700000000000000000\<rparr> else None),
      resolve = Some, clock = 1700000000000000001, env_read_only = read_only,
      env_graph = Some [''g''], io_script = [], page_events = []\<rparr>"

lemma example_clock_ok: "clock_ok (example_world t ro)"
  by (simp add: clock_ok_def example_world_def)

lemma example_mtime:
  "read_file_mtime_ns (example_world t ro) [''g'', ''pages'', ''A.md''] = Some 1700000000000000000"
  by (simp add: read_file_mtime_ns_def stat_file_def resolved_def example_world_def)

lemma strip_slash: "strip (slash s) = slash (strip s)"
proof -
  have sp: "(py_space \<circ> (\<lambda>c. if c = BSL then CHR ''/'' else c)) = py_space"
    by (rule ext) (simp add: py_space_def)
  show ?thesis
    by (simp add: strip_def slash_def rstrip_by_def lstrip_by_def rev_map dropWhile_map sp)
qed

lemma slash_slash [simp]: "slash (slash s) = slash s"
  by (simp add: slash_def comp_def)

text \<open>
  C8. The sandbox. A page reference the path builder accepts names a resolved path inside
  the graph root, and a reference with a parent component or an absolute one is refused.
\<close>

theorem page_path_sandboxed:
  "(case graph_safe_page_path w groot ref of
      Inl _ \<Rightarrow> True
    | Inr p \<Rightarrow> is_relative_to p (resolved w (resolved w groot)) \<and>
        ''..'' \<notin> set (path_parts (slash (strip ref))) \<and> slash (strip ref) \<noteq> [] \<and>
        \<not> startswith (slash (strip ref)) ''/'')"
  by (simp add: graph_safe_page_path_def assert_path_within_graph_def validate_page_ref_def Let_def
      strip_slash split: sum.split)




text \<open>
  Conflict detection. When the page was edited after the baseline was taken, the
  conditional write does not report success and changes nothing.
\<close>

theorem stale_write_rejected:
  assumes "clock_ok w" and "read_file_mtime_ns w fp = Some m" and "1000000000000 \<le> m"
    and "resolved w fp \<in> fst ` set es"
  shows "\<exists>r. atomic_write_bytes_if_unchanged fp data groot (IntBase m) vbr s (apply_edits es w) =
      (apply_edits es w, r) \<and> r \<noteq> Inr True"
  using conditional_write_conflict [OF assms] .

lemma stale_write_rejected_witness:
  "\<exists>r. atomic_write_bytes_if_unchanged [''g'', ''pages'', ''A.md''] ''- c'' [''g''] (IntBase 1700000000000000000) True None
      (apply_edits [([''g'', ''pages'', ''A.md''], ''- b'')] (example_world ''- a'' '''')) =
    (apply_edits [([''g'', ''pages'', ''A.md''], ''- b'')] (example_world ''- a'' ''''), r) \<and> r \<noteq> Inr True"
  by (rule stale_write_rejected [OF example_clock_ok example_mtime])
     (simp_all add: example_world_def resolved_def)

text \<open>
  C4. Read-only mode. When the policy variable reads as on, no write to a path of the graph
  gets through: the call raises and the world is as before.
\<close>

theorem read_only_mode_blocks_writes:
  assumes "is_graph_read_only (env_read_only w) = Inr True"
    and "resolve w groot = Some r" and "resolve w fp = Some q" and "is_relative_to q r"
  shows "\<exists>e. atomic_write_bytes fp data groot vbr v s w = (w, Inl (PolicyError e))"
  using read_only_write_blocked [OF assms] .

lemma read_only_mode_blocks_writes_witness:
  "\<exists>e. atomic_write_bytes [''g'', ''pages'', ''A.md''] ''- c'' [''g''] True None None
     (example_world ''- a'' '' Yes '') = (example_world ''- a'' '' Yes '', Inl (PolicyError e))"
proof (rule read_only_mode_blocks_writes)
  show "is_graph_read_only (env_read_only (example_world ''- a'' '' Yes '')) = Inr True" by code_simp
qed (auto simp: example_world_def is_relative_to_def)

end
