(* ===== verification/PageProps.thy ===== *)
theory PageProps
  imports Mldoc "HOL-Library.Char_ord" "HOL-Library.List_Lexorder"
begin

section \<open>Page properties in the frontmatter\<close>

text \<open>
  Model of \<open>src/graph/page_properties.py\<close>: page properties are the property lines at the top
  of a page. \<open>inject_page_property\<close> inserts a property or merges it into an existing list.
  A dictionary of properties is a map; the dictionary passed to \<open>inject_page_properties\<close> is
  the list of its items. The installed package version is the parameter \<open>version\<close>.
\<close>

subsection \<open>Reading the frontmatter\<close>

definition MERGE_LIST_KEYS :: "string set" where
  "MERGE_LIST_KEYS = {''alias'', ''aliases'', ''tags''}"

definition RAW_FRONTMATTER_LIST_KEYS :: "string set" where
  "RAW_FRONTMATTER_LIST_KEYS = {''alias'', ''aliases'', ''tags''}"

definition strip_frontmatter_list_token :: "string \<Rightarrow> string" where
  "strip_frontmatter_list_token raw =
     (let token = strip raw;
          token = (if startswith token ''[['' \<and> endswith token '']]''
                   then strip (slice 2 (length token - 2) token) else token)
      in strip (lstrip_by (\<lambda>c. c = CHR ''#'') token))"

definition sanitize_frontmatter_list_value :: "string \<Rightarrow> string \<Rightarrow> string" where
  "sanitize_frontmatter_list_value norm_key value =
     (if norm_key \<notin> RAW_FRONTMATTER_LIST_KEYS then strip value
      else join '', '' (filter (\<lambda>item. item \<noteq> [])
             (map strip_frontmatter_list_token (split_logseq_property_list_values (strip value)))))"

definition strip_lines :: "text_lines \<Rightarrow> text_lines" where
  "strip_lines lines = map (rstrip_by is_eol) lines"

definition blank :: "string \<Rightarrow> bool" where
  "blank line \<longleftrightarrow> strip line = []"

definition frontmatter_line :: "string \<Rightarrow> bool" where
  "frontmatter_line line \<longleftrightarrow> \<not> blank line \<and> parse_logseq_property_line line \<noteq> None"

definition frontmatter_span :: "text_lines \<Rightarrow> nat \<times> nat" where
  "frontmatter_span stripped =
     (let start = length (takeWhile blank stripped)
      in (start, start + length (takeWhile frontmatter_line (drop start stripped))))"

definition put_property :: "(string \<rightharpoonup> string) \<Rightarrow> string \<Rightarrow> (string \<rightharpoonup> string)" where
  "put_property keys line =
     (case parse_logseq_property_line line of
        None \<Rightarrow> keys
      | Some p \<Rightarrow> keys(pl_key_normalized p \<mapsto> strip (pl_value_raw p)))"

definition page_property_keys_in_frontmatter :: "text_lines \<Rightarrow> (string \<rightharpoonup> string)" where
  "page_property_keys_in_frontmatter stripped =
     (let (start, fm_end) = frontmatter_span stripped
      in foldl put_property Map.empty (slice start fm_end stripped))"

definition page_property_keys :: "string \<Rightarrow> (string \<rightharpoonup> string)" where
  "page_property_keys markdown_text =
     page_property_keys_in_frontmatter (strip_lines (splitlines markdown_text))"

subsection \<open>Injecting a property\<close>

definition find_frontmatter_key_line :: "text_lines \<Rightarrow> nat \<Rightarrow> nat \<Rightarrow> string \<Rightarrow> nat option" where
  "find_frontmatter_key_line stripped fm_start fm_end norm_key =
     first_index (\<lambda>i. case parse_logseq_property_line (stripped ! i) of
                        None \<Rightarrow> False
                      | Some p \<Rightarrow> pl_key_normalized p = norm_key) [fm_start..<fm_end]"

definition merge_list_property_value :: "string \<Rightarrow> string \<Rightarrow> string option" where
  "merge_list_property_value existing_value new_value =
     (let existing_items = split_logseq_property_list_values existing_value;
          new_items = split_logseq_property_list_values new_value;
          additions = filter (\<lambda>item. casefold item \<notin> set (map casefold existing_items)) new_items
      in if additions = [] then None else Some (join '', '' (existing_items @ additions)))"

definition content_start :: "text_lines \<Rightarrow> nat \<Rightarrow> nat" where
  "content_start stripped fm_end = fm_end + length (takeWhile blank (drop fm_end stripped))"

definition merge_existing_frontmatter_property ::
  "text_lines \<Rightarrow> text_lines \<Rightarrow> string \<Rightarrow> string \<Rightarrow> string \<Rightarrow> string option" where
  "merge_existing_frontmatter_property lines stripped norm_key existing_value value =
     (let (fm_start, fm_end) = frontmatter_span stripped
      in case find_frontmatter_key_line stripped fm_start fm_end norm_key of
           None \<Rightarrow> None
         | Some line_idx \<Rightarrow>
             (case merge_list_property_value existing_value value of
                None \<Rightarrow> None
              | Some merged \<Rightarrow>
                  (case parse_logseq_property_line (stripped ! line_idx) of
                     None \<Rightarrow> None
                   | Some parsed \<Rightarrow>
                       (let line = lines ! line_idx;
                            newline = (if endswith line [LF] \<or> endswith line [CR, LF] \<or> endswith line [CR]
                                       then [LF] else [])
                        in Some (concat (lines[line_idx :=
                             pl_key_raw parsed @ ''::'' @ pl_sep_after_colons parsed @ merged @ newline]))))))"

definition inject_page_property :: "string \<Rightarrow> string \<Rightarrow> string \<Rightarrow> string" where
  "inject_page_property markdown_text key raw_value =
     (let norm_key = normalize_logseq_property_key key
      in if norm_key = [] \<or> strip raw_value = [] then markdown_text
         else if markdown_text \<noteq> [] \<and> strip markdown_text = [] then markdown_text
         else
           let value = sanitize_frontmatter_list_value norm_key (strip raw_value);
               lines = (if splitlines_keep markdown_text = [] then [[]] else splitlines_keep markdown_text);
               stripped = strip_lines lines
           in case page_property_keys_in_frontmatter stripped norm_key of
                Some existing_value \<Rightarrow>
                  if norm_key \<notin> MERGE_LIST_KEYS then markdown_text
                  else (case merge_existing_frontmatter_property lines stripped norm_key existing_value value of
                          None \<Rightarrow> markdown_text
                        | Some merged_frontmatter \<Rightarrow> merged_frontmatter)
              | None \<Rightarrow>
                  let (fm_start, fm_end) = frontmatter_span stripped;
                      prop_line = key @ '':: '' @ value @ [LF]
                  in if fm_start < fm_end then concat (list_insert fm_end prop_line lines)
                     else let start = content_start stripped fm_end
                          in if start < length stripped
                             then concat (list_insert start prop_line (list_insert start [LF] lines))
                             else if strip markdown_text \<noteq> [] then prop_line @ [LF] @ markdown_text
                             else prop_line)"

definition inject_page_properties :: "string \<Rightarrow> (string \<times> string) list \<Rightarrow> string" where
  "inject_page_properties markdown_text properties =
     foldl (\<lambda>text (key, value). if strip value \<noteq> [] then inject_page_property text key (strip value) else text)
       markdown_text (sort_key fst properties)"

subsection \<open>Pages the agent has created\<close>

definition plumber_made_by_value :: "string \<Rightarrow> string" where
  "plumber_made_by_value version = ''matryca plumber v'' @ version"

definition is_legacy_plumber_authored :: "(string \<rightharpoonup> string) \<Rightarrow> bool" where
  "is_legacy_plumber_authored properties \<longleftrightarrow>
     casefold (case properties ''created-by'' of None \<Rightarrow> [] | Some v \<Rightarrow> v) = ''plumber''"

definition is_versioned_plumber_authored :: "(string \<rightharpoonup> string) \<Rightarrow> bool" where
  "is_versioned_plumber_authored properties \<longleftrightarrow>
     startswith (casefold (case properties ''made-by'' of None \<Rightarrow> [] | Some v \<Rightarrow> v)) (casefold ''matryca plumber'')"

definition is_plumber_authored_page :: "string \<Rightarrow> bool" where
  "is_plumber_authored_page markdown_text \<longleftrightarrow>
     is_versioned_plumber_authored (page_property_keys markdown_text) \<or>
     is_legacy_plumber_authored (page_property_keys markdown_text)"

definition stamp_plumber_authored_page :: "string \<Rightarrow> string \<Rightarrow> string" where
  "stamp_plumber_authored_page version markdown_text =
     (if is_plumber_authored_page markdown_text then markdown_text
      else inject_page_property markdown_text ''made-by'' (plumber_made_by_value version))"

subsection \<open>The frontmatter of a page as a list of lines\<close>

definition frontmatter_lines :: "text_lines \<Rightarrow> text_lines" where
  "frontmatter_lines stripped = takeWhile frontmatter_line (dropWhile blank stripped)"

lemma keys_in_frontmatter:
  "page_property_keys_in_frontmatter stripped = foldl put_property Map.empty (frontmatter_lines stripped)"
proof -
  have "slice (length (takeWhile blank stripped))
      (length (takeWhile blank stripped) + length (takeWhile frontmatter_line (dropWhile blank stripped))) stripped =
      frontmatter_lines stripped"
    by (simp add: slice_def frontmatter_lines_def takeWhile_eq_take [symmetric] flip: dropWhile_eq_drop)
  then show ?thesis
    by (simp add: page_property_keys_in_frontmatter_def frontmatter_span_def Let_def dropWhile_eq_drop)
qed

text \<open>Pages whose lines end in line feeds and carriage returns only.\<close>

definition plain_text :: "string \<Rightarrow> bool" where
  "plain_text text \<longleftrightarrow> list_all (\<lambda>c. line_break c \<longrightarrow> is_eol c) text"


lemma no_break_eol: "no_break l \<Longrightarrow> list_all is_eol e \<Longrightarrow> rstrip_by is_eol (l @ e) = l"
proof -
  assume l: "no_break l" and "list_all is_eol e"
  then have "rstrip_by is_eol (l @ e) = rstrip_by is_eol l" by (simp add: rstrip_by_append_all)
  moreover have "l = [] \<or> \<not> is_eol (last l)"
    using l by (metis is_eol_def last_in_set line_break_LF list_all_iff no_break_def)
  ultimately show ?thesis by (simp add: rstrip_by_id)
qed

lemma terminator_plain: "terminator e \<Longrightarrow> list_all (\<lambda>c. line_break c \<longrightarrow> is_eol c) e \<Longrightarrow> list_all is_eol e"
  unfolding terminator_def by (elim disjE exE conjE) (simp_all add: is_eol_def)

lemma strip_lines_keep:
  assumes "plain_text text"
  shows "strip_lines (splitlines_keep text) = splitlines text"
proof -
  have "rstrip_by is_eol (l @ e) = l" if "(l, e) \<in> set (py_lines text)" for l e
  proof -
    have "set e \<subseteq> set (text_of (py_lines text))" using that by (auto simp: text_of_def)
    then have "list_all (\<lambda>c. line_break c \<longrightarrow> is_eol c) e"
      using assms by (auto simp: plain_text_def list_all_iff)
    then have "list_all is_eol e"
      using py_lines_mem [OF that] terminator_plain [of e] by auto
    then show ?thesis using py_lines_mem [OF that] no_break_eol by simp
  qed
  then show ?thesis by (auto simp: strip_lines_def splitlines_keep_def splitlines_def)
qed

lemma strip_lines_splitlines: "strip_lines (splitlines text) = splitlines text"
proof -
  have "rstrip_by is_eol (fst p) = fst p" if "p \<in> set (py_lines text)" for p
    using no_break_eol [of "fst p" "[]"] py_lines_mem [of "fst p" "snd p" "text"] that by simp
  then show ?thesis by (simp add: strip_lines_def splitlines_def)
qed

lemma page_property_keys_lines:
  "page_property_keys text = foldl put_property Map.empty (frontmatter_lines (splitlines text))"
  by (simp add: page_property_keys_def strip_lines_splitlines keys_in_frontmatter)

subsection \<open>A key and a value that can be written\<close>

definition writable_key :: "string \<Rightarrow> bool" where
  "writable_key key \<longleftrightarrow> key \<noteq> [] \<and> strip key = key \<and> no_break key \<and> CHR '':'' \<notin> set key \<and> hd key \<noteq> CHR ''#'' \<and>
     normalize_logseq_property_key key \<noteq> ''id'' \<and> \<not> is_bullet key"

lemma is_bullet_prefix:
  assumes "is_bullet (k @ CHR '':'' # r)" and "strip k = k" and "k \<noteq> []"
  shows "is_bullet k"
proof -
  obtain c k' where k: "k = c # k'" "\<not> py_space c" using assms(2,3) strip_hd [of k] by (cases k) auto
  then show ?thesis
    using assms(1) by (cases k') (auto simp: is_bullet_def bullet_match_def lstrip_by_def py_space_def split: if_splits)
qed

lemma parse_written_line:
  assumes "writable_key key" and "no_break v" and "strip v = v"
  shows "\<exists>p. parse_logseq_property_line (key @ '':: '' @ v) = Some p \<and>
    pl_key_normalized p = normalize_logseq_property_key key \<and> pl_value_raw p = v"
proof -
  have k: "key \<noteq> []" "\<not> py_space (hd key)" "\<not> py_space (last key)" "LF \<notin> set key"
    using assms(1) strip_hd [of key] strip_last [of key]
    by (auto simp: writable_key_def no_break_def list_all_iff)
  have v: "takeWhile py_space ('' '' @ v) = '' ''" "lstrip ('' '' @ v) = v"
    using assms(3) strip_hd [of v] by (cases v; auto simp: lstrip_by_def py_space_def)+
  have "\<not> is_eol (last ('':: '' @ v))"
    using assms(2) by (auto simp: last_append no_break_def list_all_iff is_eol_def dest!: last_in_set)
  then have eol: "rstrip_by is_eol ([] @ key @ ''::'' @ ('' '' @ v)) = [] @ key @ ''::'' @ ('' '' @ v)"
    by (intro rstrip_by_id) (simp add: last_append split: if_splits)
  have nb: "\<not> is_bullet ([] @ key @ ''::'' @ ('' '' @ v))"
    using assms(1) is_bullet_prefix [of key "CHR '':'' # '' '' @ v"] by (auto simp: writable_key_def)
  show ?thesis
    using parse_property_intro [OF _ _ k(1-3) _ k(4) _ nb eol] assms(1) v
    by (auto simp: writable_key_def)
qed

lemma frontmatter_line_written:
  assumes "writable_key key" and "no_break v" and "strip v = v"
  shows "frontmatter_line (key @ '':: '' @ v)"
proof -
  have "hd key \<in> set (key @ '':: '' @ v)" "\<not> py_space (hd key)"
    using assms(1) strip_hd [of key] by (auto simp: writable_key_def)
  then have "\<not> blank (key @ '':: '' @ v)" unfolding blank_def strip_eq_Nil list_all_iff by blast
  then show ?thesis using parse_written_line [OF assms] by (auto simp: frontmatter_line_def)
qed

subsection \<open>Inserting a property\<close>

lemma frontmatter_split:
  obtains B F R where "S = B @ F @ R" "list_all blank B" "F = frontmatter_lines S" "list_all frontmatter_line F"
    "R = [] \<or> \<not> frontmatter_line (hd R)" "F = [] \<Longrightarrow> R = [] \<or> \<not> blank (hd R)"
    "frontmatter_span S = (length B, length B + length F)" "B = takeWhile blank S"
proof -
  let ?D = "dropWhile blank S"
  show thesis
  proof (rule that [of "takeWhile blank S" "frontmatter_lines S" "dropWhile frontmatter_line ?D"])
    show "S = takeWhile blank S @ frontmatter_lines S @ dropWhile frontmatter_line ?D"
      by (simp add: frontmatter_lines_def)
    show "list_all blank (takeWhile blank S)" "list_all frontmatter_line (frontmatter_lines S)"
      by (auto simp: list_all_iff frontmatter_lines_def dest: set_takeWhileD)
    show "frontmatter_span S = (length (takeWhile blank S), length (takeWhile blank S) + length (frontmatter_lines S))"
      by (simp add: frontmatter_span_def Let_def frontmatter_lines_def dropWhile_eq_drop)
    show "dropWhile frontmatter_line ?D = [] \<or> \<not> frontmatter_line (hd (dropWhile frontmatter_line ?D))"
      by (meson hd_dropWhile)
    assume "frontmatter_lines S = []"
    then have "dropWhile frontmatter_line ?D = ?D"
      by (metis append_Nil frontmatter_lines_def takeWhile_dropWhile_id)
    then show "dropWhile frontmatter_line ?D = [] \<or> \<not> blank (hd (dropWhile frontmatter_line ?D))"
      by (metis hd_dropWhile)
  qed simp_all
qed

lemma frontmatter_lines_intro:
  assumes "list_all blank B" and "list_all frontmatter_line F" and "F \<noteq> []"
    and "R = [] \<or> \<not> frontmatter_line (hd R)"
  shows "frontmatter_lines (B @ F @ R) = F"
proof -
  have "\<not> blank (hd F)" using assms(2,3) by (cases F) (auto simp: frontmatter_line_def)
  then have "dropWhile blank (B @ F @ R) = F @ R"
    using assms(1,3) by (cases F) (auto simp: dropWhile_append list_all_iff dropWhile_eq_Nil_conv)
  moreover have "takeWhile frontmatter_line (F @ R) = F"
    using assms(2,4) by (cases R) (auto simp: takeWhile_append list_all_iff)
  ultimately show ?thesis by (simp add: frontmatter_lines_def)
qed

text \<open>The precondition of a clean insertion of a property that the page does not have.\<close>

definition insertable :: "string \<Rightarrow> string \<Rightarrow> string \<Rightarrow> bool" where
  "insertable text key v \<longleftrightarrow>
     plain_text text \<and> (text = [] \<or> strip text \<noteq> []) \<and> writable_key key \<and> no_break v \<and> strip v = v \<and>
     page_property_keys text (normalize_logseq_property_key key) = None \<and>
     (text = [] \<or> is_eol (last text) \<or> snd (frontmatter_span (splitlines text)) < length (splitlines text))"

lemma last_terminated: "text \<noteq> [] \<Longrightarrow> is_eol (last text) \<Longrightarrow> terminator (snd (last (py_lines text)))"
proof -
  assume t: "text \<noteq> []" "is_eol (last text)"
  obtain ps l e where ps: "py_lines text = ps @ [(l, e)]"
    using t(1) by (cases "py_lines text" rule: rev_cases) auto
  then have "line_pairs [(l, e)]" using line_pairs_py_lines [of "text"] by (simp add: line_pairs_append)
  moreover have "e \<noteq> []"
  proof
    assume "e = []"
    then have "text = text_of ps @ l" using ps text_of_py_lines [of "text"] by simp
    moreover have "l \<noteq> []" "no_break l" using \<open>line_pairs [(l, e)]\<close> \<open>e = []\<close> by auto
    ultimately show False using t(2)
      by (metis is_eol_def last_appendR last_in_set line_break_LF list_all_iff no_break_def)
  qed
  ultimately show ?thesis using ps by auto
qed

lemma list_insert_two: "n \<le> length xs \<Longrightarrow> list_insert n x (list_insert n y xs) = take n xs @ [x, y] @ drop n xs"
  by (simp add: list_insert_def)

lemma blank_lines_text: "list_all blank (splitlines text) \<Longrightarrow> strip text = []"
proof -
  assume b: "list_all blank (splitlines text)"
  have "list_all py_space (l @ e)" if "(l, e) \<in> set (py_lines text)" for l e
  proof -
    have "list_all py_space e"
      using py_lines_mem [OF that] by (auto simp: terminator_def list_all_iff line_break_space)
    moreover have "blank l" using b that by (auto simp: splitlines_def list_all_iff)
    ultimately show ?thesis by (simp add: blank_def strip_eq_Nil)
  qed
  then have "list_all py_space (text_of (py_lines text))" by (fastforce simp: text_of_def list_all_iff)
  then show ?thesis by (simp add: strip_eq_Nil)
qed

lemma plain_text_append: "plain_text (s @ t) \<longleftrightarrow> plain_text s \<and> plain_text t"
  by (simp add: plain_text_def)

lemma plain_no_break: "no_break l \<Longrightarrow> plain_text (l @ [LF])" "plain_text [LF]"
  by (auto simp: plain_text_def no_break_def list_all_iff is_eol_def)

text \<open>Splicing whole lines into a plain page.\<close>

lemma splice_lines:
  assumes "plain_text text" and "line_pairs ms" and "ms \<noteq> []" and "hd ms \<noteq> ([], [LF])" and "snd (last ms) = [LF]"
    and "n < length (py_lines text) \<or> text = [] \<or> is_eol (last text)" and "plain_text (text_of ms)"
    and "t = text_of (take n (py_lines text) @ ms @ drop n (py_lines text))"
  shows "splitlines t = take n (splitlines text) @ map fst ms @ drop n (splitlines text) \<and> plain_text t"
proof -
  have "line_pairs (take n (py_lines text) @ ms @ drop n (py_lines text))"
    using assms(2-6) last_terminated [of "text"] by (intro line_pairs_splice line_pairs_py_lines) auto
  then have "py_lines t = take n (py_lines text) @ ms @ drop n (py_lines text)"
    unfolding assms(8) by (rule py_lines_text_of)
  moreover have "text = text_of (take n (py_lines text)) @ text_of (drop n (py_lines text))"
    by (metis append_take_drop_id text_of_py_lines text_of_simps(3))
  then have "plain_text (text_of (take n (py_lines text)))" "plain_text (text_of (drop n (py_lines text)))"
    using assms(1) by (metis plain_text_append)+
  ultimately show ?thesis using assms(7,8) by (simp add: splitlines_def take_map drop_map plain_text_append)
qed

lemma insertable_facts:
  assumes "insertable text key v"
  shows "normalize_logseq_property_key key \<noteq> []" "no_break (key @ '':: '' @ v)" "key @ '':: '' @ v \<noteq> []"
    "page_property_keys_in_frontmatter (splitlines text) (normalize_logseq_property_key key) = None"
    "strip_lines (splitlines_keep text) = splitlines text" "plain_text text"
  using assms strip_lines_keep [of "text"]
  by (auto simp: insertable_def writable_key_def normalize_logseq_property_key_def line_break_def
      page_property_keys_def strip_lines_splitlines)

text \<open>The new page after a clean insertion into a page with, or without, a frontmatter.\<close>

lemma inject_after_frontmatter:
  assumes ins: "insertable text key v" and v: "v = sanitize_frontmatter_list_value (normalize_logseq_property_key key) (strip value)"
    and ne: "strip value \<noteq> []" and fm: "frontmatter_span (splitlines text) = (a, n)" "a < n" and ntext: "text \<noteq> []"
  shows "splitlines (inject_page_property text key value) =
      take n (splitlines text) @ [key @ '':: '' @ v] @ drop n (splitlines text) \<and>
    plain_text (inject_page_property text key value)"
proof -
  note facts = insertable_facts [OF ins]
  let ?line = "key @ '':: '' @ v"
  have "splitlines_keep text \<noteq> []" "strip text \<noteq> []" using ins ntext by (auto simp: insertable_def)
  then have "inject_page_property text key value = concat (list_insert n (?line @ [LF]) (splitlines_keep text))"
    using facts ne fm v by (simp add: inject_page_property_def Let_def)
  then have "inject_page_property text key value =
      text_of (take n (py_lines text) @ [(?line, [LF])] @ drop n (py_lines text))"
    using concat_insert_line [of n ?line "[LF]" "py_lines text"] by (simp add: splitlines_keep_def list_insert_def)
  moreover have "n < length (py_lines text) \<or> text = [] \<or> is_eol (last text)"
    using ins fm by (auto simp: insertable_def splitlines_def)
  ultimately show ?thesis
    using splice_lines [OF facts(6), of "[(?line, [LF])]" n] facts(2,3) plain_no_break(1) [OF facts(2)] by simp
qed

lemma inject_before_content:
  assumes ins: "insertable text key v" and v: "v = sanitize_frontmatter_list_value (normalize_logseq_property_key key) (strip value)"
    and ne: "strip value \<noteq> []" and fm: "frontmatter_span (splitlines text) = (n, n)"
    and cs: "content_start (splitlines text) n = n" "n < length (splitlines text)"
  shows "splitlines (inject_page_property text key value) =
      take n (splitlines text) @ [key @ '':: '' @ v, []] @ drop n (splitlines text) \<and>
    plain_text (inject_page_property text key value)"
proof -
  note facts = insertable_facts [OF ins]
  let ?line = "key @ '':: '' @ v" and ?ms = "[(key @ '':: '' @ v, [LF]), ([], [LF])]"
  have ntext: "text \<noteq> []" using cs(2) by auto
  then have "splitlines_keep text \<noteq> []" "strip text \<noteq> []" using ins by (auto simp: insertable_def)
  then have "inject_page_property text key value =
      concat (list_insert n (?line @ [LF]) (list_insert n [LF] (splitlines_keep text)))"
    using facts ne fm v cs by (simp add: inject_page_property_def Let_def)
  then have "inject_page_property text key value = text_of (take n (py_lines text) @ ?ms @ drop n (py_lines text))"
    using cs(2) by (simp add: list_insert_two splitlines_keep_def splitlines_def text_of_def take_map drop_map)
  moreover have "plain_text (text_of ?ms)"
    using plain_no_break(1) [OF facts(2)] plain_no_break(2) plain_text_append [of "?line @ [LF]" "[LF]"] by simp
  moreover have "n < length (py_lines text)" using cs(2) by (simp add: splitlines_def)
  ultimately show ?thesis
    using splice_lines [OF facts(6), of ?ms n] facts(2,3) by simp
qed

lemma foldl_put_snoc:
  "parse_logseq_property_line l = Some p \<Longrightarrow>
     foldl put_property m (F @ [l]) = (foldl put_property m F)(pl_key_normalized p \<mapsto> strip (pl_value_raw p))"
  by (simp add: put_property_def)

lemma inject_readback:
  assumes ins: "insertable text key v" and v: "v = sanitize_frontmatter_list_value (normalize_logseq_property_key key) (strip value)"
    and ne: "strip value \<noteq> []"
  shows "page_property_keys (inject_page_property text key value) =
      (page_property_keys text)(normalize_logseq_property_key key \<mapsto> v) \<and>
    plain_text (inject_page_property text key value)"
proof -
  let ?S = "splitlines text" and ?line = "key @ '':: '' @ v" and ?t = "inject_page_property text key value"
  note facts = insertable_facts [OF ins]
  have wk: "writable_key key" "no_break v" "strip v = v" using ins by (auto simp: insertable_def)
  have fl: "frontmatter_line ?line" by (rule frontmatter_line_written [OF wk])
  obtain p where p: "parse_logseq_property_line ?line = Some p"
    "pl_key_normalized p = normalize_logseq_property_key key" "pl_value_raw p = v"
    using parse_written_line [OF wk] by blast
  obtain B R where S: "?S = B @ frontmatter_lines ?S @ R" "list_all blank B"
    "list_all frontmatter_line (frontmatter_lines ?S)" "R = [] \<or> \<not> frontmatter_line (hd R)"
    "frontmatter_lines ?S = [] \<Longrightarrow> R = [] \<or> \<not> blank (hd R)"
    "frontmatter_span ?S = (length B, length B + length (frontmatter_lines ?S))"
    by (rule frontmatter_split [of ?S]) metis
  let ?F = "frontmatter_lines ?S"
  have "\<exists>R'. splitlines ?t = B @ (?F @ [?line]) @ R' \<and> (R' = [] \<or> \<not> frontmatter_line (hd R')) \<and> plain_text ?t"
  proof -
    consider (fm) "?F \<noteq> []" | (content) "?F = []" "R \<noteq> []" | (empty) "?F = []" "R = []" by blast
    then show ?thesis
    proof cases
      case fm
      then have "text \<noteq> []" by (auto simp: frontmatter_lines_def)
      moreover have "take (length B + length ?F) ?S = B @ ?F" "drop (length B + length ?F) ?S = R"
        using arg_cong [OF S(1), of "take (length B + length ?F)"] arg_cong [OF S(1), of "drop (length B + length ?F)"]
        by simp_all
      ultimately show ?thesis
        using inject_after_frontmatter [OF ins v ne S(6)] fm S(4) by auto
    next
      case content
      then have td: "take (length B) ?S = B" "drop (length B) ?S = R" "length B < length ?S"
        using S(1) by (metis append_Nil append_eq_conv_conj, metis append_Nil append_eq_conv_conj,
            metis add_less_cancel_left length_append length_greater_0_conv add.right_neutral append_Nil)
      have "content_start ?S (length B) = length B"
        using content S(5) td(2) by (cases R) (auto simp: content_start_def)
      then show ?thesis
        using inject_before_content [OF ins v ne _ _ td(3)] S(6) content(1) td
        by (auto simp: frontmatter_line_def blank_def)
    next
      case empty
      then have "list_all blank ?S" using S(1,2) by simp
      then have "text = []" using blank_lines_text ins by (auto simp: insertable_def)
      then have "?t = ?line @ [LF]"
        using facts(1,4) ne v by (simp add: inject_page_property_def Let_def strip_lines_def
            keys_in_frontmatter frontmatter_lines_def blank_def frontmatter_span_def content_start_def)
      then show ?thesis
        using empty \<open>text = []\<close> S(1) py_lines_line [of ?line "[LF]" "[]"] facts(2) plain_no_break(1) [OF facts(2)]
        by (simp add: splitlines_def)
    qed
  qed
  then obtain R' where t: "splitlines ?t = B @ (?F @ [?line]) @ R'" "R' = [] \<or> \<not> frontmatter_line (hd R')"
    "plain_text ?t" by blast
  have "frontmatter_lines (splitlines ?t) = ?F @ [?line]"
    unfolding t(1) using S(2,3) fl t(2) by (intro frontmatter_lines_intro) simp_all
  then have "page_property_keys ?t = (page_property_keys text)(normalize_logseq_property_key key \<mapsto> v)"
    unfolding page_property_keys_lines using foldl_put_snoc [OF p(1)] p wk(3) by simp
  with t(3) show ?thesis by simp
qed

lemma inject_existing_same:
  assumes "plain_text t" and "page_property_keys t (normalize_logseq_property_key key) =
      Some (sanitize_frontmatter_list_value (normalize_logseq_property_key key) (strip value))"
  shows "inject_page_property t key value = t"
proof -
  have "page_property_keys_in_frontmatter (strip_lines (splitlines_keep t)) (normalize_logseq_property_key key) =
      Some (sanitize_frontmatter_list_value (normalize_logseq_property_key key) (strip value))"
    using assms strip_lines_keep by (simp add: page_property_keys_def strip_lines_splitlines)
  moreover from this have "splitlines_keep t \<noteq> []"
    by (auto simp: strip_lines_def keys_in_frontmatter frontmatter_lines_def)
  moreover have "merge_list_property_value v v = None" for v
    by (simp add: merge_list_property_value_def Let_def filter_empty_conv)
  ultimately show ?thesis
    by (auto simp: inject_page_property_def Let_def merge_existing_frontmatter_property_def
        split: option.splits prod.splits)
qed

subsection \<open>What an injection leaves alone\<close>

text \<open>\<open>one_place t t' P\<close>: the texts differ by one replaced part, which is empty or satisfies \<open>P\<close>.\<close>

definition one_place :: "(string \<Rightarrow> bool) \<Rightarrow> string \<Rightarrow> string \<Rightarrow> bool" where
  "one_place P t t' \<longleftrightarrow> (\<exists>a l x b. t = a @ l @ b \<and> t' = a @ x @ b \<and> (l = [] \<or> P l))"

lemma one_placeI: "t = a @ l @ b \<Longrightarrow> t' = a @ x @ b \<Longrightarrow> l = [] \<or> P l \<Longrightarrow> one_place P t t'"
  unfolding one_place_def by blast

lemma one_place_refl [simp]: "one_place P t t"
  by (rule one_placeI [of t t "[]" "[]" t "[]"]) simp_all

lemma one_place_insert: "t = concat lines \<Longrightarrow> one_place P t (concat (list_insert n x lines))"
  by (rule one_placeI [of t "concat (take n lines)" "[]" "concat (drop n lines)" _ x])
     (simp_all add: list_insert_def concat_append [symmetric] del: concat_append, simp)

lemma one_place_update:
  "t = concat lines \<Longrightarrow> i < length lines \<Longrightarrow> P (lines ! i) \<Longrightarrow> one_place P t (concat (lines[i := x]))"
proof (rule one_placeI [of t "concat (take i lines)" "lines ! i" "concat (drop (Suc i) lines)" _ x])
  assume t: "t = concat lines" and i: "i < length lines"
  show "t = concat (take i lines) @ lines ! i @ concat (drop (Suc i) lines)"
    unfolding t by (subst (1) id_take_nth_drop [OF i]) simp
qed (simp_all add: upd_conv_take_nth_drop)

lemma frontmatter_span_le: "frontmatter_span stripped = (a, b) \<Longrightarrow> b \<le> length stripped"
  by (auto simp: frontmatter_span_def Let_def)
     (metis dropWhile_eq_drop length_append length_takeWhile_le nat_add_left_cancel_le takeWhile_dropWhile_id)

lemma merge_one_place:
  assumes "merge_existing_frontmatter_property lines (strip_lines lines) nk ev v = Some t"
  shows "one_place (\<lambda>l. map_option pl_key_normalized (parse_logseq_property_line (rstrip_by is_eol l)) = Some nk)
    (concat lines) t"
proof -
  obtain a b i x where sp: "frontmatter_span (strip_lines lines) = (a, b)"
    and i: "find_frontmatter_key_line (strip_lines lines) a b nk = Some i" and t: "t = concat (lines[i := x])"
    using assms by (auto simp: merge_existing_frontmatter_property_def Let_def split: prod.splits option.splits)
  have "i < b" and m: "map_option pl_key_normalized (parse_logseq_property_line (strip_lines lines ! i)) = Some nk"
    using first_index_Some [OF i [unfolded find_frontmatter_key_line_def]] by (auto split: option.splits)
  moreover have "b \<le> length lines" using frontmatter_span_le [OF sp] by (simp add: strip_lines_def)
  ultimately have il: "i < length lines" by simp
  then show ?thesis unfolding t using m by (intro one_place_update) (simp_all add: strip_lines_def)
qed

lemma inject_one_place:
  "one_place (\<lambda>l. normalize_logseq_property_key key \<in> MERGE_LIST_KEYS \<and>
      map_option pl_key_normalized (parse_logseq_property_line (rstrip_by is_eol l)) = Some (normalize_logseq_property_key key))
     text (inject_page_property text key value)"
proof -
  define lines where "lines = (if splitlines_keep text = [] then [[]] else splitlines_keep text)"
  have c: "text = concat lines" by (simp add: lines_def)
  let ?nk = "normalize_logseq_property_key key" and ?v = "sanitize_frontmatter_list_value (normalize_logseq_property_key key) (strip value)"
  let ?P = "\<lambda>l. ?nk \<in> MERGE_LIST_KEYS \<and> map_option pl_key_normalized (parse_logseq_property_line (rstrip_by is_eol l)) = Some ?nk"
  have merge: "one_place ?P text t"
    if "merge_existing_frontmatter_property lines (strip_lines lines) ?nk ev ?v = Some t" "?nk \<in> MERGE_LIST_KEYS" for ev t
    using merge_one_place [OF that(1)] that(2) c by (simp add: one_place_def)
  have two: "one_place ?P text (concat (list_insert n x (list_insert n y lines)))" if "n \<le> length lines" for n x y
    using one_place_insert [OF c, of ?P n "x @ y"] that by (simp add: list_insert_two list_insert_def)
  have front: "one_place ?P text (x @ text)" for x
    by (rule one_placeI [of _ "[]" "[]" "text" _ x]) simp_all
  show ?thesis
    using merge one_place_insert [OF c, of ?P] two front [of "key @ '':: '' @ ?v @ [LF] @ [LF]"]
      front [of "key @ '':: '' @ ?v @ [LF]"]
    unfolding inject_page_property_def Let_def lines_def [symmetric]
    by (auto simp: strip_lines_def split: option.splits prod.splits if_splits)
qed

subsection \<open>Properties\<close>

text \<open>
  Read back. Injecting a property that a page does not have, into a page whose
  frontmatter does not end in an unterminated line, adds exactly that property with its
  sanitised value to what the page reads as; every other property reads as before.
\<close>

theorem inject_property_readback:
  assumes "insertable text key v" and "strip value \<noteq> []"
    and "v = sanitize_frontmatter_list_value (normalize_logseq_property_key key) (strip value)"
  shows "page_property_keys (inject_page_property text key value) =
    (page_property_keys text)(normalize_logseq_property_key key \<mapsto> v)"
  using inject_readback [OF assms(1,3,2)] by simp

lemma inject_property_readback_witness:
  "page_property_keys (inject_page_property (join [LF] [''tags:: a'', ''- x'']) ''Alias'' '' [[b]], #c '') =
    (page_property_keys (join [LF] [''tags:: a'', ''- x'']))(normalize_logseq_property_key ''Alias'' \<mapsto> ''b, c'')"
proof (rule inject_property_readback)
  show "insertable (join [LF] [''tags:: a'', ''- x'']) ''Alias'' ''b, c''" by code_simp
  show "strip '' [[b]], #c '' \<noteq> []" by code_simp
  show "''b, c'' = sanitize_frontmatter_list_value (normalize_logseq_property_key ''Alias'') (strip '' [[b]], #c '')"
    by code_simp
qed

text \<open>
  Idempotence. Injecting the same new property a second time leaves the page as it is,
  for a list-valued key as well as for any other.
\<close>

theorem inject_property_idempotent:
  assumes "insertable text key (sanitize_frontmatter_list_value (normalize_logseq_property_key key) (strip value))"
  shows "inject_page_property (inject_page_property text key value) key value = inject_page_property text key value"
proof (cases "strip value = []")
  case False
  then show ?thesis
    using inject_readback [OF assms refl] by (intro inject_existing_same) auto
qed (simp add: inject_page_property_def)

lemma inject_property_idempotent_witness:
  "inject_page_property (inject_page_property (join [LF] [''tags:: a'', ''- x'']) ''Alias'' '' [[b]], #c '') ''Alias'' '' [[b]], #c '' =
    inject_page_property (join [LF] [''tags:: a'', ''- x'']) ''Alias'' '' [[b]], #c ''"
  by (rule inject_property_idempotent) code_simp

text \<open>
  Frame. Whatever the page and the property, an injection changes the page at one place:
  it inserts text, or it replaces the one frontmatter line of a list-valued key.
\<close>

theorem inject_property_frame:
  "\<exists>a l x b. text = a @ l @ b \<and> inject_page_property text key value = a @ x @ b \<and>
     (l = [] \<or> (normalize_logseq_property_key key \<in> MERGE_LIST_KEYS \<and>
        map_option pl_key_normalized (parse_logseq_property_line (rstrip_by is_eol l)) =
          Some (normalize_logseq_property_key key)))"
  using inject_one_place [of key "text" "value"] by (simp add: one_place_def)

text \<open>
  Two inputs outside the preconditions above, as the code treats them. A frontmatter that ends
  the file without a line feed gets the new property glued to its last line; a list key that
  occurs twice loses the values of its first line.
\<close>

lemma inject_unterminated_frontmatter:
  "inject_page_property ''a:: 1'' ''b'' ''2'' = ''a:: 1b:: 2'' @ [LF]"
  by code_simp

lemma inject_duplicate_list_key:
  "inject_page_property (join [LF] [''alias:: a'', ''alias:: b'', ''- x'']) ''alias'' ''c'' =
     join [LF] [''alias:: b, c'', ''alias:: b'', ''- x'']"
  by code_simp

end
