(* ===== verification/PropEdit.thy ===== *)
theory PropEdit
  imports FileStore PageProps "HOL-Library.Monad_Syntax"
begin

section \<open>Editing the property lines of a block\<close>

text \<open>
  Model of \<open>src/graph/property_line_edit.py\<close> and \<open>src/utils/regex_policy.py\<close>. A handler gets
  the world at its call and the edits by other programs that land while it runs
  (\<open>interference\<close>). The replacement loops are those of the source; the case-insensitive one
  may not return, so a handler's result is an \<open>option\<close> whose \<open>None\<close> means that it runs forever.
  Hints are left out of the outcomes, which keep the codes; a preview is its line number and
  the two texts.

  Patterns of the caller are run by Python's \<open>re\<close>, which is the parameter \<open>regex_engine\<close>: does a
  pattern compile, the first match in a text, substitution of all matches, substitution of
  the first match. The rejection of dangerous patterns is the source's own and is modelled.
\<close>

subsection \<open>Patterns\<close>

record regex_engine =
  rx_compiles :: "string \<Rightarrow> bool \<Rightarrow> bool"
  rx_search :: "string \<Rightarrow> bool \<Rightarrow> string \<Rightarrow> (nat \<times> nat) option"
  rx_subn :: "string \<Rightarrow> bool \<Rightarrow> string \<Rightarrow> string \<Rightarrow> py_exn + string \<times> nat"
  rx_sub_one :: "string \<Rightarrow> bool \<Rightarrow> string \<Rightarrow> string \<Rightarrow> py_exn + string"

definition MAX_REGEX_PATTERN_LEN :: nat where
  "MAX_REGEX_PATTERN_LEN = 256"

text \<open>\<open>\(\[[^\]]+\]\)\+\<close> and \<open>\([^)]*[+*][^)]*\)[+*]\<close> at the head of a pattern.\<close>

definition repeated_class :: "string \<Rightarrow> bool" where
  "repeated_class s \<longleftrightarrow>
     startswith s ''(['' \<and> takeWhile (\<lambda>c. c \<noteq> CHR '']'') (drop 2 s) \<noteq> [] \<and>
     startswith (dropWhile (\<lambda>c. c \<noteq> CHR '']'') (drop 2 s)) '']+)+''"

definition nested_repeat :: "string \<Rightarrow> bool" where
  "nested_repeat s \<longleftrightarrow>
     startswith s ''('' \<and>
     (let inner = takeWhile (\<lambda>c. c \<noteq> CHR '')'') (drop 1 s); rest = dropWhile (\<lambda>c. c \<noteq> CHR '')'') (drop 1 s)
      in list_ex (\<lambda>c. c = CHR ''+'' \<or> c = CHR ''*'') inner \<and>
         (startswith rest '')+'' \<or> startswith rest '')*''))"

fun catastrophic_regex :: "string \<Rightarrow> bool" where
  "catastrophic_regex [] \<longleftrightarrow> False"
| "catastrophic_regex (c # cs) \<longleftrightarrow>
     list_ex (startswith (c # cs)) [''(?:'', ''(+)'', ''(*)'', ''{,}'', ''(.+)+'', ''(.*)+''] \<or>
     repeated_class (c # cs) \<or> nested_repeat (c # cs) \<or> catastrophic_regex cs"

definition validate_regex_pattern :: "regex_engine \<Rightarrow> string \<Rightarrow> bool \<Rightarrow> py_exn + unit" where
  "validate_regex_pattern rx pat case_sensitive =
     (if MAX_REGEX_PATTERN_LEN < length pat then Inl (ValueError ''exceeds max length'')
      else if catastrophic_regex pat then Inl (ValueError ''catastrophic backtracking risk'')
      else if rx_compiles rx pat case_sensitive then Inr ()
      else Inl (ValueError ''Invalid regex''))"

text \<open>\<open>$&\<close> and \<open>$1\<close> become group references: a dollar and the longest run of digits after it.\<close>

function dollar_groups :: "string \<Rightarrow> string" where
  "dollar_groups [] = []"
| "dollar_groups (c # cs) =
     (if c = CHR ''$'' \<and> takeWhile is_digit cs \<noteq> []
      then BSL # ''g<'' @ takeWhile is_digit cs @ ''>'' @ dollar_groups (dropWhile is_digit cs)
      else c # dollar_groups cs)"
  by pat_completeness auto
termination
  by (relation "measure length") (auto simp: length_dropWhile_le le_imp_less_Suc)

definition translate_js_style_replacement :: "string \<Rightarrow> string" where
  "translate_js_style_replacement repl = dollar_groups (replace_sub ''$&'' (BSL # ''g<0>'') repl)"

definition apply_regex_pattern ::
  "regex_engine \<Rightarrow> string \<Rightarrow> string \<Rightarrow> string \<Rightarrow> bool \<Rightarrow> bool \<Rightarrow> py_exn + string \<times> nat" where
  "apply_regex_pattern rx text search replacement replace_all case_sensitive =
     (let repl_py = translate_js_style_replacement replacement
      in case validate_regex_pattern rx search case_sensitive of
           Inl e \<Rightarrow> Inl e
         | Inr _ \<Rightarrow>
             if replace_all then rx_subn rx search case_sensitive repl_py text
             else (case rx_search rx search case_sensitive text of
                     None \<Rightarrow> Inr (text, 0)
                   | Some (m_start, m_end) \<Rightarrow>
                       (case rx_sub_one rx search case_sensitive repl_py (slice m_start m_end text) of
                          Inl e \<Rightarrow> Inl e
                        | Inr replaced \<Rightarrow> Inr (take m_start text @ replaced @ drop m_end text, 1))))"

definition apply_case_sensitive_pattern :: "string \<Rightarrow> string \<Rightarrow> string \<Rightarrow> bool \<Rightarrow> string \<times> nat" where
  "apply_case_sensitive_pattern text search replacement replace_all =
     (if replace_all then (replace_sub search replacement text, count_sub search text)
      else case find_sub search text of
             None \<Rightarrow> (text, 0)
           | Some idx \<Rightarrow> (take idx text @ replacement @ drop (idx + length search) text, 1))"

text \<open>The \<open>while True\<close> loop: the text from position \<open>i\<close> on, and the number of replacements.\<close>

partial_function (option) ci_loop :: "string \<Rightarrow> string \<Rightarrow> string \<Rightarrow> string \<Rightarrow> nat \<Rightarrow> (string \<times> nat) option" where
  "ci_loop text low s replacement i =
     (case find_from s low i of
        None \<Rightarrow> Some (drop i text, 0)
      | Some j \<Rightarrow>
          Option.bind (ci_loop text low s replacement (j + length s))
            (\<lambda>(rest, n). Some (slice i j text @ replacement @ rest, n + 1)))"

declare ci_loop.simps [code]

definition apply_case_insensitive_pattern :: "string \<Rightarrow> string \<Rightarrow> string \<Rightarrow> bool \<Rightarrow> (string \<times> nat) option" where
  "apply_case_insensitive_pattern text search replacement replace_all =
     (let low = lower text; s = lower search
      in if replace_all then ci_loop text low s replacement 0
         else Some (case find_sub s low of
                      None \<Rightarrow> (text, 0)
                    | Some j \<Rightarrow> (take j text @ replacement @ drop (j + length search) text, 1)))"

definition apply_pattern ::
  "regex_engine \<Rightarrow> string \<Rightarrow> string \<Rightarrow> string \<Rightarrow> bool \<Rightarrow> bool \<Rightarrow> bool \<Rightarrow> (py_exn + string \<times> nat) option" where
  "apply_pattern rx text search replacement use_regex replace_all case_sensitive =
     (if use_regex then Some (apply_regex_pattern rx text search replacement replace_all case_sensitive)
      else if case_sensitive then Some (Inr (apply_case_sensitive_pattern text search replacement replace_all))
      else map_option Inr (apply_case_insensitive_pattern text search replacement replace_all))"

subsection \<open>The edit of one block\<close>

record edit_outcome =
  eo_ok :: bool
  eo_code :: string
  eo_dry_run :: bool
  eo_match_count :: nat
  eo_previews :: "(nat \<times> string \<times> string) list"
  eo_previous_size :: nat
  eo_current_size :: nat
  eo_lines_changed :: nat

definition empty_property_edit_failure :: "string \<Rightarrow> bool \<Rightarrow> nat \<Rightarrow> edit_outcome" where
  "empty_property_edit_failure code dry_run n =
     \<lparr>eo_ok = False, eo_code = code, eo_dry_run = dry_run, eo_match_count = 0, eo_previews = [],
      eo_previous_size = n, eo_current_size = n, eo_lines_changed = 0\<rparr>"

definition resolve_editable_page_path ::
  "world \<Rightarrow> path \<Rightarrow> string \<Rightarrow> bool \<Rightarrow> baseline option \<Rightarrow> edit_outcome + path \<times> baseline option" where
  "resolve_editable_page_path w groot page_ref dry_run baseline_mtime =
     (case graph_safe_page_path w groot page_ref of
        Inl _ \<Rightarrow> Inl (empty_property_edit_failure ''path_forbidden'' dry_run 0)
      | Inr p \<Rightarrow>
          if files w p = None then Inl (empty_property_edit_failure ''page_not_found'' dry_run 0)
          else let b = (case baseline_mtime of None \<Rightarrow> map_option IntBase (occ_snapshot w p) | Some v \<Rightarrow> Some v)
               in if (case b of None \<Rightarrow> False | Some v \<Rightarrow> file_mtime_drifted w p v)
                  then Inl (empty_property_edit_failure ''occ_conflict'' dry_run 0)
                  else Inr (p, b))"

definition property_line_indices :: "text_lines \<Rightarrow> nat \<Rightarrow> nat \<Rightarrow> nat list" where
  "property_line_indices lines a b = filter (\<lambda>i. is_logseq_block_property_line (lines ! i)) [a..<b]"

definition locate_editable_property_span ::
  "text_lines \<Rightarrow> nat set \<Rightarrow> string \<Rightarrow> bool \<Rightarrow> nat \<Rightarrow> edit_outcome + nat list" where
  "locate_editable_property_span stripped protected block_uuid dry_run previous_size =
     (case find_id_line_index stripped block_uuid of
        None \<Rightarrow> Inl (empty_property_edit_failure ''uuid_not_found'' dry_run previous_size)
      | Some id_idx \<Rightarrow>
          (case block_bullet_index stripped id_idx of
             None \<Rightarrow> Inl (empty_property_edit_failure ''malformed_block'' dry_run previous_size)
           | Some bullet_idx \<Rightarrow>
               (let prop_indices = property_line_indices stripped (bullet_idx + 1)
                                     (block_subtree_end stripped id_idx bullet_idx)
                in if prop_indices = [] then Inl (empty_property_edit_failure ''no_property_lines'' dry_run previous_size)
                   else if list_ex (\<lambda>li. li \<in> protected) prop_indices
                   then Inl (empty_property_edit_failure ''protected_fence'' dry_run previous_size)
                   else Inr prop_indices)))"

text \<open>The replacement loop; the accumulated results are the lines, previews and two counts.\<close>

fun replace_property_lines ::
  "(string \<Rightarrow> (py_exn + string \<times> nat) option) \<Rightarrow> nat list \<Rightarrow> text_lines \<times> (nat \<times> string \<times> string) list \<times> nat \<times> nat \<Rightarrow>
     (py_exn + text_lines \<times> (nat \<times> string \<times> string) list \<times> nat \<times> nat) option" where
  "replace_property_lines app [] acc = Some (Inr acc)"
| "replace_property_lines app (li # rest) (new_lines, previews, matches, changed) =
     (let original = new_lines ! li; core = strip_line_endings original
      in case app core of
           None \<Rightarrow> None
         | Some (Inl e) \<Rightarrow> Some (Inl e)
         | Some (Inr (new_core, mc)) \<Rightarrow>
             (let diff = 0 < mc \<and> new_core \<noteq> core
              in replace_property_lines app rest
                   (new_lines[li := new_core @ canonical_line_suffix original],
                    previews @ (if diff then [(li + 1, take 120 core, take 120 new_core)] else []),
                    matches + mc, changed + (if diff then 1 else 0))))"

definition check_match_count ::
  "bool \<Rightarrow> bool \<Rightarrow> nat \<Rightarrow> (nat \<times> string \<times> string) list \<Rightarrow> nat \<Rightarrow> edit_outcome option" where
  "check_match_count replace_all dry_run previous_size previews matches =
     (if matches = 0 then Some (empty_property_edit_failure ''no_match'' dry_run previous_size)
      else if \<not> replace_all \<and> 1 < matches then
        Some ((empty_property_edit_failure ''ambiguous_match'' dry_run previous_size)
                \<lparr>eo_match_count := matches, eo_previews := take 10 previews\<rparr>)
      else None)"

definition join_lines :: "text_lines \<Rightarrow> string" where
  "join_lines lines = concat (map (\<lambda>ln. strip_line_endings ln @ canonical_line_suffix ln) lines)"

definition text_lines_of :: "string \<Rightarrow> text_lines" where
  "text_lines_of text = (if splitlines_keep text = [] then [[]] else splitlines_keep text)"

text \<open>The part of the handler between the read and the write: the new text and the counts.\<close>

record edit_options =
  op_dry_run :: bool
  op_use_regex :: bool
  op_replace_all :: bool
  op_case_sensitive :: bool

definition plan_property_edit ::
  "regex_engine \<Rightarrow> string \<Rightarrow> string \<Rightarrow> string \<Rightarrow> string \<Rightarrow> edit_options \<Rightarrow>
     (py_exn + edit_outcome + string \<times> (nat \<times> string \<times> string) list \<times> nat \<times> nat) option" where
  "plan_property_edit rx text block_uuid search replacement opts =
     (let dry_run = op_dry_run opts; previous_size = utf8_len text; lines = text_lines_of text
      in if op_use_regex opts \<and> \<not> rx_compiles rx search (op_case_sensitive opts)
         then Some (Inr (Inl (empty_property_edit_failure ''invalid_regex'' dry_run previous_size)))
         else case locate_editable_property_span (strip_lines_for_match lines)
                     (compute_page_protected_line_indices text) block_uuid dry_run previous_size of
           Inl failure \<Rightarrow> Some (Inr (Inl failure))
         | Inr prop_indices \<Rightarrow>
             (case replace_property_lines (\<lambda>core. apply_pattern rx core search replacement (op_use_regex opts)
                       (op_replace_all opts) (op_case_sensitive opts)) prop_indices (lines, [], 0, 0) of
                None \<Rightarrow> None
              | Some (Inl e) \<Rightarrow> Some (Inl e)
              | Some (Inr (new_lines, previews, matches, changed)) \<Rightarrow>
                  (case check_match_count (op_replace_all opts) dry_run previous_size previews matches of
                     Some failure \<Rightarrow> Some (Inr (Inl failure))
                   | None \<Rightarrow> Some (Inr (Inr (join_lines new_lines, previews, matches, changed))))))"

subsection \<open>Locking, backing up and committing a page\<close>

text \<open>
  The edits by other programs that land while a handler runs: while it waits for the page
  lock (\<open>None\<close>: the lock stays taken and the wait fails), between its read and the backup
  copy, and between the backup copy and the conditional write.
\<close>

record interference =
  il_lock :: "edit list option"
  il_copy :: "edit list"
  il_write :: "edit list"

definition page_rmw_lock :: "path \<Rightarrow> edit list option \<Rightarrow> world \<Rightarrow> py_exn + world" where
  "page_rmw_lock page_path waiting w =
     (case guard_graph_mutation_from_env (resolve w) (env_read_only w) (env_graph w) page_path of
        Inl e \<Rightarrow> Inl (PolicyError e)
      | Inr _ \<Rightarrow> (case waiting of None \<Rightarrow> Inl OsError | Some es \<Rightarrow> Inr (apply_edits es w)))"

text \<open>\<open>path.with_suffix(path.suffix + ".bak")\<close> and \<open>shutil.copy2\<close>, which keeps the modification time.\<close>

definition backup_path :: "path \<Rightarrow> path" where
  "backup_path p = butlast p @ [last p @ ''.bak'']"

definition copy2 :: "path \<Rightarrow> path \<Rightarrow> world \<Rightarrow> world option" where
  "copy2 p q w =
     (case stat_file w p of
        None \<Rightarrow> None
      | Some f \<Rightarrow> Some (w\<lparr>files := (files w)(resolved w q \<mapsto> f)\<rparr>))"

text \<open>\<open>True\<close>: the page was written; \<open>False\<close>: the write was refused as a conflict.\<close>

definition commit_with_backup ::
  "path \<Rightarrow> string \<Rightarrow> path \<Rightarrow> baseline option \<Rightarrow> string option \<Rightarrow> interference \<Rightarrow> world \<Rightarrow> world \<times> (py_exn + bool)" where
  "commit_with_backup p new_text groot baseline_mtime summary il w =
     (let w1 = apply_edits (il_copy il) w
      in case copy2 p (backup_path p) w1 of
           None \<Rightarrow> (w1, Inl OsError)
         | Some w2 \<Rightarrow>
             (case (case baseline_mtime of Some v \<Rightarrow> Some v | None \<Rightarrow> map_option IntBase (read_file_mtime_ns w2 p)) of
                None \<Rightarrow> (w2, Inr False)
              | Some write_mtime \<Rightarrow>
                  atomic_write_bytes_if_unchanged p new_text groot write_mtime True summary
                    (apply_edits (il_write il) w2)))"

text \<open>The end of the handler, under the lock: the dry run, or backup and conditional write.\<close>

definition finish_property_edit ::
  "path \<Rightarrow> path \<Rightarrow> baseline option \<Rightarrow> bool \<Rightarrow> nat \<Rightarrow> interference \<Rightarrow>
     string \<times> (nat \<times> string \<times> string) list \<times> nat \<times> nat \<Rightarrow> world \<Rightarrow> world \<times> (py_exn + edit_outcome)" where
  "finish_property_edit p groot baseline_mtime dry_run previous_size il planned w =
     (let (new_text, previews, matches, changed) = planned;
          outcome = (\<lambda>ok code size_after n.
            \<lparr>eo_ok = ok, eo_code = code, eo_dry_run = dry_run, eo_match_count = matches,
             eo_previews = take 20 previews, eo_previous_size = previous_size,
             eo_current_size = size_after, eo_lines_changed = n\<rparr>)
      in if dry_run then (w, Inr (outcome True ''dry_run_ok'' (utf8_len new_text) changed))
         else case commit_with_backup p new_text groot baseline_mtime (Some ''edited block properties'') il w of
           (w2, Inl e) \<Rightarrow> (w2, Inl e)
         | (w2, Inr False) \<Rightarrow> (w2, Inr (outcome False ''occ_conflict'' previous_size 0))
         | (w2, Inr True) \<Rightarrow>
             (case stat_file w2 p of
                None \<Rightarrow> (w2, Inl OsError)
              | Some g \<Rightarrow> (w2, Inr (outcome True ''applied'' (utf8_len (body g)) changed))))"

definition edit_block_property_lines ::
  "regex_engine \<Rightarrow> path \<Rightarrow> string \<Rightarrow> string \<Rightarrow> string \<Rightarrow> string \<Rightarrow> edit_options \<Rightarrow> baseline option \<Rightarrow>
     interference \<Rightarrow> world \<Rightarrow> (world \<times> (py_exn + edit_outcome)) option" where
  "edit_block_property_lines rx graph_root page_ref block_uuid search replacement opts baseline il w =
     (let groot = resolved w graph_root; dry_run = op_dry_run opts
      in case resolve_editable_page_path w groot page_ref dry_run baseline of
           Inl failure \<Rightarrow> Some (w, Inr failure)
         | Inr (p, baseline_mtime) \<Rightarrow>
             (case page_rmw_lock p (il_lock il) w of
                Inl e \<Rightarrow> Some (w, Inl e)
              | Inr w1 \<Rightarrow>
                  (case stat_file w1 p of
                     None \<Rightarrow> Some (w1, Inl OsError)
                   | Some f \<Rightarrow>
                       (case plan_property_edit rx (body f) block_uuid search replacement opts of
                          None \<Rightarrow> None
                        | Some (Inl e) \<Rightarrow> Some (w1, Inl e)
                        | Some (Inr (Inl failure)) \<Rightarrow> Some (w1, Inr failure)
                        | Some (Inr (Inr planned)) \<Rightarrow>
                            Some (finish_property_edit p groot baseline_mtime dry_run
                                    (utf8_len (body f)) il planned w1)))))"

subsection \<open>The replacement loops\<close>

lemma find_from_Some: "find_from p s i = Some j \<Longrightarrow> i \<le> j \<and> j + length p \<le> length s"
  using find_sub_Some by (fastforce simp: find_from_def split: if_splits)

lemma ci_loop_returns: "s \<noteq> [] \<Longrightarrow> ci_loop text low s replacement i \<noteq> None"
proof (induction "length low - i" arbitrary: i rule: less_induct)
  case less
  show ?case
  proof (cases "find_from s low i")
    case (Some j)
    then have "length low - (j + length s) < length low - i"
      using find_from_Some [OF Some] less.prems by (cases s) auto
    then obtain q where "ci_loop text low s replacement (j + length s) = Some q"
      using less.hyps less.prems by blast
    with Some show ?thesis by (subst ci_loop.simps) (simp split: prod.splits)
  qed (subst ci_loop.simps, simp)
qed

text \<open>An empty search text makes the loop of the source run forever.\<close>

lemma find_from_empty: "i \<le> length s \<Longrightarrow> find_from [] s i = Some i"
  by (cases "drop i s") (simp_all add: find_from_def)

lemma apply_pattern_returns:
  "use_regex \<or> case_sensitive \<or> \<not> replace_all \<or> search \<noteq> [] \<Longrightarrow>
     apply_pattern rx text search replacement use_regex replace_all case_sensitive \<noteq> None"
  using ci_loop_returns [of "lower search" "text"]
  by (auto simp: apply_pattern_def apply_case_insensitive_pattern_def Let_def) (auto simp: lower_def)

lemma replace_lines_returns:
  "(\<And>core. app core \<noteq> None) \<Longrightarrow> replace_property_lines app is acc \<noteq> None"
proof (induction "is" arbitrary: acc)
  case (Cons li rest)
  obtain new_lines previews matches changed where acc: "acc = (new_lines, previews, matches, changed)"
    by (cases acc) auto
  show ?case using Cons by (auto simp: acc Let_def split: option.splits sum.splits)
qed simp

lemma split_sub_find:
  "p \<noteq> [] \<Longrightarrow> split_sub p s = (case find_sub p s of None \<Rightarrow> [s] | Some i \<Rightarrow> take i s # split_sub p (drop (i + length p) s))"
  by (subst split_sub.simps) simp

text \<open>On a text and a pattern in lower case the case-insensitive loop is \<open>str.replace\<close>.\<close>

lemma ci_loop_replace:
  "s \<noteq> [] \<Longrightarrow> i \<le> length text \<Longrightarrow> ci_loop text text s r i = Some (join r (split_sub s (drop i text)), length (split_sub s (drop i text)) - 1)"
proof (induction "length text - i" arbitrary: i rule: less_induct)
  case less
  show ?case
  proof (cases "find_sub s (drop i text)")
    case None
    then show ?thesis
      using less.prems by (subst ci_loop.simps) (simp add: find_from_def split_sub_find)
  next
    case (Some k)
    then have ff: "find_from s text i = Some (i + k)" using less.prems by (simp add: find_from_def)
    have le: "i + k + length s \<le> length text" using find_from_Some [OF ff] by simp
    let ?i = "i + k + length s"
    have "length text - ?i < length text - i" using le less.prems(1) by (cases s) auto
    then have IH: "ci_loop text text s r ?i =
        Some (join r (split_sub s (drop ?i text)), length (split_sub s (drop ?i text)) - 1)"
      using less.hyps less.prems(1) le by blast
    obtain y ys where ys: "split_sub s (drop ?i text) = y # ys" by (cases "split_sub s (drop ?i text)") auto
    have "split_sub s (drop i text) = take k (drop i text) # y # ys"
      using split_sub_find [OF less.prems(1), of "drop i text"] Some ys by (simp add: add.commute add.left_commute)
    then show ?thesis
      using ff IH ys by (subst ci_loop.simps) (simp add: slice_def)
  qed
qed

lemma case_insensitive_lower:
  assumes "lower text = text" and "lower search = search" and "search \<noteq> []"
  shows "apply_case_insensitive_pattern text search r replace_all = Some (apply_case_sensitive_pattern text search r replace_all)"
  using assms ci_loop_replace [of search 0 "text" r]
  by (auto simp: apply_case_insensitive_pattern_def apply_case_sensitive_pattern_def Let_def
      replace_sub_def count_sub_def split: option.splits)

subsection \<open>What a planned edit changes\<close>

lemma replace_lines_frame:
  assumes "replace_property_lines app is (nl, pv, m, c) = Some (Inr (nl', pv', m', c'))" and "distinct is"
    and "\<forall>i \<in> set is. i < length nl"
  shows "length nl' = length nl \<and> (\<forall>k. k \<notin> set is \<longrightarrow> nl' ! k = nl ! k) \<and>
    (\<forall>k \<in> set is. \<exists>x mc. app (strip_line_endings (nl ! k)) = Some (Inr (x, mc)) \<and>
       nl' ! k = x @ canonical_line_suffix (nl ! k))"
  using assms
proof (induction "is" arbitrary: nl pv m c)
  case (Cons li rest)
  obtain x mc where app: "app (strip_line_endings (nl ! li)) = Some (Inr (x, mc))"
    using Cons.prems by (auto simp: Let_def split: option.splits sum.splits)
  let ?nl = "nl[li := x @ canonical_line_suffix (nl ! li)]"
  have "\<exists>pv2 m2 c2. replace_property_lines app rest (?nl, pv2, m2, c2) = Some (Inr (nl', pv', m', c'))"
    using Cons.prems(1) app by (auto simp: Let_def)
  then obtain pv2 m2 c2 where r: "replace_property_lines app rest (?nl, pv2, m2, c2) = Some (Inr (nl', pv', m', c'))"
    by blast
  have IH: "length nl' = length ?nl \<and> (\<forall>k. k \<notin> set rest \<longrightarrow> nl' ! k = ?nl ! k) \<and>
    (\<forall>k \<in> set rest. \<exists>x mc. app (strip_line_endings (?nl ! k)) = Some (Inr (x, mc)) \<and>
       nl' ! k = x @ canonical_line_suffix (?nl ! k))"
    using Cons.prems by (intro Cons.IH [OF r]) auto
  have "?nl ! k = nl ! k" if "k \<in> set rest" for k
    using that Cons.prems(2) by (metis distinct.simps(2) nth_list_update_neq)
  with IH app Cons.prems show ?case by (auto simp: nth_list_update)
qed simp

lemma check_match_count_None:
  "check_match_count replace_all dry_run n pv m = None \<longleftrightarrow> 0 < m \<and> (replace_all \<or> m = 1)"
  by (auto simp: check_match_count_def)

lemma lower_char_colon: "lower_char c = CHR '':'' \<longleftrightarrow> c = CHR '':''"
proof
  assume l: "lower_char c = CHR '':''"
  show "c = CHR '':''"
  proof (cases "(65 \<le> code_of c \<and> code_of c \<le> 90) \<or> (192 \<le> code_of c \<and> code_of c \<le> 222 \<and> code_of c \<noteq> 215)")
    case True
    then have "code_of (lower_char c) = code_of c + 32"
      by (auto simp: lower_char_def Let_def code_of_def)
    then show ?thesis using l True by (auto simp: code_of_def)
  next
    case False
    then show ?thesis using l unfolding lower_char_def Let_def by (simp only: if_False)
  qed
qed (simp add: lower_char_def code_of_def)

lemma space_lower: "py_space c \<Longrightarrow> lower_char c \<noteq> CHR ''d''"
  by (auto simp: py_space_def lower_char_def code_of_def)

lemma two_chars_key: "lower [a, b] = ''id'' \<Longrightarrow> \<not> py_space a \<Longrightarrow> \<not> py_space b \<Longrightarrow> normalize_logseq_property_key [a, b] = ''id''"
  by (auto simp: normalize_logseq_property_key_def strip_id casefold_def fold_char_def lower_def lower_char_def
      code_of_def split: if_splits)

lemma id_line_no_property: "id_line_for u l \<Longrightarrow> \<not> is_logseq_block_property_line (strip_line_endings l)"
proof
  assume id: "id_line_for u l" and pr: "is_logseq_block_property_line (strip_line_endings l)"
  let ?s = "strip_line_endings l"
  obtain p where p: "parse_logseq_property_line ?s = Some p" using pr by (auto simp: is_logseq_block_property_line_def)
  have r: "rstrip_by is_eol ?s = ?s" by (simp add: strip_line_endings_def)
  show False
  proof (rule parse_property_elim [OF p], unfold r)
    fix t
    assume s: "?s = pl_indent p @ pl_key_raw p @ t @ ''::'' @ pl_sep_after_colons p @ pl_value_raw p"
      and a: "list_all py_space (pl_indent p)" "list_all py_space t" "CHR '':'' \<notin> set (pl_indent p @ pl_key_raw p)"
        "pl_key_raw p \<noteq> []" "\<not> py_space (hd (pl_key_raw p))" "\<not> py_space (last (pl_key_raw p))"
        "pl_key_normalized p = normalize_logseq_property_key (pl_key_raw p)" "pl_key_normalized p \<noteq> ''id''"
    define X where "X = CHR '':'' # pl_sep_after_colons p @ pl_value_raw p"
    have ls: "lstrip ?s = pl_key_raw p @ t @ CHR '':'' # X"
      unfolding s X_def using a(1,4,5) by (simp add: lstrip_by_append_all lstrip_by_id)
    have four: "length ''id::'' = 4" by simp
    from ls have "startswith (lower (pl_key_raw p @ t @ CHR '':'' # X)) ''id::''"
      using id by (simp only: id_line_for_def Let_def)
    then have st: "take 4 (map lower_char (pl_key_raw p @ t @ CHR '':'' # X)) = ''id::''"
      by (simp only: startswith_def lower_def four)
    show False
    proof (cases "pl_key_raw p")
      case (Cons k1 ks)
      show False
      proof (cases ks)
        case Nil
        then show False using st Cons a(2) space_lower lower_char_colon [of "CHR '':''"]
            by (cases t) (auto simp: lower_char_colon)
      next
        case k2: (Cons k2 ks2)
        then have "ks2 = []" using st Cons a(3) by (cases ks2) (auto simp: lower_char_colon)
        then have "pl_key_raw p = [k1, k2]" "lower [k1, k2] = ''id''" using Cons k2 st by (auto simp: lower_def)
        then show False using two_chars_key [of k1 k2] a by auto
      qed
    qed (use a(4) in simp)
  qed
qed

lemma plan_frame:
  assumes "plan_property_edit rx text u search r opts = Some (Inr (Inr (new_text, pv, m, c)))"
  shows "\<exists>b i e nl. block_at (text_lines_of text) u b i e \<and> new_text = join_lines nl \<and>
    length nl = length (text_lines_of text) \<and> 0 < m \<and> (op_replace_all opts \<or> m = 1) \<and>
    (\<forall>k < length nl. nl ! k = text_lines_of text ! k \<or>
       (b < k \<and> k < e \<and> is_logseq_block_property_line (strip_line_endings (text_lines_of text ! k)) \<and>
        k \<notin> compute_page_protected_line_indices text))"
proof -
  let ?L = "text_lines_of text"
  let ?S = "strip_lines_for_match ?L"
  obtain "is" nl where span: "locate_editable_property_span ?S (compute_page_protected_line_indices text) u
      (op_dry_run opts) (utf8_len text) = Inr is"
    and rep: "replace_property_lines (\<lambda>core. apply_pattern rx core search r (op_use_regex opts)
       (op_replace_all opts) (op_case_sensitive opts)) is (?L, [], 0, 0) = Some (Inr (nl, pv, m, c))"
    and mc: "check_match_count (op_replace_all opts) (op_dry_run opts) (utf8_len text) pv m = None"
    and nt: "new_text = join_lines nl"
    using assms by (auto simp: plan_property_edit_def Let_def split: if_splits sum.splits option.splits)
  obtain i b where i: "find_id_line_index ?S u = Some i" and b: "block_bullet_index ?S i = Some b"
    and idx: "is = property_line_indices ?S (b + 1) (block_subtree_end ?S i b)"
    and prot: "\<forall>k \<in> set is. k \<notin> compute_page_protected_line_indices text"
    using span by (auto simp: locate_editable_property_span_def Let_def list_ex_iff split: option.splits if_splits)
  let ?e = "block_subtree_end ?S i b"
  have ba: "block_at ?L u b i ?e"
    using i b by (intro locate_block_at) (simp add: locate_block_by_uuid_def Let_def)
  then have e: "?e \<le> length ?L" by (simp add: block_at_def)
  have mem: "k \<in> set is \<longleftrightarrow> b < k \<and> k < ?e \<and> is_logseq_block_property_line (strip_line_endings (?L ! k))" for k
    using e by (auto simp: idx property_line_indices_def)
  have "distinct is" by (simp add: idx property_line_indices_def)
  moreover have "\<forall>k \<in> set is. k < length ?L" using mem e by auto
  ultimately have fr: "length nl = length ?L" "\<forall>k. k \<notin> set is \<longrightarrow> nl ! k = ?L ! k"
    using replace_lines_frame [OF rep] by blast+
  have "0 < m \<and> (op_replace_all opts \<or> m = 1)" using mc by (simp add: check_match_count_None)
  then show ?thesis using ba nt fr mem prot by (intro exI [of _ b] exI [of _ i] exI [of _ ?e] exI [of _ nl]) metis
qed

subsection \<open>The handler as one atomic step\<close>

lemma commit_with_backup_True:
  assumes "commit_with_backup p t groot (Some (IntBase (mtime f))) s il w1 = (w', Inr True)"
    and "later p w0 w1" and "clock_ok w0" and "files w0 p = Some f" and "1000000000000 \<le> mtime f"
    and "resolved w0 p = p" and "resolved w0 (backup_path p) \<noteq> p"
  shows "files w1 p = Some f \<and> (\<exists>t'. files w' p = Some \<lparr>body = t, mtime = t'\<rparr>)"
proof -
  let ?w1 = "apply_edits (il_copy il) w1"
  obtain w2 where w2: "copy2 p (backup_path p) ?w1 = Some w2"
    and wr: "atomic_write_bytes_if_unchanged p t groot (IntBase (mtime f)) True s (apply_edits (il_write il) w2) = (w', Inr True)"
    using assms(1) by (auto simp: commit_with_backup_def Let_def split: option.splits)
  have res: "resolved w1 q = resolved w0 q" for q using assms(2) by (auto simp: later_def intro: resolved_cong)
  have "later p ?w1 w2"
    using w2 assms(7) res by (auto simp: copy2_def later_unrelated split: option.splits)
  then have l: "later p w1 (apply_edits (il_write il) w2)" by (meson later_edits later_trans)
  have fin: "files (apply_edits (il_write il) w2) p = Some f" "\<exists>t'. files w' p = Some \<lparr>body = t, mtime = t'\<rparr>"
    using cond_write.write_serialised [OF wr, of w0] later_trans [OF assms(2) l] assms(3-6) by auto
  have "mtime f < clock w0" using assms(3,4) by (auto simp: clock_ok_def)
  then have "files w1 p = files w0 p"
    using l fin(1) assms(2,4) by (auto simp: later_def)
  with fin assms(4) show ?thesis by simp
qed

lemma plan_failure_code:
  "plan_property_edit rx text u search r opts = Some (Inr (Inl failure)) \<Longrightarrow> eo_code failure \<noteq> ''applied''"
  by (auto simp: plan_property_edit_def Let_def locate_editable_property_span_def check_match_count_def
      empty_property_edit_failure_def split: if_splits sum.splits option.splits)

lemma resolve_failure_code:
  "resolve_editable_page_path w groot ref d b = Inl failure \<Longrightarrow> eo_code failure \<noteq> ''applied''"
  by (auto simp: resolve_editable_page_path_def Let_def empty_property_edit_failure_def
      split: if_splits sum.splits option.splits)

lemma finish_applied:
  "finish_property_edit p groot b d n il (new_text, pv, m, c) w = (w', Inr out) \<Longrightarrow> eo_code out = ''applied'' \<Longrightarrow>
     commit_with_backup p new_text groot b (Some ''edited block properties'') il w = (w', Inr True)"
  by (auto simp: finish_property_edit_def Let_def split: if_splits prod.splits sum.splits bool.splits option.splits)

lemma page_rmw_lock_later: "page_rmw_lock p waiting w = Inr w1 \<Longrightarrow> later q w w1"
  by (auto simp: page_rmw_lock_def split: sum.splits option.splits)

lemma edit_applied_cases:
  assumes "edit_block_property_lines rx groot ref u search r opts b il w = Some (w', Inr out)"
    and "eo_code out = ''applied''"
  obtains p bm w1 g new_text pv m c where
    "resolve_editable_page_path w (resolved w groot) ref (op_dry_run opts) b = Inr (p, bm)"
    "page_rmw_lock p (il_lock il) w = Inr w1" "stat_file w1 p = Some g"
    "plan_property_edit rx (body g) u search r opts = Some (Inr (Inr (new_text, pv, m, c)))"
    "commit_with_backup p new_text (resolved w groot) bm (Some ''edited block properties'') il w1 = (w', Inr True)"
proof (cases "resolve_editable_page_path w (resolved w groot) ref (op_dry_run opts) b")
  case (Inl failure)
  then show ?thesis using assms resolve_failure_code [OF Inl] by (auto simp: edit_block_property_lines_def Let_def)
next
  case (Inr q)
  then obtain p bm where res: "resolve_editable_page_path w (resolved w groot) ref (op_dry_run opts) b = Inr (p, bm)"
    by (cases q) auto
  obtain w1 where lock: "page_rmw_lock p (il_lock il) w = Inr w1"
    using assms(1) res by (cases "page_rmw_lock p (il_lock il) w") (simp_all add: edit_block_property_lines_def Let_def)
  obtain g where "stat_file w1 p = Some g"
    using assms(1) res lock by (cases "stat_file w1 p") (simp_all add: edit_block_property_lines_def Let_def)
  note w1 = lock this
  have e: "(case plan_property_edit rx (body g) u search r opts of None \<Rightarrow> None | Some (Inl e) \<Rightarrow> Some (w1, Inl e)
     | Some (Inr (Inl failure)) \<Rightarrow> Some (w1, Inr failure)
     | Some (Inr (Inr planned)) \<Rightarrow> Some (finish_property_edit p (resolved w groot) bm (op_dry_run opts)
         (utf8_len (body g)) il planned w1)) = Some (w', Inr out)"
    using assms(1) res w1 by (simp add: edit_block_property_lines_def Let_def)
  then obtain planned where pl: "plan_property_edit rx (body g) u search r opts = Some (Inr (Inr planned))"
    using assms(2) plan_failure_code [of rx "body g" u search r opts] by (auto split: option.splits sum.splits)
  obtain new_text pv m c where pd: "planned = (new_text, pv, m, c)" by (cases planned) auto
  have "finish_property_edit p (resolved w groot) bm (op_dry_run opts) (utf8_len (body g)) il
      (new_text, pv, m, c) w1 = (w', Inr out)"
    using e unfolding pl pd by simp
  then show ?thesis
    using that [OF res w1] pl pd finish_applied [OF _ assms(2)] by blast
qed

lemma edit_serialised:
  assumes "edit_block_property_lines rx groot ref u search r opts None il w = Some (w', Inr out)"
    and "eo_code out = ''applied''"
    and "graph_safe_page_path w (resolved w groot) ref = Inr p" and "resolved w p = p"
    and "resolved w (backup_path p) \<noteq> p" and "files w p = Some f" and "clock_ok w" and "1000000000000 \<le> mtime f"
  shows "\<exists>new_text pv m c t. plan_property_edit rx (body f) u search r opts = Some (Inr (Inr (new_text, pv, m, c))) \<and>
    files w' p = Some \<lparr>body = new_text, mtime = t\<rparr>"
proof -
  have base: "occ_snapshot w p = Some (mtime f)"
    using assms(4,6) by (simp add: occ_snapshot_def read_file_mtime_ns_def stat_file_def)
  have res: "resolve_editable_page_path w (resolved w groot) ref (op_dry_run opts) None = Inr (p, Some (IntBase (mtime f)))"
    using assms(3,4,6,8) base by (simp add: resolve_editable_page_path_def Let_def drifted_ns)
  obtain p2 bm w1 g new_text pv m c where
    r2: "resolve_editable_page_path w (resolved w groot) ref (op_dry_run opts) None = Inr (p2, bm)"
    and lock: "page_rmw_lock p2 (il_lock il) w = Inr w1" and st2: "stat_file w1 p2 = Some g"
    and plan: "plan_property_edit rx (body g) u search r opts = Some (Inr (Inr (new_text, pv, m, c)))"
    and com2: "commit_with_backup p2 new_text (resolved w groot) bm (Some ''edited block properties'') il w1 = (w', Inr True)"
    by (rule edit_applied_cases [OF assms(1,2)])
  have p2: "p2 = p" "bm = Some (IntBase (mtime f))" using r2 res by simp_all
  note st = st2 [unfolded p2] and com = com2 [unfolded p2]
  have l: "later p w w1" by (rule page_rmw_lock_later [OF lock])
  have "resolved w1 p = p" using l assms(4) by (auto simp: later_def resolved_def)
  then have "g = f"
    using st commit_with_backup_True [OF com l assms(7,6,8,4,5)] by (simp add: stat_file_def)
  then show ?thesis
    using plan commit_with_backup_True [OF com l assms(7,6,8,4,5)] by blast
qed

lemma plan_returns:
  "op_use_regex opts \<or> op_case_sensitive opts \<or> \<not> op_replace_all opts \<or> search \<noteq> [] \<Longrightarrow>
     plan_property_edit rx text u search r opts \<noteq> None"
proof -
  assume "op_use_regex opts \<or> op_case_sensitive opts \<or> \<not> op_replace_all opts \<or> search \<noteq> []"
  then have "replace_property_lines (\<lambda>core. apply_pattern rx core search r (op_use_regex opts)
       (op_replace_all opts) (op_case_sensitive opts)) is acc \<noteq> None" for "is" acc
    by (intro replace_lines_returns apply_pattern_returns) auto
  then show ?thesis
    by (auto simp: plan_property_edit_def Let_def split: option.splits sum.splits prod.splits)
       (metis option.distinct(1))+
qed

lemma edit_returns:
  assumes "op_use_regex opts \<or> op_case_sensitive opts \<or> \<not> op_replace_all opts \<or> search \<noteq> []"
  shows "edit_block_property_lines rx groot ref u search r opts b il w \<noteq> None"
  using plan_returns [OF assms]
  by (auto simp: edit_block_property_lines_def Let_def split: option.splits sum.splits)
     (metis option.distinct(1))

lemma edit_dry_run:
  assumes "edit_block_property_lines rx groot ref u search r opts b il w = Some (w', out)" and "op_dry_run opts"
  shows "w' = w \<or> (\<exists>es. il_lock il = Some es \<and> w' = apply_edits es w)"
proof -
  have fin: "finish_property_edit p g bm True n il pl w1 = (w2, o2) \<Longrightarrow> w2 = w1" for p g bm n pl w1 w2 o2
    by (cases pl) (auto simp: finish_property_edit_def)
  consider "w' = w" | w1 p where "page_rmw_lock p (il_lock il) w = Inr w1" "w' = w1"
  proof (cases "resolve_editable_page_path w (resolved w groot) ref True b")
    case (Inl failure)
    then show thesis using assms that by (simp add: edit_block_property_lines_def Let_def)
  next
    case (Inr q)
    obtain p bm where q: "q = (p, bm)" by (cases q)
    show thesis
    proof (cases "page_rmw_lock p (il_lock il) w")
      case (Inl e)
      then show thesis using assms that Inr q by (simp add: edit_block_property_lines_def Let_def)
    next
      case lock: (Inr w1)
      have "w' = w1"
        using assms Inr q lock fin
        by (auto simp: edit_block_property_lines_def Let_def split: option.splits sum.splits)
      then show thesis using that(2) lock by blast
    qed
  qed
  then show ?thesis by cases (auto simp: page_rmw_lock_def split: sum.splits option.splits)
qed

subsection \<open>Properties\<close>

text \<open>A pattern engine for the witnesses, which do not use patterns.\<close>

definition no_regex :: regex_engine where
  "no_regex = \<lparr>rx_compiles = (\<lambda>_ _. False), rx_search = (\<lambda>_ _ _. None),
     rx_subn = (\<lambda>_ _ _ t. Inr (t, 0)), rx_sub_one = (\<lambda>_ _ _ t. Inr t)\<rparr>"

definition example_page :: string where
  "example_page = join [LF] [''- a'', ''  id:: u1'', ''  k:: v v'', ''  text'']"

definition example_edit :: "interference \<Rightarrow> (world \<times> (py_exn + edit_outcome)) option" where
  "example_edit il = edit_block_property_lines no_regex [''g''] ''A'' ''u1'' ''V'' ''w''
     \<lparr>op_dry_run = False, op_use_regex = False, op_replace_all = True, op_case_sensitive = False\<rparr>
     None il (example_world example_page '''')"







text \<open>
  A dry run writes nothing: the store after the call is the store before it, up to what
  other programs wrote while the call waited for the page lock.
\<close>

theorem property_edit_dry_run:
  assumes "edit_block_property_lines rx groot ref u search r opts b il w = Some (w', out)" and "op_dry_run opts"
  shows "w' = w \<or> (\<exists>es. il_lock il = Some es \<and> w' = apply_edits es w)"
  using edit_dry_run [OF assms] .

lemma property_edit_dry_run_witness:
  "\<exists>w' out. edit_block_property_lines no_regex [''g''] ''A'' ''u1'' ''v'' ''w'' \<lparr>op_dry_run = True, op_use_regex = False,
       op_replace_all = True, op_case_sensitive = True\<rparr> None \<lparr>il_lock = None, il_copy = [], il_write = []\<rparr>
       (example_world example_page '''') = Some (w', out) \<and> w' = example_world example_page ''''"
proof -
  let ?opts = "\<lparr>op_dry_run = True, op_use_regex = False, op_replace_all = True, op_case_sensitive = True\<rparr>"
  let ?e = "edit_block_property_lines no_regex [''g''] ''A'' ''u1'' ''v'' ''w'' ?opts None
     \<lparr>il_lock = None, il_copy = [], il_write = []\<rparr> (example_world example_page '''')"
  obtain w' out where e: "?e = Some (w', out)"
    using edit_returns [of ?opts "''v''"] by fastforce
  then show ?thesis using property_edit_dry_run [OF e] by simp
qed

text \<open>
  On text and search text in lower case the case-insensitive replacement loop agrees with
  \<open>str.replace\<close> and \<open>str.count\<close>, for one replacement as for all.
\<close>

theorem case_insensitive_equiv:
  assumes "lower text = text" and "lower search = search" and "search \<noteq> []"
  shows "apply_case_insensitive_pattern text search r replace_all =
    Some (apply_case_sensitive_pattern text search r replace_all)"
  using case_insensitive_lower [OF assms] by simp

lemma case_insensitive_equiv_witness:
  "apply_case_insensitive_pattern ''k:: ab ab'' ''ab'' ''w'' True = Some (''k:: w w'', 2)"
  using case_insensitive_equiv [of "''k:: ab ab''" "''ab''" "''w''" True] by code_simp

text \<open>
  Two behaviours of the code that its documentation does not state: the edit reaches the
  property lines of child blocks, and every line end of the page becomes a line feed.
\<close>

lemma edit_reaches_child_blocks:
  "(case plan_property_edit no_regex (concat [''- a'', [CR, LF], ''  id:: u1'', [CR, LF], ''  - b'', [CR, LF], ''    k:: v''])
       ''u1'' ''v'' ''w'' \<lparr>op_dry_run = False, op_use_regex = False, op_replace_all = True, op_case_sensitive = True\<rparr> of
      Some (Inr (Inr (t, _))) \<Rightarrow> t = join [LF] [''- a'', ''  id:: u1'', ''  - b'', ''    k:: w''] | _ \<Rightarrow> False)"
  by code_simp

end
