(* ===== verification/Reparent.thy ===== *)
theory Reparent
  imports PropEdit "HOL-Library.Multiset" "HOL-Library.Product_Lexorder"
begin

section \<open>Moving sibling blocks under new category bullets\<close>

text \<open>
  Model of \<open>src/graph/reparent_blocks.py\<close>. The groups are JSON values: a group is \<open>None\<close> when it
  is not an object, and its list of UUIDs is \<open>None\<close> when it is not a list; their items are the
  texts \<open>str\<close> gives. The fresh UUIDs of \<open>uuid.uuid4\<close> are the parameter \<open>fresh\<close>. The plan is the
  part of the handler between the read and the write; its result is the new page as the list
  of chunks that the code concatenates.
\<close>

type_synonym json_group = "(string \<times> string list option) option"

subsection \<open>Shifting a subtree\<close>

definition strip_lf :: "string \<Rightarrow> string" where
  "strip_lf line = rstrip_by (\<lambda>c. c = LF) line"

definition is_indent :: "char \<Rightarrow> bool" where
  "is_indent c \<longleftrightarrow> c = CHR '' '' \<or> c = TAB"

definition leading_ws_len :: "string \<Rightarrow> string \<times> nat" where
  "leading_ws_len line = (let ws = takeWhile is_indent line in (ws, length ws))"

definition shift_line :: "int \<Rightarrow> string \<Rightarrow> string" where
  "shift_line delta line =
     (let core = strip_lf line; nl = drop (length core) line
      in if strip core = [] then line
         else let (ws, wlen) = leading_ws_len core
              in if 0 < delta then replicate (nat delta) (CHR '' '') @ core @ nl
                 else (let n = min (nat (- delta)) (length ws) in drop n ws @ drop wlen core @ nl))"

definition shift_block_lines :: "text_lines \<Rightarrow> int \<Rightarrow> text_lines" where
  "shift_block_lines subtree delta_spaces =
     (if delta_spaces = 0 then subtree else map (shift_line delta_spaces) subtree)"

subsection \<open>The plan\<close>

fun parse_groups :: "json_group list \<Rightarrow> string + (string \<times> string list) list" where
  "parse_groups [] = Inr []"
| "parse_groups (None # rest) = Inl ''bad_group''"
| "parse_groups (Some (category, raw_uuids) # rest) =
     (let cat = strip category
      in case raw_uuids of
           None \<Rightarrow> Inl ''bad_group''
         | Some raw \<Rightarrow>
             if cat = [] then Inl ''bad_group''
             else let uuids = filter (\<lambda>u. u \<noteq> []) (map strip raw)
                  in if uuids = [] then Inl ''empty_group''
                     else case parse_groups rest of
                       Inl e \<Rightarrow> Inl e
                     | Inr gs \<Rightarrow> Inr ((cat, uuids) # gs))"

type_synonym location = "nat \<times> nat \<times> nat"

fun locate_all :: "text_lines \<Rightarrow> nat set \<Rightarrow> string list \<Rightarrow> string + (string \<times> location) list" where
  "locate_all stripped protected [] = Inr []"
| "locate_all stripped protected (u # us) =
     (case locate_block_by_uuid stripped u of
        None \<Rightarrow> Inl ''uuid_not_found''
      | Some (b, i, e) \<Rightarrow>
          if list_ex (\<lambda>k. k \<in> protected) [b..<e] then Inl ''protected_fence''
          else case locate_all stripped protected us of
            Inl c \<Rightarrow> Inl c
          | Inr locs \<Rightarrow> Inr ((u, b, i, e) # locs))"

definition bullet_ws_len :: "string \<Rightarrow> nat" where
  "bullet_ws_len line = (case bullet_match line of None \<Rightarrow> 0 | Some (ws, _, _) \<Rightarrow> length ws)"

fun overlapping :: "(nat \<times> nat) list \<Rightarrow> bool" where
  "overlapping ((b, e) # (b', e') # rest) \<longleftrightarrow> b' < e \<or> overlapping ((b', e') # rest)"
| "overlapping _ \<longleftrightarrow> False"

fun kept_lines :: "text_lines \<Rightarrow> nat \<Rightarrow> (nat \<times> nat) list \<Rightarrow> text_lines" where
  "kept_lines lines cursor [] = drop cursor lines"
| "kept_lines lines cursor ((b, e) # rest) = slice cursor b lines @ kept_lines lines e rest"

definition moved_lines :: "text_lines \<Rightarrow> text_lines \<Rightarrow> string \<Rightarrow> location \<Rightarrow> text_lines" where
  "moved_lines lines stripped child_ws loc =
     (let (b, i, e) = loc
      in shift_block_lines (slice b e lines) (int (length child_ws) - int (bullet_ws_len (stripped ! b))))"

fun group_chunks ::
  "(nat \<Rightarrow> string) \<Rightarrow> text_lines \<Rightarrow> text_lines \<Rightarrow> string \<Rightarrow> string \<Rightarrow> (string \<rightharpoonup> location) \<Rightarrow> nat \<Rightarrow>
     (string \<times> string list) list \<Rightarrow> text_lines" where
  "group_chunks fresh lines stripped base_ws child_ws locs k [] = []"
| "group_chunks fresh lines stripped base_ws child_ws locs k ((cat, uuids) # rest) =
     [base_ws @ ''- '' @ cat @ [LF], child_ws @ ''id:: '' @ fresh k @ [LF]] @
     concat (map (\<lambda>u. moved_lines lines stripped child_ws (the (locs u))) uuids) @
     group_chunks fresh lines stripped base_ws child_ws locs (Suc k) rest"

datatype reparent_plan =
    PlanError string
  | PlanRaise py_exn
  | PlanOk text_lines text_lines text_lines "string list"

text \<open>\<open>PlanOk before inserted after previews\<close>; an empty list of groups raises in \<open>min\<close>.\<close>

definition plan_reparent :: "(nat \<Rightarrow> string) \<Rightarrow> text_lines \<Rightarrow> json_group list \<Rightarrow> reparent_plan" where
  "plan_reparent fresh lines groups =
     (let stripped = map strip_lf lines; protected = compute_page_protected_line_indices (concat lines)
      in case parse_groups groups of
           Inl c \<Rightarrow> PlanError c
         | Inr parsed_groups \<Rightarrow>
             (let all_uuids = concat (map snd parsed_groups)
              in if \<not> distinct all_uuids then PlanError ''duplicate_uuid''
                 else case locate_all stripped protected all_uuids of
                   Inl c \<Rightarrow> PlanError c
                 | Inr locs \<Rightarrow>
                     (let base_indents = map (\<lambda>(u, b, i, e). bullet_ws_len (stripped ! b)) locs;
                          intervals = sort (map (\<lambda>(u, b, i, e). (b, e)) locs)
                      in if overlapping intervals then PlanError ''overlapping_blocks''
                         else if base_indents \<noteq> [] \<and> Max (set base_indents) \<noteq> Min (set base_indents)
                         then PlanError ''indent_mismatch''
                         else if locs = [] then PlanRaise (ValueError ''min() arg is an empty sequence'')
                         else
                           (let first_start = Min (set (map (\<lambda>(u, b, i, e). b) locs));
                                kept = kept_lines lines 0 intervals;
                                unit_ws = bullet_indent_unit lines (fst (hd intervals));
                                base_ws = replicate (hd base_indents) (CHR '' '');
                                child_ws = base_ws @ unit_ws;
                                chunks = group_chunks fresh lines stripped base_ws child_ws (map_of locs) 0 parsed_groups
                            in PlanOk (take first_start kept) chunks (drop first_start kept)
                                 (map (\<lambda>(cat, _). ''- '' @ cat) parsed_groups)))))"

subsection \<open>The handler\<close>

record reparent_result =
  rr_ok :: bool
  rr_code :: string
  rr_dry_run :: bool
  rr_path :: "path option"
  rr_preview_lines :: "string list"

text \<open>
  The page is read before the lock is taken and is not read again; the write has no baseline.
\<close>

definition refactor_logseq_blocks ::
  "(nat \<Rightarrow> string) \<Rightarrow> path \<Rightarrow> string \<Rightarrow> json_group list \<Rightarrow> bool \<Rightarrow> interference \<Rightarrow> world \<Rightarrow>
     world \<times> (py_exn + reparent_result)" where
  "refactor_logseq_blocks fresh graph_root page_ref groups dry_run il w =
     (let result = (\<lambda>ok code p previews. \<lparr>rr_ok = ok, rr_code = code, rr_dry_run = dry_run, rr_path = p,
                       rr_preview_lines = previews\<rparr>)
      in case read_page_lines w graph_root page_ref of
           Inl err \<Rightarrow> (w, Inr (result False err None []))
         | Inr (p, lines) \<Rightarrow>
             (case page_rmw_lock p (il_lock il) w of
                Inl e \<Rightarrow> (w, Inl e)
              | Inr w1 \<Rightarrow>
                  (case plan_reparent fresh lines groups of
                     PlanError code \<Rightarrow> (w1, Inr (result False code (Some p) []))
                   | PlanRaise e \<Rightarrow> (w1, Inl e)
                   | PlanOk before inserted after previews \<Rightarrow>
                       if dry_run then (w1, Inr (result True ''dry_run_ok'' (Some p) (take 20 previews)))
                       else (let w2 = apply_edits (il_copy il) w1
                             in case copy2 p (backup_path p) w2 of
                                  None \<Rightarrow> (w2, Inl OsError)
                                | Some w3 \<Rightarrow>
                                    (case atomic_write_bytes p (concat (before @ inserted @ after)) graph_root True None
                                            (Some ''reparent blocks'') (apply_edits (il_write il) w3) of
                                       (w4, Inl e) \<Rightarrow> (w4, Inl e)
                                     | (w4, Inr _) \<Rightarrow> (w4, Inr (result True ''applied'' (Some p) (take 20 previews))))))))"

subsection \<open>No line is lost\<close>

definition dedent :: "string \<Rightarrow> string" where
  "dedent line = dropWhile is_indent line"

lemma dedent_append_indent: "list_all is_indent ws \<Longrightarrow> dedent (ws @ s) = dedent s"
  by (induction ws) (auto simp: dedent_def)

lemma strip_lf_decomp: "strip_lf line @ drop (length (strip_lf line)) line = line"
  unfolding strip_lf_def by (metis append_eq_conv_conj rstrip_by_decomp)

lemma dedent_shift [simp]: "dedent (shift_line d line) = dedent line"
proof -
  let ?c = "strip_lf line" and ?n = "drop (length (strip_lf line)) line"
  let ?ws = "takeWhile is_indent ?c"
  have ws: "list_all is_indent (drop k ?ws)" for k
    by (auto simp: list_all_iff dest!: in_set_dropD set_takeWhileD)
  have "dedent (drop k ?ws @ drop (length ?ws) ?c @ ?n) = dedent line" for k
  proof -
    have "dedent (drop k ?ws @ drop (length ?ws) ?c @ ?n) = dedent (?ws @ drop (length ?ws) ?c @ ?n)"
      using dedent_append_indent [OF ws [of k]] dedent_append_indent [OF ws [of 0]] by simp
    also have "?ws @ drop (length ?ws) ?c @ ?n = line"
      using strip_lf_decomp [of line] takeWhile_eq_take [of is_indent ?c] by (metis append.assoc append_take_drop_id)
    finally show ?thesis .
  qed
  moreover have "dedent (replicate k (CHR '' '') @ ?c @ ?n) = dedent line" for k
    by (simp add: dedent_append_indent strip_lf_decomp is_indent_def list_all_iff)
  ultimately show ?thesis by (simp add: shift_line_def Let_def leading_ws_len_def)
qed

lemma dedent_moved: "map dedent (moved_lines lines stripped child_ws (b, i, e)) = map dedent (slice b e lines)"
  by (simp add: moved_lines_def shift_block_lines_def)

text \<open>The new lines: a category bullet and its \<open>id::\<close> line per group.\<close>

fun heading_lines :: "(nat \<Rightarrow> string) \<Rightarrow> nat \<Rightarrow> string list \<Rightarrow> text_lines" where
  "heading_lines fresh k [] = []"
| "heading_lines fresh k (cat # cats) =
     (''- '' @ cat @ [LF]) # (''id:: '' @ fresh k @ [LF]) # heading_lines fresh (Suc k) cats"

definition span_lines :: "text_lines \<Rightarrow> location \<Rightarrow> text_lines" where
  "span_lines lines loc = slice (fst loc) (snd (snd loc)) lines"

lemma dedent_heading: "list_all is_indent ws \<Longrightarrow> dedent (ws @ ''- '' @ s) = ''- '' @ s"
  "list_all is_indent ws \<Longrightarrow> dedent (ws @ ''id:: '' @ s) = ''id:: '' @ s"
  by (simp_all add: dedent_append_indent) (simp_all add: dedent_def is_indent_def)

lemma group_chunks_lines:
  assumes "list_all is_indent base_ws" and "list_all is_indent child_ws"
  shows "mset (map dedent (group_chunks fresh lines stripped base_ws child_ws locs k groups)) =
    mset (heading_lines fresh k (map fst groups)) +
    mset (concat (map (\<lambda>u. map dedent (span_lines lines (the (locs u)))) (concat (map snd groups))))"
proof (induction groups arbitrary: k)
  case (Cons g rest)
  have moved: "map dedent (concat (map (\<lambda>u. moved_lines lines stripped child_ws (the (locs u))) us)) =
      concat (map (\<lambda>u. map dedent (span_lines lines (the (locs u)))) us)" for us
  proof (induction us)
    case (Cons u us)
    obtain b i e where "the (locs u) = (b, i, e)" by (cases "the (locs u)")
    with Cons show ?case by (simp add: dedent_moved span_lines_def)
  qed simp
  obtain cat us where g: "g = (cat, us)" by (cases g)
  show ?case
    using Cons.IH moved assms dedent_heading(1) [OF assms(1), of "cat @ [LF]"] dedent_heading(2) [OF assms(2), of "fresh k @ [LF]"]
    by (simp add: g)
qed simp

text \<open>Sorted, disjoint spans within the page.\<close>

fun chain :: "nat \<Rightarrow> nat \<Rightarrow> (nat \<times> nat) list \<Rightarrow> bool" where
  "chain n cursor [] \<longleftrightarrow> cursor \<le> n"
| "chain n cursor ((b, e) # rest) \<longleftrightarrow> cursor \<le> b \<and> b \<le> e \<and> chain n e rest"

lemma chain_le: "chain n c ivs \<Longrightarrow> c \<le> n"
  by (induction n c ivs rule: chain.induct) auto

lemma drop_slices: "c \<le> b \<Longrightarrow> b \<le> e \<Longrightarrow> drop c xs = slice c b xs @ slice b e xs @ drop e xs"
  unfolding slice_def
  by (metis append_take_drop_id drop_drop le_add_diff_inverse2)

lemma kept_lines_mset:
  "chain (length lines) c ivs \<Longrightarrow>
     mset (drop c lines) = mset (kept_lines lines c ivs) + mset (concat (map (\<lambda>(b, e). slice b e lines) ivs))"
proof (induction ivs arbitrary: c)
  case (Cons iv ivs)
  obtain b e where iv: "iv = (b, e)" by (cases iv)
  then show ?case using Cons drop_slices [of c b e lines] by simp
qed simp

lemma kept_lines_subseq: "chain (length lines) c ivs \<Longrightarrow> subseq (kept_lines lines c ivs) (drop c lines)"
proof (induction ivs arbitrary: c)
  case (Cons iv ivs)
  obtain b e where iv: "iv = (b, e)" by (cases iv)
  then have "subseq (slice c b lines @ kept_lines lines e ivs) (slice c b lines @ slice b e lines @ drop e lines)"
    using Cons by (auto intro: list_emb_append_mono)
  then show ?case using iv Cons.prems drop_slices [of c b e lines] by simp
qed simp

lemma chain_sorted:
  "sorted ivs \<Longrightarrow> \<not> overlapping ivs \<Longrightarrow> \<forall>(b, e) \<in> set ivs. b \<le> e \<and> e \<le> n \<Longrightarrow>
     (ivs = [] \<longrightarrow> c \<le> n) \<Longrightarrow> (ivs \<noteq> [] \<longrightarrow> c \<le> fst (hd ivs)) \<Longrightarrow> chain n c ivs"
proof (induction ivs arbitrary: c rule: overlapping.induct)
  case (1 b e b' e' rest)
  then have "chain n e ((b', e') # rest)" by (intro "1.IH") auto
  with 1 show ?case by auto
qed auto

lemma locate_all_Inr:
  "locate_all stripped protected us = Inr locs \<Longrightarrow> map fst locs = us \<and>
     (\<forall>(u, b, i, e) \<in> set locs. block_at stripped u b i e \<and> {b..<e} \<inter> protected = {})"
proof (induction us arbitrary: locs)
  case (Cons u us)
  obtain b i e locs' where l: "locate_block_by_uuid stripped u = Some (b, i, e)"
    "\<not> list_ex (\<lambda>k. k \<in> protected) [b..<e]" "locate_all stripped protected us = Inr locs'" "locs = (u, b, i, e) # locs'"
    using Cons.prems by (auto split: option.splits if_splits sum.splits)
  then show ?case using Cons.IH [OF l(3)] locate_block_at [OF l(1)] by (auto simp: list_ex_iff)
qed simp

lemma plan_reparent_OkE:
  assumes "plan_reparent fresh lines groups = PlanOk before inserted after pv"
  obtains parsed locs kept unit_ws where
    "parse_groups groups = Inr parsed"
    "locate_all (map strip_lf lines) (compute_page_protected_line_indices (concat lines)) (concat (map snd parsed)) = Inr locs"
    "distinct (concat (map snd parsed))" "locs \<noteq> []"
    "\<not> overlapping (sort (map (\<lambda>(u, b, i, e). (b, e)) locs))"
    "kept = kept_lines lines 0 (sort (map (\<lambda>(u, b, i, e). (b, e)) locs))"
    "before = take (Min (set (map (\<lambda>(u, b, i, e). b) locs))) kept"
    "after = drop (Min (set (map (\<lambda>(u, b, i, e). b) locs))) kept"
    "list_all is_indent unit_ws"
    "inserted = group_chunks fresh lines (map strip_lf lines)
       (replicate (hd (map (\<lambda>(u, b, i, e). bullet_ws_len (map strip_lf lines ! b)) locs)) (CHR '' ''))
       (replicate (hd (map (\<lambda>(u, b, i, e). bullet_ws_len (map strip_lf lines ! b)) locs)) (CHR '' '') @ unit_ws)
       (map_of locs) 0 parsed"
proof -
  obtain parsed where p: "parse_groups groups = Inr parsed"
    using assms by (auto simp: plan_reparent_def Let_def split: sum.splits)
  have d: "distinct (concat (map snd parsed))"
    using assms p by (auto simp: plan_reparent_def Let_def split: if_splits)
  obtain locs where l: "locate_all (map strip_lf lines) (compute_page_protected_line_indices (concat lines))
      (concat (map snd parsed)) = Inr locs"
    using assms p d by (auto simp: plan_reparent_def Let_def split: sum.splits)
  have unit: "list_all is_indent (bullet_indent_unit lines k)" for k
    by (simp add: bullet_indent_unit_def is_indent_def split: option.splits)
  show thesis
    using assms p d l
    by (intro that [OF p l d _ _ refl _ _ unit [of "fst (hd (sort (map (\<lambda>(u, b, i, e). (b, e)) locs)))"]])
       (simp_all add: plan_reparent_def Let_def split: if_splits)
qed

lemma mset_concat_map_map: "mset (concat (map (\<lambda>x. map f (g x)) xs)) = image_mset f (mset (concat (map g xs)))"
  by (induction xs) simp_all

lemma mset_concat_perm: "mset xs = mset ys \<Longrightarrow> mset (concat (map f xs)) = mset (concat (map f ys))"
proof -
  assume "mset xs = mset ys"
  then have "\<Sum>\<^sub># (image_mset (\<lambda>x. mset (f x)) (mset xs)) = \<Sum>\<^sub># (image_mset (\<lambda>x. mset (f x)) (mset ys))" by simp
  then show ?thesis by (simp add: mset_concat sum_mset_sum_list [symmetric] comp_def)
qed

lemma reparent_conserves:
  assumes "plan_reparent fresh lines groups = PlanOk before inserted after pv"
  shows "mset (map dedent (before @ inserted @ after)) =
      mset (map dedent lines) + mset (heading_lines fresh 0 (map fst (projr (parse_groups groups)))) \<and>
    subseq (before @ after) lines"
proof (rule plan_reparent_OkE [OF assms])
  fix parsed and locs :: "(string \<times> location) list" and kept unit_ws
  let ?S = "map strip_lf lines" and ?spans = "map (\<lambda>(u, b, i, e). (b, e)) locs"
  let ?ws = "replicate (hd (map (\<lambda>(u, b, i, e). bullet_ws_len (?S ! b)) locs)) (CHR '' '')"
  assume p: "parse_groups groups = Inr parsed"
    and l: "locate_all ?S (compute_page_protected_line_indices (concat lines)) (concat (map snd parsed)) = Inr locs"
    and d: "distinct (concat (map snd parsed))" and no: "\<not> overlapping (sort ?spans)"
    and kept: "kept = kept_lines lines 0 (sort ?spans)"
    and ba: "before = take (Min (set (map (\<lambda>(u, b, i, e). b) locs))) kept"
      "after = drop (Min (set (map (\<lambda>(u, b, i, e). b) locs))) kept"
    and unit: "list_all is_indent unit_ws"
    and ins: "inserted = group_chunks fresh lines ?S ?ws (?ws @ unit_ws) (map_of locs) 0 parsed"
  have us: "map fst locs = concat (map snd parsed)"
    and at: "\<forall>(u, b, i, e) \<in> set locs. block_at ?S u b i e" using locate_all_Inr [OF l] by auto
  have ch: "chain (length lines) 0 (sort ?spans)"
    using no at by (intro chain_sorted) (auto simp: block_at_def)
  have ws: "list_all is_indent ?ws" by (simp add: list_all_iff is_indent_def)
  have look: "concat (map (\<lambda>u. map dedent (span_lines lines (the (map_of locs u)))) (map fst locs)) =
      concat (map (\<lambda>(b, e). map dedent (slice b e lines)) ?spans)"
  proof -
    have "map (\<lambda>u. map dedent (span_lines lines (the (map_of locs u)))) (map fst locs) =
        map (\<lambda>(b, e). map dedent (slice b e lines)) ?spans"
    proof -
      have "distinct (map fst locs)" using d us by simp
      then show ?thesis
        unfolding map_map by (intro map_cong refl) (auto simp: span_lines_def map_of_is_SomeI)
    qed
    then show ?thesis by (rule arg_cong)
  qed
  have "mset (map dedent inserted) = mset (heading_lines fresh 0 (map fst parsed)) +
      mset (concat (map (\<lambda>(b, e). map dedent (slice b e lines)) ?spans))"
  proof -
    have "list_all is_indent (?ws @ unit_ws)" using ws unit by simp
    note gc = group_chunks_lines [OF ws this, of fresh lines ?S "map_of locs" 0 parsed]
    show ?thesis unfolding ins gc us [symmetric] look by (rule refl)
  qed
  also have "mset (concat (map (\<lambda>(b, e). map dedent (slice b e lines)) ?spans)) =
      image_mset dedent (mset (concat (map (\<lambda>(b, e). slice b e lines) (sort ?spans))))"
  proof -
    have "(\<lambda>(b, e). map dedent (slice b e lines)) = (\<lambda>x. map dedent ((\<lambda>(b, e). slice b e lines) x))" by auto
    then show ?thesis
      unfolding mset_concat_map_map [symmetric]
      using mset_concat_map_map [of dedent "\<lambda>(b, e). slice b e lines" ?spans]
        mset_concat_map_map [of dedent "\<lambda>(b, e). slice b e lines" "sort ?spans"]
        mset_concat_perm [of "sort ?spans" ?spans "\<lambda>(b, e). slice b e lines"]
      by (simp only: mset_sort)
  qed
  finally have "mset (map dedent (before @ inserted @ after)) =
      image_mset dedent (mset kept + mset (concat (map (\<lambda>(b, e). slice b e lines) (sort ?spans)))) +
      mset (heading_lines fresh 0 (map fst parsed))"
  proof -
    have "mset kept = mset before + mset after" unfolding ba by (metis append_take_drop_id mset_append)
    moreover assume "mset (map dedent inserted) = mset (heading_lines fresh 0 (map fst parsed)) +
      image_mset dedent (mset (concat (map (\<lambda>(b, e). slice b e lines) (sort ?spans))))"
    ultimately show ?thesis by simp
  qed
  moreover have "before @ after = kept" using ba by simp
  ultimately show ?thesis
    using kept_lines_mset [OF ch] kept_lines_subseq [OF ch] kept p by simp
qed

subsection \<open>Properties\<close>


definition example_siblings :: text_lines where
  "example_siblings = [''- a'' @ [LF], ''  id:: u1'' @ [LF], ''- b'' @ [LF], ''  id:: u2'' @ [LF], ''- c'' @ [LF]]"


text \<open>
  Regrouping overwrites concurrent edits. When the handler reports \<open>applied\<close> the page holds
  the plan of the text it had at the call, whatever other programs wrote to it while the
  handler waited for the page lock: the page is read before the lock and written without a
  baseline.
\<close>

theorem reparent_ignores_interference:
  assumes "refactor_logseq_blocks fresh groot ref groups False il w = (w', Inr res)" and "rr_code res = ''applied''"
  shows "\<exists>p lines before inserted after pv t. read_page_lines w groot ref = Inr (p, lines) \<and>
    plan_reparent fresh lines groups = PlanOk before inserted after pv \<and>
    files w' (resolved w p) = Some \<lparr>body = concat (before @ inserted @ after), mtime = t\<rparr>"
proof -
  have codes: "plan_reparent fresh lines groups \<noteq> PlanError ''applied''" for lines
  proof -
    have pg: "parse_groups g \<noteq> Inl ''applied''" for g
      by (induction g rule: parse_groups.induct) (auto simp: Let_def split: option.splits sum.splits)
    have la: "locate_all s P us \<noteq> Inl ''applied''" for s P us
      by (induction us) (auto split: option.splits sum.splits)
    show ?thesis using pg la by (auto simp: plan_reparent_def Let_def split: sum.splits)
  qed
  have rd: "read_page_lines w groot ref \<noteq> Inl ''applied''"
    by (auto simp: read_page_lines_def Let_def split: sum.splits option.splits)
  obtain p lines where r: "read_page_lines w groot ref = Inr (p, lines)"
    using assms rd by (cases "read_page_lines w groot ref") (auto simp: refactor_logseq_blocks_def Let_def)
  obtain w1 where lk: "page_rmw_lock p (il_lock il) w = Inr w1"
    using assms r by (cases "page_rmw_lock p (il_lock il) w") (auto simp: refactor_logseq_blocks_def Let_def)
  obtain b i a pv where pl: "plan_reparent fresh lines groups = PlanOk b i a pv"
    using assms r lk codes [of lines]
    by (cases "plan_reparent fresh lines groups") (auto simp: refactor_logseq_blocks_def Let_def)
  obtain w3 where cp: "copy2 p (backup_path p) (apply_edits (il_copy il) w1) = Some w3"
    using assms r lk pl by (cases "copy2 p (backup_path p) (apply_edits (il_copy il) w1)")
      (auto simp: refactor_logseq_blocks_def Let_def)
  let ?wr = "atomic_write_bytes p (concat (b @ i @ a)) groot True None (Some ''reparent blocks'') (apply_edits (il_write il) w3)"
  have wr: "?wr = (w', Inr ())"
    using assms r lk pl cp by (cases ?wr) (auto simp: refactor_logseq_blocks_def Let_def split: sum.splits)
  have "resolve w3 = resolve w"
    using lk cp by (auto simp: page_rmw_lock_def copy2_def split: sum.splits option.splits)
  then have "resolved (apply_edits (il_write il) w3) p = resolved w p" by (auto intro: resolved_cong)
  then show ?thesis using atomic_write_spec [OF wr] r pl by auto
qed

lemma reparent_ignores_interference_witness:
  "\<exists>w' res. refactor_logseq_blocks (\<lambda>_. ''f'') [''g''] ''A'' [Some (''Cat'', Some [''u1''])] False
       \<lparr>il_lock = Some [([''g'', ''pages'', ''A.md''], ''- new text'')], il_copy = [], il_write = []\<rparr>
       (example_world (concat example_siblings) '''') = (w', Inr res) \<and>
     (\<exists>t. files w' [''g'', ''pages'', ''A.md''] = Some \<lparr>body =
        concat [''- Cat'', [LF], ''  id:: f'', [LF], ''  - a'', [LF], ''    id:: u1'', [LF], ''- b'', [LF], ''  id:: u2'', [LF], ''- c'', [LF]],
        mtime = t\<rparr>)"
proof -
  let ?il = "\<lparr>il_lock = Some [([''g'', ''pages'', ''A.md''], ''- new text'')], il_copy = [], il_write = []\<rparr>"
  let ?w = "example_world (concat example_siblings) ''''" and ?g = "[Some (''Cat'', Some [''u1''])]"
  let ?r = "refactor_logseq_blocks (\<lambda>_. ''f'') [''g''] ''A'' ?g False ?il ?w"
  have "(case snd ?r of Inl _ \<Rightarrow> False | Inr res \<Rightarrow> rr_code res = ''applied'')" by code_simp
  then obtain w' res where r: "?r = (w', Inr res)" "rr_code res = ''applied''"
    by (cases ?r) (auto split: sum.splits)
  have rd: "read_page_lines ?w [''g''] ''A'' = Inr ([''g'', ''pages'', ''A.md''], example_siblings)" by code_simp
  have pl: "plan_reparent (\<lambda>_. ''f'') example_siblings ?g = PlanOk [] [''- Cat'' @ [LF], ''  id:: f'' @ [LF],
      ''  - a'' @ [LF], ''    id:: u1'' @ [LF]] [''- b'' @ [LF], ''  id:: u2'' @ [LF], ''- c'' @ [LF]] [''- Cat'']" by code_simp
  have "resolved ?w [''g'', ''pages'', ''A.md''] = [''g'', ''pages'', ''A.md'']" by (simp add: resolved_def example_world_def)
  then show ?thesis using reparent_ignores_interference [OF r] r rd pl by auto
qed

text \<open>
  A page whose last line is not terminated: the moved subtree ends without a line feed, so its
  last line and the line after it become one.
\<close>

lemma reparent_unterminated_last_line:
  "(case plan_reparent (\<lambda>_. ''f'') (splitlines_keep (join [LF] [''- a'', ''  id:: u1'', ''- b'', ''  id:: u2'']))
       [Some (''Cat'', Some [''u2'', ''u1''])] of
      PlanOk b i a _ \<Rightarrow> concat (b @ i @ a) =
        concat [''- Cat'', [LF], ''  id:: f'', [LF], ''  - b'', [LF], ''    id:: u2  - a'', [LF], ''    id:: u1'', [LF]]
    | _ \<Rightarrow> False)"
  by code_simp

end
