(* ===== verification/SplitBlocks.thy ===== *)
theory SplitBlocks
  imports Reparent
begin

section \<open>Splitting oversized bullets\<close>

text \<open>
  Model of \<open>src/graph/split_large_blocks.py\<close>: a long bullet with an \<open>id::\<close> line is split into its
  sentences; the first stays, the others become child bullets with fresh UUIDs (the parameter
  \<open>fresh\<close>, numbered over the whole call). The page listing of the graph is the parameter \<open>stems\<close>:
  \<open>None\<close> when there is no \<open>pages/\<close> directory.
\<close>

subsection \<open>Sentences\<close>

definition ends_sentence :: "char \<Rightarrow> bool" where
  "ends_sentence c \<longleftrightarrow> c = CHR ''.'' \<or> c = CHR ''!'' \<or> c = CHR ''?''"

text \<open>\<open>re.split\<close> at white space that follows one of \<open>.!?\<close>; the flag is the look-behind.\<close>

function sentence_parts :: "bool \<Rightarrow> string \<Rightarrow> string \<Rightarrow> string list" where
  "sentence_parts behind cur [] = [cur]"
| "sentence_parts behind cur (c # r) =
     (if behind \<and> py_space c then cur # sentence_parts False [] (dropWhile py_space r)
      else sentence_parts (ends_sentence c) (cur @ [c]) r)"
  by pat_completeness auto
termination
  by (relation "measure (\<lambda>(_, _, s). length s)") (auto simp: length_dropWhile_le le_imp_less_Suc)

definition split_sentences :: "string \<Rightarrow> string list" where
  "split_sentences text = filter (\<lambda>p. p \<noteq> []) (map strip (sentence_parts False [] (strip text)))"

subsection \<open>Candidates\<close>

text \<open>The UUID of an \<open>id::\<close> line that names one.\<close>

definition id_line_uuid :: "string \<Rightarrow> string option" where
  "id_line_uuid line =
     (let r = lstrip line; u = strip (drop 4 r)
      in if startswith (lower r) ''id::'' \<and> uuid_canonical u then Some u else None)"

definition find_preceding_bullet_idx :: "text_lines \<Rightarrow> nat \<Rightarrow> nat option" where
  "find_preceding_bullet_idx stripped id_line_idx =
     first_index (\<lambda>j. is_bullet (stripped ! j)) (rev [0..<id_line_idx])"

definition eligible_split_sentences :: "text_lines \<Rightarrow> nat \<Rightarrow> nat \<Rightarrow> nat \<Rightarrow> nat set \<Rightarrow> string list option" where
  "eligible_split_sentences stripped bullet_idx id_line_idx min_chars protected =
     (case bullet_match (stripped ! bullet_idx) of
        None \<Rightarrow> None
      | Some (_, _, rest) \<Rightarrow>
          (let body = strip rest
           in if bullet_first_line_refactor_blocked body then None
              else if pre_id_block_lines_protected stripped bullet_idx id_line_idx then None
              else if list_ex (\<lambda>j. j \<in> protected) [bullet_idx..<id_line_idx + 1] then None
              else if length body < min_chars then None
              else let sents = split_sentences body in if length sents < 2 then None else Some sents))"

type_synonym candidate = "nat \<times> nat \<times> string \<times> string list"

definition candidate_at :: "text_lines \<Rightarrow> nat \<Rightarrow> nat set \<Rightarrow> nat \<Rightarrow> candidate option" where
  "candidate_at stripped min_chars protected i =
     (case id_line_uuid (stripped ! i) of
        None \<Rightarrow> None
      | Some u \<Rightarrow>
          (case find_preceding_bullet_idx stripped i of
             None \<Rightarrow> None
           | Some bullet_idx \<Rightarrow>
               map_option (\<lambda>sents. (bullet_idx, i, lower u, sents))
                 (eligible_split_sentences stripped bullet_idx i min_chars protected)))"

definition collect_candidates :: "text_lines \<Rightarrow> nat \<Rightarrow> nat set \<Rightarrow> candidate list" where
  "collect_candidates stripped min_chars protected =
     sort_key (\<lambda>(bullet_idx, _). - int bullet_idx)
       (List.map_filter (candidate_at stripped min_chars protected) [0..<length stripped])"

subsection \<open>One split\<close>

fun extra_lines :: "(nat \<Rightarrow> string) \<Rightarrow> nat \<Rightarrow> string \<Rightarrow> string list \<Rightarrow> text_lines" where
  "extra_lines fresh k child_ws [] = []"
| "extra_lines fresh k child_ws (sent # sents) =
     (child_ws @ ''- '' @ sent @ [LF]) # (child_ws @ ''  id:: '' @ fresh k @ [LF]) #
     extra_lines fresh (Suc k) child_ws sents"

definition apply_one_split ::
  "(nat \<Rightarrow> string) \<Rightarrow> nat \<Rightarrow> text_lines \<Rightarrow> text_lines \<Rightarrow> nat \<Rightarrow> nat \<Rightarrow> string list \<Rightarrow> text_lines \<times> text_lines" where
  "apply_one_split fresh k lines stripped bullet_idx id_line_idx sents =
     (case bullet_match (stripped ! bullet_idx) of
        None \<Rightarrow> (lines, stripped)
      | Some (ws, mark, _) \<Rightarrow>
          (let child_ws = ws @ bullet_indent_unit lines bullet_idx;
               old_bullet = lines ! bullet_idx;
               nl = drop (length (strip_lf old_bullet)) old_bullet;
               new_bullet = ws @ [mark] @ '' '' @ hd sents @ nl;
               new_lines = take bullet_idx lines @ [new_bullet] @ slice (bullet_idx + 1) (id_line_idx + 1) lines @
                 extra_lines fresh k child_ws (tl sents) @ drop (id_line_idx + 1) lines
           in (new_lines, map strip_lf new_lines)))"

record split_hit =
  sh_page_ref :: string
  sh_block_uuid :: string
  sh_before_len :: nat
  sh_sentences :: nat

text \<open>
  The \<open>while\<close> loop, whose guard bounds the number of hits by \<open>max_blocks\<close>: the first argument is
  what is left of it. The protected indices are those of the page before the first split.
\<close>

fun split_page_loop ::
  "nat \<Rightarrow> (nat \<Rightarrow> string) \<Rightarrow> nat \<Rightarrow> string \<Rightarrow> nat \<Rightarrow> nat set \<Rightarrow> text_lines \<Rightarrow> text_lines \<Rightarrow> split_hit list \<times> text_lines" where
  "split_page_loop 0 fresh k page_ref min_chars protected cur_lines cur_stripped = ([], cur_lines)"
| "split_page_loop (Suc n) fresh k page_ref min_chars protected cur_lines cur_stripped =
     (case collect_candidates cur_stripped min_chars protected of
        [] \<Rightarrow> ([], cur_lines)
      | (bullet_idx, id_line_idx, block_uuid, sents) # _ \<Rightarrow>
          (let original_len = (case bullet_match (cur_stripped ! bullet_idx) of
                 None \<Rightarrow> 0 | Some (_, _, rest) \<Rightarrow> length (strip rest));
               (new_lines, new_stripped) = apply_one_split fresh k cur_lines cur_stripped bullet_idx id_line_idx sents;
               (hits, final_lines) = split_page_loop n fresh (k + length (tl sents)) page_ref min_chars protected
                 new_lines new_stripped
           in (\<lparr>sh_page_ref = page_ref, sh_block_uuid = block_uuid, sh_before_len = original_len,
                sh_sentences = length sents\<rparr> # hits, final_lines)))"

subsection \<open>Pages and the whole call\<close>

definition process_page ::
  "(nat \<Rightarrow> string) \<Rightarrow> nat \<Rightarrow> path \<Rightarrow> string \<Rightarrow> nat \<Rightarrow> nat \<Rightarrow> bool \<Rightarrow> interference \<Rightarrow> world \<Rightarrow>
     world \<times> (py_exn + string + split_hit list \<times> path list)" where
  "process_page fresh k graph_root page_ref min_chars max_blocks dry_run il w =
     (case read_page_lines w graph_root page_ref of
        Inl err \<Rightarrow> (w, Inr (Inl err))
      | Inr (p, lines) \<Rightarrow>
          (case page_rmw_lock p (il_lock il) w of
             Inl e \<Rightarrow> (w, Inl e)
           | Inr w1 \<Rightarrow>
               (let (hits, cur_lines) = split_page_loop max_blocks fresh k page_ref min_chars
                      (compute_page_protected_line_indices (concat lines)) lines (map strip_lf lines)
                in if hits = [] then (w1, Inr (Inr ([], [])))
                   else if dry_run then (w1, Inr (Inr (hits, [p])))
                   else let w2 = apply_edits (il_copy il) w1
                        in case copy2 p (backup_path p) w2 of
                             None \<Rightarrow> (w2, Inl OsError)
                           | Some w3 \<Rightarrow>
                               (case atomic_write_bytes p (concat cur_lines) graph_root True None
                                       (Some ''split large blocks'') (apply_edits (il_write il) w3) of
                                  (w4, Inl e) \<Rightarrow> (w4, Inl e)
                                | (w4, Inr _) \<Rightarrow> (w4, Inr (Inr (hits, [p])))))))"

record split_result =
  sr_ok :: bool
  sr_code :: string
  sr_dry_run :: bool
  sr_hits :: "split_hit list"
  sr_files_touched :: "path list"

text \<open>The number of fresh UUIDs the hits of a page have used.\<close>

definition used_ids :: "split_hit list \<Rightarrow> nat" where
  "used_ids hits = sum_list (map (\<lambda>h. sh_sentences h - 1) hits)"

fun split_targets ::
  "(nat \<Rightarrow> string) \<Rightarrow> nat \<Rightarrow> path \<Rightarrow> nat \<Rightarrow> nat \<Rightarrow> bool \<Rightarrow> bool \<Rightarrow> (string \<Rightarrow> interference) \<Rightarrow> string list \<Rightarrow> world \<Rightarrow>
     world \<times> (py_exn + string + split_hit list \<times> path list)" where
  "split_targets fresh k groot min_chars remaining dry_run once il [] w = (w, Inr (Inr ([], [])))"
| "split_targets fresh k groot min_chars remaining dry_run once il (stem # stems) w =
     (case process_page fresh k groot stem (max 50 min_chars) remaining dry_run (il stem) w of
        (w1, Inl e) \<Rightarrow> (w1, Inl e)
      | (w1, Inr (Inl err)) \<Rightarrow> (w1, Inr (Inl err))
      | (w1, Inr (Inr (hits, paths))) \<Rightarrow>
          if once \<or> remaining - length hits = 0 then (w1, Inr (Inr (hits, paths)))
          else case split_targets fresh (k + used_ids hits) groot min_chars (remaining - length hits) dry_run once il stems w1 of
            (w2, Inr (Inr (hits2, paths2))) \<Rightarrow> (w2, Inr (Inr (hits @ hits2, paths @ paths2)))
          | other \<Rightarrow> other)"

definition refactor_large_blocks ::
  "(nat \<Rightarrow> string) \<Rightarrow> path \<Rightarrow> string option \<Rightarrow> string list option \<Rightarrow> nat \<Rightarrow> nat \<Rightarrow> bool \<Rightarrow> (string \<Rightarrow> interference) \<Rightarrow> world \<Rightarrow>
     world \<times> (py_exn + split_result)" where
  "refactor_large_blocks fresh graph_root page_ref stems min_chars max_blocks dry_run il w =
     (let groot = resolved w graph_root;
          result = (\<lambda>ok code hits paths. \<lparr>sr_ok = ok, sr_code = code, sr_dry_run = dry_run, sr_hits = hits,
                      sr_files_touched = paths\<rparr>)
      in case (case page_ref of
                 Some r \<Rightarrow> if strip r \<noteq> [] then Some [strip r] else map_option (\<lambda>s. sort (remdups s)) stems
               | None \<Rightarrow> map_option (\<lambda>s. sort (remdups s)) stems) of
           None \<Rightarrow> (w, Inr (result False ''no_pages'' [] []))
         | Some targets \<Rightarrow>
             (case split_targets fresh 0 groot min_chars (max 1 (min max_blocks 200)) dry_run
                     (page_ref \<noteq> None \<and> page_ref \<noteq> Some []) il targets w of
                (w1, Inl e) \<Rightarrow> (w1, Inl e)
              | (w1, Inr (Inl err)) \<Rightarrow> (w1, Inr (result False err [] []))
              | (w1, Inr (Inr (hits, paths))) \<Rightarrow>
                  if hits = [] then (w1, Inr (result True ''noop'' [] []))
                  else (w1, Inr (result True (if dry_run then ''dry_run_ok'' else ''applied'') hits paths))))"

subsection \<open>Sentences keep the text\<close>

definition nonspace :: "string \<Rightarrow> string" where
  "nonspace s = filter (\<lambda>c. \<not> py_space c) s"

lemma nonspace_simps [simp]: "nonspace [] = []" "nonspace (s @ t) = nonspace s @ nonspace t"
  "py_space c \<Longrightarrow> nonspace (c # s) = nonspace s"
  by (simp_all add: nonspace_def)

lemma nonspace_dropWhile [simp]: "nonspace (dropWhile py_space s) = nonspace s"
  by (induction s) (auto simp: nonspace_def)

lemma nonspace_all_space: "list_all py_space s \<Longrightarrow> nonspace s = []"
  by (auto simp: nonspace_def list_all_iff filter_empty_conv)

lemma nonspace_strip [simp]: "nonspace (strip s) = nonspace s"
proof -
  obtain t where "lstrip s = strip s @ t" "list_all py_space t"
    unfolding strip_def using rstrip_by_decomp by blast
  then have "nonspace (strip s) = nonspace (lstrip s)" by (simp add: nonspace_all_space)
  then show ?thesis by (simp add: lstrip_by_def)
qed

lemma sentence_parts_text: "concat (map nonspace (sentence_parts b cur s)) = nonspace (cur @ s)"
  by (induction b cur s rule: sentence_parts.induct) auto

lemma concat_filter_nonempty: "concat (map nonspace (filter (\<lambda>p. p \<noteq> []) ps)) = concat (map nonspace ps)"
  by (induction ps) auto

lemma split_sentences_text: "concat (map nonspace (split_sentences s)) = nonspace s"
proof -
  have "map nonspace (map strip ps) = map nonspace ps" for ps by simp
  then have "concat (map nonspace (split_sentences s)) = concat (map nonspace (sentence_parts False [] (strip s)))"
    unfolding split_sentences_def concat_filter_nonempty by (simp only:)
  then show ?thesis by (simp add: sentence_parts_text)
qed

text \<open>A sentence is not split again.\<close>

fun no_boundary :: "string \<Rightarrow> bool" where
  "no_boundary (a # b # s) \<longleftrightarrow> \<not> (ends_sentence a \<and> py_space b) \<and> no_boundary (b # s)"
| "no_boundary _ \<longleftrightarrow> True"

lemma no_boundary_snoc:
  "no_boundary (s @ [c]) \<longleftrightarrow> no_boundary s \<and> \<not> (s \<noteq> [] \<and> ends_sentence (last s) \<and> py_space c)"
  by (induction s rule: no_boundary.induct) auto

lemma no_boundary_append: "no_boundary (s @ t) \<Longrightarrow> no_boundary s \<and> no_boundary t"
proof (induction s)
  case (Cons a s)
  then show ?case by (cases s; cases t) auto
qed auto

lemma no_boundary_strip: "no_boundary s \<Longrightarrow> no_boundary (strip s)"
proof -
  obtain t where "lstrip s = strip s @ t"
    unfolding strip_def using rstrip_by_decomp by blast
  then have "s = takeWhile py_space s @ strip s @ t" using lstrip_by_decomp [of s py_space] by simp
  then show "no_boundary s \<Longrightarrow> no_boundary (strip s)" using no_boundary_append by metis
qed

lemma sentence_parts_no_boundary:
  "no_boundary cur \<Longrightarrow> b = (cur \<noteq> [] \<and> ends_sentence (last cur)) \<Longrightarrow> p \<in> set (sentence_parts b cur s) \<Longrightarrow> no_boundary p"
proof (induction b cur s arbitrary: p rule: sentence_parts.induct)
  case (2 behind cur c r)
  show ?case
  proof (cases "behind \<and> py_space c")
    case True
    with 2 show ?thesis by auto
  next
    case False
    then have "no_boundary (cur @ [c])" using 2 by (auto simp: no_boundary_snoc)
    with False 2 show ?thesis by auto
  qed
qed simp

lemma sentence_parts_single:
  "no_boundary (cur @ s) \<Longrightarrow> b = (cur \<noteq> [] \<and> ends_sentence (last cur)) \<Longrightarrow> sentence_parts b cur s = [cur @ s]"
proof (induction b cur s rule: sentence_parts.induct)
  case (2 behind cur c r)
  have "no_boundary ((cur @ [c]) @ r)" using 2 by simp
  then have nb: "no_boundary (cur @ [c])" using no_boundary_append by blast
  then have "\<not> (behind \<and> py_space c)" using 2(4) by (auto simp: no_boundary_snoc)
  then show ?case using 2 by simp
qed simp

lemma split_sentences_single:
  assumes "p \<in> set (split_sentences s)"
  shows "split_sentences p = [p]"
proof -
  obtain q where q: "q \<in> set (sentence_parts False [] (strip s))" "p = strip q" "p \<noteq> []"
    using assms by (auto simp: split_sentences_def)
  then have "no_boundary p" using sentence_parts_no_boundary [of "[]" False q "strip s"] no_boundary_strip by auto
  moreover have "strip p = p" using q(2) by simp
  ultimately show ?thesis
    using q(3) sentence_parts_single [of "[]" p False] by (simp add: split_sentences_def)
qed

subsection \<open>A split keeps its block\<close>

lemma bullet_match_decomp:
  "bullet_match s = Some (ws, m, r) \<longleftrightarrow>
     (\<exists>c t. s = ws @ m # c # t \<and> list_all py_space ws \<and> is_bullet_mark m \<and> py_space c \<and> r = lstrip (c # t))"
proof
  assume a: "bullet_match s = Some (ws, m, r)"
  then obtain t where t: "lstrip s = m # t" "is_bullet_mark m" "t \<noteq> []" "py_space (hd t)" "ws = takeWhile py_space s" "r = lstrip t"
    by (auto simp: bullet_match_def split: list.splits if_splits)
  moreover have "s = ws @ m # hd t # tl t" using t lstrip_by_decomp [of s py_space] by simp
  moreover have "list_all py_space ws" using t(5) by (auto simp: list_all_iff dest: set_takeWhileD)
  ultimately show "\<exists>c t. s = ws @ m # c # t \<and> list_all py_space ws \<and> is_bullet_mark m \<and> py_space c \<and> r = lstrip (c # t)"
    by (metis list.collapse)
next
  assume "\<exists>c t. s = ws @ m # c # t \<and> list_all py_space ws \<and> is_bullet_mark m \<and> py_space c \<and> r = lstrip (c # t)"
  then obtain c t where s: "s = ws @ m # c # t" "list_all py_space ws" "is_bullet_mark m" "py_space c" "r = lstrip (c # t)"
    by blast
  then have "\<not> py_space m" by (auto simp: is_bullet_mark_def py_space_def)
  then have "lstrip s = m # c # t" "takeWhile py_space s = ws"
    using s by (auto simp: lstrip_by_append_all lstrip_by_id takeWhile_append list_all_iff)
  then show "bullet_match s = Some (ws, m, r)" using s by (simp add: bullet_match_def)
qed

lemma rstrip_by_stop: "\<not> p c \<Longrightarrow> rstrip_by p (s @ c # t) = s @ c # rstrip_by p t"
proof (induction t rule: rev_induct)
  case (snoc d t)
  have "rstrip_by p ((s @ c # t) @ [d]) = (if p d then rstrip_by p (s @ c # t) else (s @ c # t) @ [d])"
    by (rule rstrip_by_snoc)
  then show ?case using snoc by (simp add: rstrip_by_snoc)
qed (use rstrip_by_snoc [of p s c] in simp)

lemma mark_facts: "is_bullet_mark m \<Longrightarrow> \<not> is_eol m \<and> \<not> py_space m \<and> lower_char m \<noteq> CHR ''i'' \<and> m \<noteq> LF"
  by (auto simp: is_bullet_mark_def is_eol_def py_space_def lower_char_def code_of_def)

lemma bullet_indent_line:
  "list_all py_space ws \<Longrightarrow> is_bullet_mark m \<Longrightarrow> bullet_indent (ws @ m # CHR '' '' # t) = Some (length ws)"
proof -
  assume a: "list_all py_space ws" "is_bullet_mark m"
  have "strip_line_endings (ws @ m # CHR '' '' # t) = ws @ m # CHR '' '' # rstrip_by is_eol t"
    using rstrip_by_stop [of is_eol "CHR '' ''" "ws @ [m]" t] by (simp add: strip_line_endings_def is_eol_def)
  then show ?thesis using a bullet_match_decomp [of "ws @ m # CHR '' '' # rstrip_by is_eol t" ws m]
    by (auto simp: bullet_indent_def py_space_def)
qed

lemma takeWhile_mark: "list_all py_space ws \<Longrightarrow> \<not> py_space m \<Longrightarrow> takeWhile py_space (ws @ m # t) = ws"
  by (simp add: takeWhile_append list_all_iff)

lemma bullet_indent_of_match:
  "bullet_match (strip_lf l) = Some (ws, m, r) \<Longrightarrow> bullet_indent l \<noteq> None \<Longrightarrow> bullet_indent l = Some (length ws)"
proof -
  assume a: "bullet_match (strip_lf l) = Some (ws, m, r)" and b: "bullet_indent l \<noteq> None"
  obtain c t where 1: "strip_lf l = ws @ m # c # t" "list_all py_space ws" "is_bullet_mark m"
    using a bullet_match_decomp by blast
  obtain ws' m' r' where 2: "bullet_match (strip_line_endings l) = Some (ws', m', r')" using b by (auto simp: bullet_indent_def)
  obtain c' t' where 3: "strip_line_endings l = ws' @ m' # c' # t'" "list_all py_space ws'" "is_bullet_mark m'"
    using 2 bullet_match_decomp by blast
  obtain x y where "l = strip_lf l @ x" "l = strip_line_endings l @ y"
    unfolding strip_lf_def strip_line_endings_def using rstrip_by_decomp by blast
  then have "l = ws @ m # (c # t @ x)" "l = ws' @ m' # (c' # t' @ y)" using 1(1) 3(1) by simp_all
  then have "takeWhile py_space l = ws" "takeWhile py_space l = ws'"
    using takeWhile_mark [OF 1(2), of m] takeWhile_mark [OF 3(2), of m'] mark_facts [OF 1(3)] mark_facts [OF 3(3)]
    by metis+
  then show ?thesis using 2 by (simp add: bullet_indent_def)
qed

lemma not_id_line_mark: "list_all py_space ws \<Longrightarrow> is_bullet_mark m \<Longrightarrow> \<not> id_line_for u (ws @ m # CHR '' '' # t)"
proof -
  assume a: "list_all py_space ws" "is_bullet_mark m"
  have "strip_line_endings (ws @ m # CHR '' '' # t) = ws @ m # CHR '' '' # rstrip_by is_eol t"
    using rstrip_by_stop [of is_eol "CHR '' ''" "ws @ [m]" t] by (simp add: strip_line_endings_def is_eol_def)
  moreover have "lstrip (ws @ m # x) = m # x" for x
    using a mark_facts [OF a(2)] by (simp add: lstrip_by_append_all lstrip_by_id)
  ultimately show ?thesis
    using mark_facts [OF a(2)] by (auto simp: id_line_for_def Let_def startswith_def lower_def)
qed

lemma length_extra [simp]: "length (extra_lines fresh k cw sents) = 2 * length sents"
  by (induction sents arbitrary: k) auto

lemma bullet_indent_no_mark:
  "list_all py_space ws \<Longrightarrow> \<not> py_space c \<Longrightarrow> \<not> is_bullet_mark c \<Longrightarrow> bullet_indent (ws @ c # t) = None"
proof -
  assume a: "list_all py_space ws" "\<not> py_space c" "\<not> is_bullet_mark c"
  have "\<not> is_eol c" using a(2) by (auto simp: is_eol_def py_space_def)
  then have "strip_line_endings (ws @ c # t) = ws @ c # rstrip_by is_eol t"
    unfolding strip_line_endings_def by (rule rstrip_by_stop)
  then show ?thesis
    using a by (simp add: bullet_indent_def bullet_match_def lstrip_by_append_all lstrip_by_id)
qed

lemma extra_lines_deeper:
  assumes "list_all py_space cw" and "base < length cw"
  shows "l \<in> set (extra_lines fresh k cw sents) \<Longrightarrow> \<not> ends_subtree base l"
proof (induction sents arbitrary: k)
  case (Cons sent sents)
  have "bullet_indent (cw @ CHR ''-'' # CHR '' '' # sent @ [LF]) = Some (length cw)"
    using assms(1) by (intro bullet_indent_line) (simp_all add: is_bullet_mark_def)
  moreover have "bullet_indent ((cw @ ''  '') @ CHR ''i'' # ''d:: '' @ fresh k @ [LF]) = None"
    using assms(1) by (intro bullet_indent_no_mark) (auto simp: py_space_def is_bullet_mark_def)
  ultimately show ?case using Cons assms(2) by (auto simp: ends_subtree_def)
qed simp

definition split_bullet :: "string \<Rightarrow> char \<Rightarrow> string list \<Rightarrow> string \<Rightarrow> string" where
  "split_bullet ws mark sents old = ws @ [mark] @ '' '' @ hd sents @ drop (length (strip_lf old)) old"

lemma apply_one_split_lines:
  assumes "bullet_match (stripped ! b) = Some (ws, mark, r)" and "b < i" and "i < length lines"
  shows "fst (apply_one_split fresh k lines stripped b i sents) =
    (take (i + 1) lines)[b := split_bullet ws mark sents (lines ! b)] @
    extra_lines fresh k (ws @ bullet_indent_unit lines b) (tl sents) @ drop (i + 1) lines"
proof -
  have "(take (i + 1) lines)[b := x] = take b lines @ [x] @ slice (b + 1) (i + 1) lines" for x
    using assms(2,3) by (simp add: upd_conv_take_nth_drop slice_def drop_take min_def)
  then show ?thesis using assms(1) by (simp add: apply_one_split_def Let_def split_bullet_def)
qed

lemma split_block_at:
  assumes blk: "block_at lines v b i e" and bm: "bullet_match (strip_lf (lines ! b)) = Some (ws, mark, r)"
  shows "block_at (fst (apply_one_split fresh k lines (map strip_lf lines) b i sents)) v b i (e + 2 * length (tl sents))"
proof -
  let ?n = "2 * length (tl sents)" and ?nb = "split_bullet ws mark sents (lines ! b)"
  let ?X = "extra_lines fresh k (ws @ bullet_indent_unit lines b) (tl sents)"
  let ?new = "fst (apply_one_split fresh k lines (map strip_lf lines) b i sents)"
  have bi: "b < i" "i < e" "e \<le> length lines" using blk by (auto simp: block_at_def)
  have ind: "bullet_indent (lines ! b) = Some (length ws)"
    using bullet_indent_of_match [OF bm] blk by (auto simp: block_at_def)
  have wm: "list_all py_space ws" "is_bullet_mark mark" using bm bullet_match_decomp by blast+
  have new: "?new = (take (i + 1) lines)[b := ?nb] @ ?X @ drop (i + 1) lines"
    using apply_one_split_lines [of "map strip_lf lines" b ws mark r i lines] bm bi by simp
  have len: "length ?new = length lines + ?n" using bi unfolding new by simp
  have lo: "?new ! j = (if j = b then ?nb else lines ! j)" if "j \<le> i" for j
    using that bi unfolding new by (simp add: nth_append nth_list_update)
  have mid: "?new ! j \<in> set ?X" if "i < j" "j \<le> i + ?n" for j
  proof -
    have d: "j - (i + 1) < length ?X" using that by simp
    have "\<not> j < length ((take (i + 1) lines)[b := ?nb])" using that bi by simp
    moreover have "length ((take (i + 1) lines)[b := ?nb]) = i + 1" using bi by simp
    ultimately have "?new ! j = ?X ! (j - (i + 1))" using d unfolding new by (simp only: nth_append if_False if_True)
    then show ?thesis using nth_mem [OF d] by simp
  qed
  have hi: "?new ! j = lines ! (j - ?n)" if "i + ?n < j" "j < length lines + ?n" for j
  proof -
    have "j = (i + 1) + (?n + (j - ?n - (i + 1)))" using that by simp
    moreover have "((take (i + 1) lines)[b := ?nb] @ ?X @ drop (i + 1) lines) ! ((i + 1) + (?n + q)) = drop (i + 1) lines ! q" for q
      using bi by (simp add: nth_append)
    moreover have "drop (i + 1) lines ! (j - ?n - (i + 1)) = lines ! (j - ?n)"
    proof -
      have "i + 1 + (j - ?n - (i + 1)) = j - ?n" "i + 1 \<le> length lines" using that bi by linarith+
      then show ?thesis by (metis nth_drop)
    qed
    ultimately show ?thesis unfolding new by metis
  qed
  have nb_ind: "bullet_indent ?nb = Some (length ws)"
    using bullet_indent_line [OF wm, of "hd sents @ drop (length (strip_lf (lines ! b))) (lines ! b)"]
    by (simp add: split_bullet_def)
  have nb_id: "\<not> id_line_for u ?nb" for u
    using not_id_line_mark [OF wm, of u "hd sents @ drop (length (strip_lf (lines ! b))) (lines ! b)"]
    by (simp add: split_bullet_def)
  have cw: "list_all py_space (ws @ bullet_indent_unit lines b)" "length ws < length (ws @ bullet_indent_unit lines b)"
    using wm(1) by (auto simp: bullet_indent_unit_def py_space_def split: option.splits)
  have below: "\<not> ends_subtree (length ws) (?new ! j)" if "i < j" "j < e + ?n" for j
  proof (cases "j \<le> i + ?n")
    case True
    then show ?thesis using mid [OF that(1)] extra_lines_deeper [OF cw] by blast
  next
    case False
    then have "i < j - ?n" "j - ?n < e" using that by auto
    then show ?thesis using hi [of j] False bi that blk ind by (auto simp: block_at_def)
  qed
  have at_end: "ends_subtree (length ws) (?new ! (e + ?n))" if "e < length lines"
    using hi [of "e + ?n"] that bi blk ind by (auto simp: block_at_def)
  have "id_line_for (lower (strip v)) (?new ! i)" "\<forall>j < i. \<not> id_line_for (lower (strip v)) (?new ! j)"
    using blk lo bi nb_id by (auto simp: block_at_def)
  moreover have "\<forall>j. b < j \<and> j < i \<longrightarrow> bullet_indent (?new ! j) = None" "bullet_indent (?new ! b) = Some (length ws)"
    using blk lo bi nb_ind by (auto simp: block_at_def)
  ultimately show ?thesis
    using below at_end bi len by (auto simp: block_at_def)
qed

lemma split_block_witness_facts:
  "block_at [''- One. Two.'' @ [LF], ''  id:: u1'' @ [LF], ''- c'' @ [LF]] ''u1'' 0 1 2"
  "bullet_match (strip_lf ([''- One. Two.'' @ [LF], ''  id:: u1'' @ [LF], ''- c'' @ [LF]] ! 0)) = Some ([], CHR ''-'', ''One. Two.'')"
proof -
  have "locate_block_by_uuid [''- One. Two.'' @ [LF], ''  id:: u1'' @ [LF], ''- c'' @ [LF]] ''u1'' = Some (0, 1, 2)" by code_simp
  then show "block_at [''- One. Two.'' @ [LF], ''  id:: u1'' @ [LF], ''- c'' @ [LF]] ''u1'' 0 1 2" by (rule locate_block_at)
  show "bullet_match (strip_lf ([''- One. Two.'' @ [LF], ''  id:: u1'' @ [LF], ''- c'' @ [LF]] ! 0)) = Some ([], CHR ''-'', ''One. Two.'')"
    by code_simp
qed

subsection \<open>Properties\<close>

text \<open>
  Splitting a text into sentences loses nothing but white space, and a sentence is never
  split again.
\<close>

theorem split_sentences_lossless:
  "concat (map nonspace (split_sentences text)) = nonspace text \<and>
   map split_sentences (split_sentences text) = map (\<lambda>p. [p]) (split_sentences text)"
  using split_sentences_text split_sentences_single by auto



text \<open>
  Two pages that the loop corrupts. An unterminated \<open>id::\<close> line at the end of the page gets the
  new bullet glued to it. And after a split the protected indices are stale: the bullet
  inside a code fence further down is split although it was protected.
\<close>

definition example_uuid :: string where
  "example_uuid = ''11111111-1111-4111-8111-111111111111''"

lemma split_unterminated_id_line:
  "concat (snd (split_page_loop 1 (\<lambda>_. ''f'') 0 ''A'' 5 {} [''- One. Two.'' @ [LF], ''  id:: '' @ example_uuid]
      [''- One. Two.'', ''  id:: '' @ example_uuid])) =
    concat [''- One.'', [LF], ''  id:: '', example_uuid, ''  - Two.'', [LF], ''    id:: f'', [LF]]"
  by code_simp

lemma split_stale_protection:
  "(let page = map (\<lambda>l. l @ [LF]) [''- One. Two. Three.'', ''  id:: '' @ example_uuid, ''- code'', ''```'', ''- X. Y.'',
         ''  id:: '' @ example_uuid, ''```'']
    in snd (split_page_loop 5 (\<lambda>_. ''f'') 0 ''A'' 5 (compute_page_protected_line_indices (concat page)) page (map strip_lf page)) =
      map (\<lambda>l. l @ [LF]) [''- One.'', ''  id:: '' @ example_uuid, ''  - Two.'', ''    id:: f'', ''  - Three.'', ''    id:: f'',
         ''- code'', ''```'', ''- X.'', ''  id:: '' @ example_uuid, ''  - Y.'', ''    id:: f'', ''```''])"
  by code_simp

end
