(* ===== verification/Bm25.thy ===== *)
theory Bm25
  imports FileStore "HOL-Library.AList" "HOL-Library.Multiset" "HOL-Library.Char_ord"
    "HOL-Library.List_Lexorder" "HOL-Library.Product_Lexorder"
begin

section \<open>The BM25 corpus and its query cache\<close>

text \<open>
  Model of the BM25 half of \<open>src/graph/generational_cache.py\<close> and of \<open>tokenize\<close> in
  \<open>src/rag/local_query.py\<close>. A \<open>dict\<close> is an association list in insertion order
  (\<open>AList.update\<close>, \<open>AList.delete\<close>), an \<open>OrderedDict\<close> is one whose order is moved by use.
  Floating-point numbers are rational numbers, so scores are exact; \<open>math.log\<close> is the
  parameter \<open>lg\<close>, of which only that it is positive above 1 is ever used. Timing counters
  are left out.
\<close>

subsection \<open>Tokens\<close>

definition is_token_char :: "char \<Rightarrow> bool" where
  "is_token_char c \<longleftrightarrow> is_digit c \<or> is_alpha_ascii c"

function tokenize :: "string \<Rightarrow> string list" where
  "tokenize [] = []"
| "tokenize (c # cs) =
     (if is_token_char c then lower (c # takeWhile is_token_char cs) # tokenize (dropWhile is_token_char cs)
      else tokenize cs)"
  by pat_completeness auto
termination
  by (relation "measure length") (auto simp: length_dropWhile_le le_imp_less_Suc)

type_synonym counts = "(string \<times> nat) list"

definition dcount :: "counts \<Rightarrow> string \<Rightarrow> nat" where
  "dcount d t = (case map_of d t of None \<Rightarrow> 0 | Some n \<Rightarrow> n)"

definition tokens_to_term_freqs :: "string list \<Rightarrow> counts" where
  "tokens_to_term_freqs tokens = foldl (\<lambda>tf token. AList.update token (dcount tf token + 1) tf) [] tokens"

subsection \<open>The corpus\<close>

type_synonym query_key = "string list \<times> nat \<times> rat \<times> rat"
type_synonym rows = "(string \<times> rat) list"

record bm25_corpus =
  bc_rels :: "string list"
  bc_doc_term_freqs :: "counts list"
  bc_doc_lens :: "nat list"
  bc_df :: counts
  bc_n_docs :: nat
  bc_avgdl :: rat
  bc_query_cache :: "(query_key \<times> rows) list"
  bc_hits :: nat
  bc_misses :: nat
  bc_invalidations :: nat
  bc_evictions :: nat
  bc_result_rows :: int

definition avgdl_of :: "nat list \<Rightarrow> nat \<Rightarrow> rat" where
  "avgdl_of lens n = (if n \<noteq> 0 then of_nat (sum_list lens) / of_nat n else 1)"

definition delete_nth :: "nat \<Rightarrow> 'a list \<Rightarrow> 'a list" where
  "delete_nth i xs = take i xs @ drop (Suc i) xs"

definition df_incr :: "counts \<Rightarrow> string \<Rightarrow> counts" where
  "df_incr df token = AList.update token (dcount df token + 1) df"

text \<open>\<open>count = df.get(token, 0) - 1\<close>: the entry goes when the count is no longer positive.\<close>

definition df_decr :: "counts \<Rightarrow> string \<Rightarrow> counts" where
  "df_decr df token =
     (let count = int (dcount df token) - 1
      in if count \<le> 0 then AList.delete token df else AList.update token (nat count) df)"

definition list_index :: "string list \<Rightarrow> string \<Rightarrow> nat" where
  "list_index xs x = length (takeWhile (\<lambda>y. y \<noteq> x) xs)"

definition remove_bm25_doc :: "bm25_corpus \<Rightarrow> string \<Rightarrow> bm25_corpus" where
  "remove_bm25_doc corpus rel =
     (if rel \<notin> set (bc_rels corpus) then corpus
      else
        let idx = list_index (bc_rels corpus) rel;
            old_tf = bc_doc_term_freqs corpus ! idx;
            lens = delete_nth idx (bc_doc_lens corpus);
            n = bc_n_docs corpus - 1
        in corpus\<lparr>bc_df := foldl df_decr (bc_df corpus) (map fst old_tf),
             bc_rels := delete_nth idx (bc_rels corpus),
             bc_doc_term_freqs := delete_nth idx (bc_doc_term_freqs corpus),
             bc_doc_lens := lens, bc_n_docs := n, bc_avgdl := avgdl_of lens n\<rparr>)"

definition replace_bm25_doc :: "bm25_corpus \<Rightarrow> string \<Rightarrow> string list \<Rightarrow> bm25_corpus" where
  "replace_bm25_doc corpus rel tokens =
     (let c = remove_bm25_doc corpus rel
      in if tokens = [] then c
         else let tf = tokens_to_term_freqs tokens;
                  lens = bc_doc_lens c @ [length tokens];
                  n = bc_n_docs c + 1
              in c\<lparr>bc_rels := bc_rels c @ [rel], bc_doc_term_freqs := bc_doc_term_freqs c @ [tf],
                   bc_doc_lens := lens, bc_df := foldl df_incr (bc_df c) (map fst tf),
                   bc_n_docs := n, bc_avgdl := avgdl_of lens n\<rparr>)"

definition empty_corpus :: bm25_corpus where
  "empty_corpus = \<lparr>bc_rels = [], bc_doc_term_freqs = [], bc_doc_lens = [], bc_df = [], bc_n_docs = 0, bc_avgdl = 1,
     bc_query_cache = [], bc_hits = 0, bc_misses = 0, bc_invalidations = 0, bc_evictions = 0, bc_result_rows = 0\<rparr>"

text \<open>
  \<open>_build_bm25_corpus\<close> on the scannable pages in path order; a page that cannot be read has
  no text.
\<close>

definition build_bm25_corpus :: "(string \<times> string option) list \<Rightarrow> bm25_corpus" where
  "build_bm25_corpus pages =
     (let docs = filter (\<lambda>(rel, toks). toks \<noteq> [])
                   (List.map_filter (\<lambda>(rel, raw). map_option (\<lambda>t. (rel, tokenize t)) raw) pages);
          tfs = map (\<lambda>(rel, toks). tokens_to_term_freqs toks) docs;
          lens = map (\<lambda>(rel, toks). length toks) docs
      in if docs = [] then empty_corpus
         else empty_corpus\<lparr>bc_rels := map fst docs, bc_doc_term_freqs := tfs, bc_doc_lens := lens,
                bc_df := foldl (\<lambda>df tf. foldl df_incr df (map fst tf)) [] tfs,
                bc_n_docs := length docs, bc_avgdl := avgdl_of lens (length docs)\<rparr>)"

subsection \<open>Queries\<close>

definition BM25_MAX_ENTRIES :: nat where
  "BM25_MAX_ENTRIES = 8192"

definition BM25_MAX_RESULT_ROWS :: int where
  "BM25_MAX_RESULT_ROWS = 65536"

definition term_score :: "(rat \<Rightarrow> rat) \<Rightarrow> bm25_corpus \<Rightarrow> rat \<Rightarrow> rat \<Rightarrow> counts \<Rightarrow> nat \<Rightarrow> string \<Rightarrow> rat" where
  "term_score lg corpus k1 b tf dl t =
     (let freq = dcount tf t
      in if freq = 0 then 0
         else let n = of_nat (bc_n_docs corpus); d = of_nat (dcount (bc_df corpus) t);
                  idf = lg ((n - d + 1/2) / (d + 1/2) + 1);
                  norm = (if bc_avgdl corpus \<noteq> 0 then of_nat dl / bc_avgdl corpus else 1);
                  denom = of_nat freq + k1 * (1 - b + b * norm)
              in idf * ((of_nat freq * (k1 + 1)) / denom))"

definition doc_score :: "(rat \<Rightarrow> rat) \<Rightarrow> bm25_corpus \<Rightarrow> rat \<Rightarrow> rat \<Rightarrow> string list \<Rightarrow> counts \<Rightarrow> nat \<Rightarrow> rat" where
  "doc_score lg corpus k1 b q_tokens tf dl =
     foldl (\<lambda>score t. score + term_score lg corpus k1 b tf dl t) 0 q_tokens"

text \<open>The scoring of one query without the cache.\<close>

definition score_rows :: "(rat \<Rightarrow> rat) \<Rightarrow> bm25_corpus \<Rightarrow> query_key \<Rightarrow> rows" where
  "score_rows lg corpus key =
     (let (q_tokens, capped, k1, b) = key;
          scores = map (\<lambda>(rel, tf, dl). (rel, doc_score lg corpus k1 b q_tokens tf dl))
                     (zip (bc_rels corpus) (zip (bc_doc_term_freqs corpus) (bc_doc_lens corpus)))
      in take capped (sort_key (\<lambda>(rel, score). (- score, rel)) (filter (\<lambda>(rel, score). 0 < score) scores)))"

text \<open>The eviction loop pops the oldest entries until both bounds hold.\<close>

fun evict_queries :: "(query_key \<times> rows) list \<Rightarrow> int \<Rightarrow> nat \<Rightarrow> (query_key \<times> rows) list \<times> int \<times> nat" where
  "evict_queries [] result_rows evictions = ([], result_rows, evictions)"
| "evict_queries (e # rest) result_rows evictions =
     (if BM25_MAX_ENTRIES < length (e # rest) \<or> BM25_MAX_RESULT_ROWS < result_rows
      then evict_queries rest (result_rows - int (length (snd e))) (evictions + 1)
      else (e # rest, result_rows, evictions))"

definition score_bm25_query ::
  "(rat \<Rightarrow> rat) \<Rightarrow> bm25_corpus \<Rightarrow> string \<Rightarrow> int \<Rightarrow> rat \<Rightarrow> rat \<Rightarrow> bm25_corpus \<times> rows" where
  "score_bm25_query lg corpus query limit k1 b =
     (let q_tokens = tokenize query
      in if q_tokens = [] \<or> bc_n_docs corpus = 0 then (corpus, [])
         else
           let capped = nat (max 1 (min limit 100));
               key = (q_tokens, capped, k1, b)
           in case map_of (bc_query_cache corpus) key of
                Some cached \<Rightarrow>
                  (corpus\<lparr>bc_query_cache := AList.delete key (bc_query_cache corpus) @ [(key, cached)],
                     bc_hits := bc_hits corpus + 1\<rparr>, cached)
              | None \<Rightarrow>
                  (let result = score_rows lg corpus key;
                       (cache, result_rows, evictions) =
                         evict_queries (bc_query_cache corpus @ [(key, result)])
                           (bc_result_rows corpus + int (length result)) (bc_evictions corpus)
                   in (corpus\<lparr>bc_misses := bc_misses corpus + 1, bc_query_cache := cache,
                         bc_result_rows := result_rows, bc_evictions := evictions\<rparr>, result)))"

subsection \<open>Patching a warm corpus\<close>

text \<open>
  The BM25 part of \<open>patch_generational_caches_for_paths\<close>: the query cache is dropped, then the
  removed pages go, then each changed page is removed (it is not a file any more, or cannot
  be read: \<open>None\<close>) or replaced by its new text.
\<close>

definition patch_doc :: "bm25_corpus \<Rightarrow> string \<times> string option \<Rightarrow> bm25_corpus" where
  "patch_doc corpus change =
     (case change of
        (rel, None) \<Rightarrow> remove_bm25_doc corpus rel
      | (rel, Some raw) \<Rightarrow> replace_bm25_doc corpus rel (tokenize raw))"

definition patch_bm25_corpus :: "bm25_corpus \<Rightarrow> string list \<Rightarrow> (string \<times> string option) list \<Rightarrow> bm25_corpus" where
  "patch_bm25_corpus corpus removed_rels changed =
     (let c = (if removed_rels \<noteq> [] \<or> changed \<noteq> []
               then corpus\<lparr>bc_query_cache := [], bc_result_rows := 0, bc_invalidations := bc_invalidations corpus + 1\<rparr>
               else corpus)
      in foldl patch_doc (foldl remove_bm25_doc c removed_rels) changed)"

subsection \<open>Counts\<close>

lemma dcount_update [simp]: "dcount (AList.update k n d) t = (if t = k then n else dcount d t)"
  by (simp add: dcount_def update_conv')

lemma dcount_delete [simp]: "dcount (AList.delete k d) t = (if t = k then 0 else dcount d t)"
  by (simp add: dcount_def delete_conv')

lemma dcount_Nil [simp]: "dcount [] t = 0"
  by (simp add: dcount_def)

lemma dcount_df_incr [simp]: "dcount (df_incr df k) t = dcount df t + (if t = k then 1 else 0)"
  by (simp add: df_incr_def)

lemma dcount_df_decr [simp]: "dcount (df_decr df k) t = dcount df t - (if t = k then 1 else 0)"
  by (auto simp: df_decr_def Let_def)

lemma dcount_incr_all: "distinct ts \<Longrightarrow> dcount (foldl df_incr df ts) t = dcount df t + (if t \<in> set ts then 1 else 0)"
  by (induction ts arbitrary: df) auto

lemma dcount_decr_all: "distinct ts \<Longrightarrow> dcount (foldl df_decr df ts) t = dcount df t - (if t \<in> set ts then 1 else 0)"
  by (induction ts arbitrary: df) auto

lemma distinct_term_freqs: "distinct (map fst (tokens_to_term_freqs tokens))"
proof -
  have "distinct (map fst tf) \<Longrightarrow>
      distinct (map fst (foldl (\<lambda>tf token. AList.update token (dcount tf token + 1) tf) tf tokens))" for tf
    by (induction tokens arbitrary: tf) (simp_all add: distinct_update)
  then show ?thesis by (simp add: tokens_to_term_freqs_def)
qed

text \<open>The counts of a document are the numbers of occurrences.\<close>

lemma term_freqs_count: "dcount (tokens_to_term_freqs tokens) t = count_list tokens t"
proof -
  have "dcount (foldl (\<lambda>tf token. AList.update token (dcount tf token + 1) tf) tf tokens) t = dcount tf t + count_list tokens t" for tf
    by (induction tokens arbitrary: tf) auto
  then show ?thesis by (simp add: tokens_to_term_freqs_def)
qed

subsection \<open>The invariant of a corpus\<close>

definition docs_with :: "counts list \<Rightarrow> string \<Rightarrow> nat" where
  "docs_with tfs t = length (filter (\<lambda>tf. t \<in> fst ` set tf) tfs)"

definition bm25_view :: "bm25_corpus \<Rightarrow> (string \<rightharpoonup> counts \<times> nat)" where
  "bm25_view c = map_of (zip (bc_rels c) (zip (bc_doc_term_freqs c) (bc_doc_lens c)))"

definition corpus_ok :: "bm25_corpus \<Rightarrow> bool" where
  "corpus_ok c \<longleftrightarrow>
     length (bc_rels c) = bc_n_docs c \<and> length (bc_doc_term_freqs c) = bc_n_docs c \<and> length (bc_doc_lens c) = bc_n_docs c \<and>
     distinct (bc_rels c) \<and> (\<forall>tf \<in> set (bc_doc_term_freqs c). distinct (map fst tf)) \<and>
     (\<forall>t. dcount (bc_df c) t = docs_with (bc_doc_term_freqs c) t) \<and>
     bc_avgdl c = avgdl_of (bc_doc_lens c) (bc_n_docs c)"

lemma corpus_ok_empty [simp]: "corpus_ok empty_corpus" "bm25_view empty_corpus = Map.empty"
  by (simp_all add: corpus_ok_def empty_corpus_def docs_with_def avgdl_of_def bm25_view_def)

lemma list_index_split:
  assumes "x \<in> set xs"
  shows "list_index xs x < length xs" "xs ! list_index xs x = x"
    "delete_nth (list_index xs x) xs = takeWhile (\<lambda>y. y \<noteq> x) xs @ tl (dropWhile (\<lambda>y. y \<noteq> x) xs)"
proof -
  have d: "dropWhile (\<lambda>y. y \<noteq> x) xs \<noteq> []" using assms by (auto simp: dropWhile_eq_Nil_conv)
  have split: "takeWhile (\<lambda>y. y \<noteq> x) xs @ dropWhile (\<lambda>y. y \<noteq> x) xs = xs" by simp
  show "list_index xs x < length xs"
    using d split unfolding list_index_def by (metis length_append length_greater_0_conv less_add_same_cancel1)
  then show "xs ! list_index xs x = x" unfolding list_index_def using nth_length_takeWhile by blast
  show "delete_nth (list_index xs x) xs = takeWhile (\<lambda>y. y \<noteq> x) xs @ tl (dropWhile (\<lambda>y. y \<noteq> x) xs)"
    unfolding delete_nth_def list_index_def
    by (metis append_eq_conv_conj drop_Suc dropWhile_eq_drop split tl_drop)
qed

lemma delete_nth_facts:
  assumes "i < length xs"
  shows "length (delete_nth i xs) = length xs - 1" "set (delete_nth i xs) \<subseteq> set xs"
    "mset xs = add_mset (xs ! i) (mset (delete_nth i xs))"
proof -
  show "length (delete_nth i xs) = length xs - 1" using assms by (simp add: delete_nth_def)
  show "set (delete_nth i xs) \<subseteq> set xs" by (auto simp: delete_nth_def dest: in_set_takeD in_set_dropD)
  show "mset xs = add_mset (xs ! i) (mset (delete_nth i xs))"
    unfolding delete_nth_def using assms by (subst id_take_nth_drop [OF assms]) simp
qed

lemma delete_nth_zip: "delete_nth i (zip xs ys) = zip (delete_nth i xs) (delete_nth i ys)" if "length xs = length ys"
  using that by (simp add: delete_nth_def take_zip drop_zip)

lemma map_of_mid: "distinct (map fst (xs @ x # ys)) \<Longrightarrow> map_of (xs @ ys) = (map_of (xs @ x # ys))(fst x := None)"
proof (rule ext)
  fix z
  assume d: "distinct (map fst (xs @ x # ys))"
  then have "map_of xs (fst x) = None" "map_of ys (fst x) = None" by (auto simp: map_of_eq_None_iff)
  then show "map_of (xs @ ys) z = ((map_of (xs @ x # ys))(fst x := None)) z"
    by (auto simp: map_add_def split: option.splits)
qed

lemma map_of_delete_nth:
  assumes "distinct (map fst al)" and "i < length al"
  shows "map_of (delete_nth i al) = (map_of al)(fst (al ! i) := None)"
proof -
  have al: "al = take i al @ al ! i # drop (Suc i) al" by (rule id_take_nth_drop [OF assms(2)])
  then show ?thesis
    using map_of_mid [of "take i al" "al ! i" "drop (Suc i) al"] assms(1) by (simp add: delete_nth_def)
qed

lemma docs_with_perm: "mset xs = mset ys \<Longrightarrow> docs_with xs t = docs_with ys t"
  unfolding docs_with_def by (metis mset_filter size_mset)

lemma docs_with_add: "mset xs = add_mset x (mset ys) \<Longrightarrow> docs_with xs t = docs_with ys t + (if t \<in> fst ` set x then 1 else 0)"
  using docs_with_perm [of xs "x # ys" t] by (simp add: docs_with_def)

lemma remove_ok:
  assumes "corpus_ok c"
  shows "corpus_ok (remove_bm25_doc c rel) \<and> bm25_view (remove_bm25_doc c rel) = (bm25_view c)(rel := None)"
proof (cases "rel \<in> set (bc_rels c)")
  case False
  then have "bm25_view c rel = None"
    using assms by (auto simp: bm25_view_def corpus_ok_def map_of_eq_None_iff dest!: set_zip_leftD)
  then show ?thesis using assms False by (simp add: remove_bm25_doc_def fun_upd_idem)
next
  case True
  let ?i = "list_index (bc_rels c) rel" and ?tfs = "bc_doc_term_freqs c"
  have len: "length ?tfs = length (bc_rels c)" "length (bc_doc_lens c) = length (bc_rels c)" "bc_n_docs c = length (bc_rels c)"
    and ok: "distinct (bc_rels c)" "\<forall>tf \<in> set ?tfs. distinct (map fst tf)"
    "\<forall>t. dcount (bc_df c) t = docs_with ?tfs t"
    using assms by (auto simp: corpus_ok_def)
  have i: "?i < length (bc_rels c)" "bc_rels c ! ?i = rel" using list_index_split [OF True] by auto
  have it: "?i < length ?tfs" "?i < length (bc_doc_lens c)" using i(1) len by simp_all
  have tf: "distinct (map fst (?tfs ! ?i))" using ok(2) it(1) by simp
  have df: "dcount (foldl df_decr (bc_df c) (map fst (?tfs ! ?i))) t = docs_with (delete_nth ?i ?tfs) t" for t
    using dcount_decr_all [OF tf, of "bc_df c" t] docs_with_add [OF delete_nth_facts(3) [OF it(1)], of t] ok(3) by simp
  have dis: "distinct (delete_nth ?i (bc_rels c))"
  proof -
    have "distinct (take ?i (bc_rels c) @ bc_rels c ! ?i # drop (Suc ?i) (bc_rels c))"
      using ok(1) by (simp only: id_take_nth_drop [OF i(1), symmetric])
    then show ?thesis by (simp add: delete_nth_def)
  qed
  have sub: "\<forall>tf \<in> set (delete_nth ?i ?tfs). distinct (map fst tf)"
    using ok(2) delete_nth_facts(2) [OF it(1)] by blast
  have view: "map_of (zip (delete_nth ?i (bc_rels c)) (zip (delete_nth ?i ?tfs) (delete_nth ?i (bc_doc_lens c)))) =
      (bm25_view c)(rel := None)"
  proof -
    let ?al = "zip (bc_rels c) (zip ?tfs (bc_doc_lens c))"
    have "map_of (delete_nth ?i ?al) = (map_of ?al)(fst (?al ! ?i) := None)"
      using ok(1) len i(1) by (intro map_of_delete_nth) (simp_all add: map_fst_zip)
    then show ?thesis using len i it by (simp add: delete_nth_zip bm25_view_def)
  qed
  show ?thesis
    using True dis sub df view len delete_nth_facts(1) [OF i(1)] delete_nth_facts(1) [OF it(1)] delete_nth_facts(1) [OF it(2)]
    by (simp add: remove_bm25_doc_def Let_def corpus_ok_def bm25_view_def)
qed

lemma replace_ok:
  assumes "corpus_ok c"
  shows "corpus_ok (replace_bm25_doc c rel tokens) \<and> bm25_view (replace_bm25_doc c rel tokens) =
    (bm25_view c)(rel := if tokens = [] then None else Some (tokens_to_term_freqs tokens, length tokens))"
proof (cases "tokens = []")
  case True
  then show ?thesis using remove_ok [OF assms] by (simp add: replace_bm25_doc_def)
next
  case False
  let ?c = "remove_bm25_doc c rel" and ?tf = "tokens_to_term_freqs tokens"
  have ok: "corpus_ok ?c" and view: "bm25_view ?c = (bm25_view c)(rel := None)" using remove_ok [OF assms] by auto
  have len: "length (bc_doc_term_freqs ?c) = length (bc_rels ?c)" "length (bc_doc_lens ?c) = length (bc_rels ?c)"
    using ok by (auto simp: corpus_ok_def)
  have "bm25_view ?c rel = None" using view by simp
  then have new: "rel \<notin> set (bc_rels ?c)"
    using len by (simp add: bm25_view_def map_of_eq_None_iff) (metis map_fst_zip length_zip min.idem list.set_map)
  have df: "dcount (foldl df_incr (bc_df ?c) (map fst ?tf)) t = docs_with (bc_doc_term_freqs ?c @ [?tf]) t" for t
    using dcount_incr_all [OF distinct_term_freqs, of "bc_df ?c" tokens t] ok
    by (simp add: corpus_ok_def docs_with_def)
  have v: "map_of (zip (bc_rels ?c @ [rel]) (zip (bc_doc_term_freqs ?c @ [?tf]) (bc_doc_lens ?c @ [length tokens]))) =
      (bm25_view c)(rel \<mapsto> (?tf, length tokens))"
  proof -
    have "map_of (zip (bc_rels ?c @ [rel]) (zip (bc_doc_term_freqs ?c @ [?tf]) (bc_doc_lens ?c @ [length tokens]))) =
        map_of (zip (bc_rels ?c) (zip (bc_doc_term_freqs ?c) (bc_doc_lens ?c)) @ [(rel, ?tf, length tokens)])"
      using len by simp
    also have "\<dots> = [rel \<mapsto> (?tf, length tokens)] ++ bm25_view ?c" by (simp add: bm25_view_def)
    finally show ?thesis unfolding view by (intro ext) (simp add: map_add_def split: option.splits)
  qed
  show ?thesis
    using False new df v ok distinct_term_freqs [of tokens]
    by (auto simp: replace_bm25_doc_def Let_def corpus_ok_def bm25_view_def)
qed

subsection \<open>Document indexes\<close>

text \<open>
  The law of an incrementally maintained index: one step re-reads one document, whose new text
  is absent or present, and what the index shows changes at that document only.
\<close>

definition overlay :: "('t \<Rightarrow> 'd option) \<Rightarrow> ('r \<rightharpoonup> 'd) \<Rightarrow> ('r \<times> 't option) list \<Rightarrow> ('r \<rightharpoonup> 'd)" where
  "overlay conv m changes = foldl (\<lambda>m (r, t). m(r := Option.bind t conv)) m changes"

lemma overlay_simps [simp]:
  "overlay conv m [] = m"
  "overlay conv m ((r, t) # cs) = overlay conv (m(r := Option.bind t conv)) cs"
  by (simp_all add: overlay_def)

lemma overlay_append: "overlay conv m (cs @ ds) = overlay conv (overlay conv m cs) ds"
  by (simp add: overlay_def)

lemma overlay_distinct:
  "distinct (map fst cs) \<Longrightarrow>
   overlay conv m cs r = (case map_of cs r of None \<Rightarrow> m r | Some t \<Rightarrow> Option.bind t conv)"
proof (induction cs arbitrary: m)
  case (Cons c cs)
  have "map_of cs (fst c) = None" using Cons.prems by (simp add: map_of_eq_None_iff)
  with Cons show ?case by (cases c) (auto split: option.splits)
qed simp

locale doc_index =
  fixes ok :: "'c \<Rightarrow> bool" and view :: "'c \<Rightarrow> ('r \<rightharpoonup> 'd)"
    and step :: "'c \<Rightarrow> 'r \<times> 't option \<Rightarrow> 'c" and conv :: "'t \<Rightarrow> 'd option"
  assumes step_ok: "ok c \<Longrightarrow> ok (step c (r, t))"
    and step_view: "ok c \<Longrightarrow> view (step c (r, t)) = (view c)(r := Option.bind t conv)"
begin

lemma fold_steps: "ok c \<Longrightarrow> ok (foldl step c changes) \<and> view (foldl step c changes) = overlay conv (view c) changes"
  by (induction changes arbitrary: c) (auto simp: step_ok step_view)

lemma fold_confluent:
  "ok c \<Longrightarrow> ok c' \<Longrightarrow> overlay conv (view c) changes = overlay conv (view c') changes' \<Longrightarrow>
   view (foldl step c changes) = view (foldl step c' changes')"
  by (simp add: fold_steps)

end

definition doc_entry :: "string \<Rightarrow> (counts \<times> nat) option" where
  "doc_entry raw = (let toks = tokenize raw in if toks = [] then None else Some (tokens_to_term_freqs toks, length toks))"

interpretation bm25: doc_index corpus_ok bm25_view patch_doc doc_entry
proof
  show "corpus_ok c \<Longrightarrow> corpus_ok (patch_doc c (r, t))" for c r t
    by (cases t) (simp_all add: patch_doc_def remove_ok replace_ok)
  show "corpus_ok c \<Longrightarrow> bm25_view (patch_doc c (r, t)) = (bm25_view c)(r := Option.bind t doc_entry)" for c r t
    by (cases t) (simp_all add: patch_doc_def remove_ok replace_ok doc_entry_def Let_def)
qed

lemma remove_is_patch: "remove_bm25_doc c rel = patch_doc c (rel, None)"
  by (simp add: patch_doc_def)

lemma patch_view:
  assumes "corpus_ok c"
  shows "corpus_ok (patch_bm25_corpus c removed changed) \<and>
    bm25_view (patch_bm25_corpus c removed changed) =
      overlay doc_entry (bm25_view c) (map (\<lambda>rel. (rel, None)) removed @ changed)"
proof -
  have r: "foldl remove_bm25_doc c removed = foldl patch_doc c (map (\<lambda>rel. (rel, None)) removed)" for c
    by (induction removed arbitrary: c) (simp_all add: remove_is_patch)
  let ?c = "c\<lparr>bc_query_cache := [], bc_result_rows := 0, bc_invalidations := bc_invalidations c + 1\<rparr>"
  have ok: "corpus_ok ?c" "bm25_view ?c = bm25_view c"
    using assms by (simp_all add: corpus_ok_def bm25_view_def)
  show ?thesis
    using bm25.fold_steps [OF ok(1), of "map (\<lambda>rel. (rel, None)) removed @ changed"] ok(2) assms
    unfolding patch_bm25_corpus_def Let_def r foldl_append [symmetric] by simp
qed

subsection \<open>A full rebuild\<close>

definition page_text :: "(string \<times> string option) list \<Rightarrow> (string \<rightharpoonup> string)" where
  "page_text pages rel = Option.bind (map_of pages rel) (\<lambda>raw. raw)"

lemma foldl_df_docs:
  "\<forall>tf \<in> set tfs. distinct (map fst tf) \<Longrightarrow>
   dcount (foldl (\<lambda>df tf. foldl df_incr df (map fst tf)) df tfs) t = dcount df t + docs_with tfs t"
  by (induction tfs arbitrary: df) (simp_all add: dcount_incr_all docs_with_def)

lemma indexed_docs:
  fixes pages :: "(string \<times> string option) list"
  defines "docs \<equiv> filter (\<lambda>(rel, toks). toks \<noteq> []) (List.map_filter (\<lambda>(rel, raw). map_option (\<lambda>t. (rel, tokenize t)) raw) pages)"
  assumes "distinct (map fst pages)"
  shows "distinct (map fst docs)" and "map_of docs rel = Option.bind (page_text pages rel) (\<lambda>raw. if tokenize raw = [] then None else Some (tokenize raw))"
proof -
  have "distinct (map fst docs) \<and> fst ` set docs \<subseteq> fst ` set pages \<and>
      map_of docs rel = Option.bind (page_text pages rel) (\<lambda>raw. if tokenize raw = [] then None else Some (tokenize raw))"
    using assms(2) unfolding docs_def page_text_def
  proof (induction pages)
    case (Cons p ps)
    let ?d = "filter (\<lambda>(rel, toks). toks \<noteq> []) (List.map_filter (\<lambda>(rel, raw). map_option (\<lambda>t. (rel, tokenize t)) raw) ps)"
    obtain r raw where p: "p = (r, raw)" by (cases p)
    have fresh: "r \<notin> fst ` set ps" and IH: "distinct (map fst ?d)" "fst ` set ?d \<subseteq> fst ` set ps"
      "map_of ?d rel = Option.bind (Option.bind (map_of ps rel) (\<lambda>raw. raw)) (\<lambda>raw. if tokenize raw = [] then None else Some (tokenize raw))"
      using Cons by (simp_all add: p)
    have nd: "r \<notin> fst ` set ?d" using fresh IH(2) by blast
    have nd': "map_of ?d r = None" using nd by (simp only: map_of_eq_None_iff) simp
    show ?case using IH nd nd' fresh by (cases raw) (auto simp: p map_filter_simps)
  qed (simp add: map_filter_simps)
  then show "distinct (map fst docs)" and "map_of docs rel = Option.bind (page_text pages rel) (\<lambda>raw. if tokenize raw = [] then None else Some (tokenize raw))"
    by simp_all
qed

lemma build_ok:
  assumes "distinct (map fst pages)"
  shows "corpus_ok (build_bm25_corpus pages) \<and> bm25_view (build_bm25_corpus pages) = (\<lambda>rel. Option.bind (page_text pages rel) doc_entry)"
proof -
  let ?docs = "filter (\<lambda>(rel, toks). toks \<noteq> []) (List.map_filter (\<lambda>(rel, raw). map_option (\<lambda>t. (rel, tokenize t)) raw) pages)"
  note idx = indexed_docs [OF assms]
  have z: "zip (map fst ds) (zip (map (\<lambda>(rel, toks). tokens_to_term_freqs toks) ds) (map (\<lambda>(rel, toks). length toks) ds)) =
      map (\<lambda>(rel, toks). (rel, tokens_to_term_freqs toks, length toks)) ds" for ds :: "(string \<times> string list) list"
    by (induction ds) auto
  have v: "map_of (map (\<lambda>(rel, toks). (rel, tokens_to_term_freqs toks, length toks)) ds) rel =
      map_option (\<lambda>toks. (tokens_to_term_freqs toks, length toks)) (map_of ds rel)" for ds :: "(string \<times> string list) list" and rel
    by (induction ds) auto
  have view: "bm25_view (build_bm25_corpus pages) rel = Option.bind (page_text pages rel) doc_entry" for rel
    using idx(2) [of rel] v [of ?docs rel]
    by (auto simp: build_bm25_corpus_def Let_def bm25_view_def z doc_entry_def empty_corpus_def split: option.splits bind_split)
  have tfs: "\<forall>tf \<in> set (map (\<lambda>(rel, toks). tokens_to_term_freqs toks) ?docs). distinct (map fst tf)"
    by (auto simp: distinct_term_freqs)
  have "corpus_ok (build_bm25_corpus pages)"
    using idx(1) tfs
    by (auto simp: build_bm25_corpus_def Let_def corpus_ok_def empty_corpus_def foldl_df_docs avgdl_of_def docs_with_def)
  then show ?thesis using view by blast
qed

subsection \<open>A query depends on the view only\<close>

lemma corpus_entries:
  assumes "corpus_ok c"
  defines "al \<equiv> zip (bc_rels c) (zip (bc_doc_term_freqs c) (bc_doc_lens c))"
  shows "distinct (map fst al)" "bc_n_docs c = length al" "bc_doc_lens c = map (\<lambda>e. snd (snd e)) al"
    "bc_doc_term_freqs c = map (\<lambda>e. fst (snd e)) al"
proof -
  have len: "length (bc_rels c) = bc_n_docs c" "length (bc_doc_term_freqs c) = bc_n_docs c" "length (bc_doc_lens c) = bc_n_docs c"
    and d: "distinct (bc_rels c)" using assms(1) by (auto simp: corpus_ok_def)
  have "map fst al = bc_rels c" using len by (simp add: al_def)
  then show "distinct (map fst al)" using d by simp
  show "bc_n_docs c = length al" using len by (simp add: al_def)
  have s: "map snd al = zip (bc_doc_term_freqs c) (bc_doc_lens c)" using len by (simp add: al_def)
  have "map snd (map snd al) = bc_doc_lens c" "map fst (map snd al) = bc_doc_term_freqs c"
    unfolding s using len by simp_all
  then show "bc_doc_lens c = map (\<lambda>e. snd (snd e)) al" "bc_doc_term_freqs c = map (\<lambda>e. fst (snd e)) al"
    by (simp_all add: comp_def)
qed

lemma score_rows_view:
  assumes ok: "corpus_ok c" "corpus_ok c'" and view: "bm25_view c = bm25_view c'"
  shows "score_rows lg c key = score_rows lg c' key"
proof -
  let ?al = "zip (bc_rels c) (zip (bc_doc_term_freqs c) (bc_doc_lens c))"
    and ?al' = "zip (bc_rels c') (zip (bc_doc_term_freqs c') (bc_doc_lens c'))"
  note e = corpus_entries [OF ok(1)] and e' = corpus_entries [OF ok(2)]
  have "set ?al = set ?al'" using view e(1) e'(1) by (simp add: bm25_view_def map_of_inject_set)
  then have m: "mset ?al = mset ?al'"
    using e(1) e'(1) by (metis distinct_map set_eq_iff_mset_eq_distinct)
  have n: "bc_n_docs c = bc_n_docs c'" using e(2) e'(2) mset_eq_length [OF m] by simp

  have "mset (bc_doc_lens c) = mset (bc_doc_lens c')" by (subst e(3), subst e'(3)) (simp add: m)
  then have "sum_list (bc_doc_lens c) = sum_list (bc_doc_lens c')" by (simp only: sum_mset_sum_list [symmetric])
  then have avg: "bc_avgdl c = bc_avgdl c'" using ok n by (simp add: corpus_ok_def avgdl_of_def)
  have tfs: "mset (bc_doc_term_freqs c) = mset (bc_doc_term_freqs c')" by (subst e(4), subst e'(4)) (simp add: m)
  have df: "dcount (bc_df c) t = dcount (bc_df c') t" for t
    using ok docs_with_perm [OF tfs, of t] by (simp add: corpus_ok_def)
  obtain q capped k1 b where key: "key = (q, capped, k1, b)" by (cases key)
  let ?s = "\<lambda>c. \<lambda>(rel, tf, dl). (rel, doc_score lg c k1 b q tf dl)" and ?f = "\<lambda>(rel :: string, score :: rat). (- score, rel)"
  have ts: "term_score lg c = term_score lg c'" by (intro ext) (simp add: term_score_def Let_def n avg df)
  have sc: "?s c = ?s c'" by (simp add: doc_score_def ts)
  let ?xs = "filter (\<lambda>(rel, score). 0 < score) (map (?s c) ?al)" and ?ys = "filter (\<lambda>(rel, score). 0 < score) (map (?s c) ?al')"
  have perm: "mset ?xs = mset (sort_key ?f ?ys)" using m by simp
  have inj: "inj_on ?f (set ?xs)" by (auto simp: inj_on_def)
  have "sort_key ?f ?xs = sort_key ?f ?ys"
    by (rule sort_key_inj_key_eq [OF perm inj]) (rule sorted_sort_key)
  then show ?thesis by (simp add: score_rows_def key sc)
qed

subsection \<open>The invariant of the query cache\<close>

definition cache_rows :: "(query_key \<times> rows) list \<Rightarrow> int" where
  "cache_rows cache = sum_list (map (\<lambda>(key, rows). int (length rows)) cache)"

definition cache_ok :: "(rat \<Rightarrow> rat) \<Rightarrow> bm25_corpus \<Rightarrow> bool" where
  "cache_ok lg c \<longleftrightarrow>
     distinct (map fst (bc_query_cache c)) \<and> bc_result_rows c = cache_rows (bc_query_cache c) \<and>
     length (bc_query_cache c) \<le> BM25_MAX_ENTRIES \<and> bc_result_rows c \<le> BM25_MAX_RESULT_ROWS \<and>
     (\<forall>(key, rows) \<in> set (bc_query_cache c). rows = score_rows lg c key)"

definition server_ok :: "(rat \<Rightarrow> rat) \<Rightarrow> bm25_corpus \<Rightarrow> bool" where
  "server_ok lg c \<longleftrightarrow> corpus_ok c \<and> cache_ok lg c"

lemma cache_rows_simps [simp]:
  "cache_rows [] = 0" "cache_rows ((key, rows) # cache) = int (length rows) + cache_rows cache"
  "cache_rows (xs @ ys) = cache_rows xs + cache_rows ys"
  by (simp_all add: cache_rows_def)

lemma evict_facts:
  assumes "evict_queries cache (cache_rows cache) ev = (cache', rr, ev')"
  shows "rr = cache_rows cache'" "\<exists>dropped. cache = dropped @ cache'" "length cache' \<le> BM25_MAX_ENTRIES" "rr \<le> BM25_MAX_RESULT_ROWS"
proof -
  have "rr = cache_rows cache' \<and> (\<exists>dropped. cache = dropped @ cache') \<and> length cache' \<le> BM25_MAX_ENTRIES \<and> rr \<le> BM25_MAX_RESULT_ROWS"
    using assms
  proof (induction cache arbitrary: ev)
    case (Cons e cache)
    obtain key rows where e: "e = (key, rows)" by (cases e)
    show ?case
    proof (cases "BM25_MAX_ENTRIES < length (e # cache) \<or> BM25_MAX_RESULT_ROWS < cache_rows (e # cache)")
      case True
      then have "evict_queries cache (cache_rows cache) (ev + 1) = (cache', rr, ev')" using Cons.prems by (simp add: e)
      from Cons.IH [OF this] show ?thesis by (metis append_Cons)
    qed (use Cons.prems in \<open>auto simp: e split: if_splits\<close>)
  qed (auto simp: BM25_MAX_RESULT_ROWS_def)
  then show "rr = cache_rows cache'" "\<exists>dropped. cache = dropped @ cache'" "length cache' \<le> BM25_MAX_ENTRIES" "rr \<le> BM25_MAX_RESULT_ROWS"
    by blast+
qed

lemma evict_keeps_last:
  assumes "int (length rows) \<le> BM25_MAX_RESULT_ROWS" "evict_queries (cache @ [(key, rows)]) (cache_rows (cache @ [(key, rows)])) ev = (cache', rr, ev')"
  shows "\<exists>older. cache' = older @ [(key, rows)]"
  using assms(2)
proof (induction cache arbitrary: ev)
  case Nil
  then show ?case using assms(1) by (auto simp: BM25_MAX_ENTRIES_def split: if_splits)
next
  case (Cons e cache)
  obtain k r where e: "e = (k, r)" by (cases e)
  show ?case
  proof (cases "BM25_MAX_ENTRIES < length (e # cache @ [(key, rows)]) \<or> BM25_MAX_RESULT_ROWS < cache_rows (e # cache @ [(key, rows)])")
    case True
    then have "evict_queries (cache @ [(key, rows)]) (cache_rows (cache @ [(key, rows)])) (ev + 1) = (cache', rr, ev')"
      using Cons.prems by (simp add: e)
    from Cons.IH [OF this] show ?thesis .
  qed (use Cons.prems in \<open>auto simp: e split: if_splits\<close>)
qed

lemma score_rows_length: "length (score_rows lg c (q, capped, k1, b)) \<le> capped"
  by (simp add: score_rows_def)

lemma score_rows_trivial: "bc_n_docs c = 0 \<or> q = [] \<Longrightarrow> corpus_ok c \<Longrightarrow> score_rows lg c (q, capped, k1, b) = []"
proof -
  assume "bc_n_docs c = 0 \<or> q = []" "corpus_ok c"
  then have "filter (\<lambda>(rel, score). 0 < score) (map (\<lambda>(rel, tf, dl). (rel, doc_score lg c k1 b q tf dl))
      (zip (bc_rels c) (zip (bc_doc_term_freqs c) (bc_doc_lens c)))) = []"
    by (auto simp: corpus_ok_def doc_score_def filter_empty_conv)
  then show ?thesis by (simp add: score_rows_def)
qed

lemma score_rows_same:
  assumes "bc_rels c' = bc_rels c" "bc_doc_term_freqs c' = bc_doc_term_freqs c" "bc_doc_lens c' = bc_doc_lens c"
    "bc_df c' = bc_df c" "bc_n_docs c' = bc_n_docs c" "bc_avgdl c' = bc_avgdl c"
  shows "score_rows lg c' = score_rows lg c" "corpus_ok c' = corpus_ok c" "bm25_view c' = bm25_view c"
proof -
  have "term_score lg c' = term_score lg c" by (intro ext) (simp add: term_score_def Let_def assms)
  then have "doc_score lg c' = doc_score lg c" by (intro ext) (simp add: doc_score_def)
  then show "score_rows lg c' = score_rows lg c" by (intro ext) (simp add: score_rows_def assms)
qed (simp_all add: corpus_ok_def bm25_view_def assms)

lemma cache_rows_delete:
  "distinct (map fst cache) \<Longrightarrow> map_of cache key = Some rows \<Longrightarrow>
   cache_rows (AList.delete key cache) = cache_rows cache - int (length rows) \<and>
   length (AList.delete key cache) = length cache - 1 \<and> length cache \<noteq> 0"
proof (induction cache)
  case (Cons e cache)
  obtain k r where e: "e = (k, r)" by (cases e)
  show ?case
  proof (cases "k = key")
    case True
    then have "key \<notin> fst ` set cache" using Cons.prems e by simp
    then have "AList.delete key cache = cache" by (rule delete_id)
    then show ?thesis using Cons.prems e True by simp
  next
    case False
    then have "map_of cache key = Some rows" using Cons.prems e by simp
    with Cons False show ?thesis by (cases cache) (auto simp: e)
  qed
qed simp

lemma query_step:
  assumes ok: "server_ok lg c" and q: "score_bm25_query lg c query limit k1 b = (c', rows)"
  shows "server_ok lg c'" "bm25_view c' = bm25_view c"
    "rows = score_rows lg c (tokenize query, nat (max 1 (min limit 100)), k1, b)"
proof -
  define key where "key = (tokenize query, nat (max 1 (min limit 100)), k1, b)"
  have q: "(if tokenize query = [] \<or> bc_n_docs c = 0 then (c, []) else
      case map_of (bc_query_cache c) key of
        Some cached \<Rightarrow> (c\<lparr>bc_query_cache := AList.delete key (bc_query_cache c) @ [(key, cached)], bc_hits := bc_hits c + 1\<rparr>, cached)
      | None \<Rightarrow>
          (let result = score_rows lg c key;
               (cache, result_rows, evictions) =
                 evict_queries (bc_query_cache c @ [(key, result)]) (bc_result_rows c + int (length result)) (bc_evictions c)
           in (c\<lparr>bc_misses := bc_misses c + 1, bc_query_cache := cache, bc_result_rows := result_rows, bc_evictions := evictions\<rparr>, result))) =
    (c', rows)"
    using q by (simp only: score_bm25_query_def Let_def key_def)
  have ok': "corpus_ok c" "cache_ok lg c" using ok by (simp_all add: server_ok_def)
  have "server_ok lg c' \<and> bm25_view c' = bm25_view c \<and> rows = score_rows lg c key"
  proof (cases "tokenize query = [] \<or> bc_n_docs c = 0")
    case True
    then show ?thesis using q ok score_rows_trivial [OF _ ok'(1)] by (auto simp: key_def)
  next
    case False
    show ?thesis
    proof (cases "map_of (bc_query_cache c) key")
      case (Some cached)
      then have r: "rows = cached" and c': "c' = c\<lparr>bc_query_cache := AList.delete key (bc_query_cache c) @ [(key, cached)], bc_hits := bc_hits c + 1\<rparr>"
        using q False by auto
      have mem: "(key, cached) \<in> set (bc_query_cache c)" using Some by (rule map_of_SomeD)
      then have good: "cached = score_rows lg c key" using ok'(2) by (auto simp: cache_ok_def)
      have "distinct (map fst (bc_query_cache c))" using ok'(2) by (simp add: cache_ok_def)
      note del = cache_rows_delete [OF this Some]
      have same: "score_rows lg c' = score_rows lg c" "corpus_ok c' = corpus_ok c" "bm25_view c' = bm25_view c"
        by (rule score_rows_same; simp add: c')+
      let ?d = "AList.delete key (bc_query_cache c)"
      have sub: "set (AList.delete key (bc_query_cache c)) \<subseteq> set (bc_query_cache c)" by (auto simp: AList.delete_eq)
      have "cache_ok lg c'"
      proof -
        have "distinct (map fst (?d @ [(key, cached)]))" "bc_result_rows c = cache_rows (?d @ [(key, cached)])"
          "length (?d @ [(key, cached)]) \<le> BM25_MAX_ENTRIES" "bc_result_rows c \<le> BM25_MAX_RESULT_ROWS"
          using ok'(2) del by (auto simp: cache_ok_def delete_keys distinct_removeAll)
        moreover have "\<forall>(k, r) \<in> set (?d @ [(key, cached)]). r = score_rows lg c k"
          using ok'(2) good sub by (auto simp: cache_ok_def)
        ultimately show ?thesis unfolding cache_ok_def same(1) by (simp add: c')
      qed
      then show ?thesis using same ok'(1) good r by (simp add: server_ok_def)
    next
      case None
      let ?res = "score_rows lg c key"
      obtain cache rr ev where e: "evict_queries (bc_query_cache c @ [(key, ?res)]) (bc_result_rows c + int (length ?res)) (bc_evictions c) = (cache, rr, ev)"
        by (cases "evict_queries (bc_query_cache c @ [(key, ?res)]) (bc_result_rows c + int (length ?res)) (bc_evictions c)")
      then have r: "rows = ?res" and c': "c' = c\<lparr>bc_misses := bc_misses c + 1, bc_query_cache := cache, bc_result_rows := rr, bc_evictions := ev\<rparr>"
        using q False None by (auto simp: Let_def)
      have "bc_result_rows c + int (length ?res) = cache_rows (bc_query_cache c @ [(key, ?res)])" using ok'(2) by (simp add: cache_ok_def)
      note ev = evict_facts [OF e [unfolded this]]
      obtain dropped where dr: "bc_query_cache c @ [(key, ?res)] = dropped @ cache" using ev(2) by blast
      have "key \<notin> fst ` set (bc_query_cache c)" using None by (simp add: map_of_eq_None_iff)
      then have "distinct (map fst (bc_query_cache c @ [(key, ?res)]))" using ok'(2) by (simp add: cache_ok_def)
      then have dis: "distinct (map fst cache)" unfolding dr by simp
      have sub: "set cache \<subseteq> insert (key, ?res) (set (bc_query_cache c))" using arg_cong [OF dr, of set] by auto
      have same: "score_rows lg c' = score_rows lg c" "corpus_ok c' = corpus_ok c" "bm25_view c' = bm25_view c"
        by (rule score_rows_same; simp add: c')+
      have "cache_ok lg c'" unfolding cache_ok_def same(1)
        using ev dis sub ok'(2) by (auto simp: c' cache_ok_def)
      then show ?thesis using same ok'(1) r by (simp add: server_ok_def)
    qed
  qed
  then show "server_ok lg c'" "bm25_view c' = bm25_view c"
    "rows = score_rows lg c (tokenize query, nat (max 1 (min limit 100)), k1, b)" by (simp_all add: key_def)
qed

text \<open>
  For the parameters a caller may sensibly pass the divisor of a score is positive, so the
  division of the source never raises.
\<close>

lemma denom_positive:
  fixes k1 b norm :: rat
  assumes "freq \<noteq> 0" "0 \<le> k1" "0 \<le> b" "b \<le> 1" "0 \<le> norm"
  shows "0 < of_nat freq + k1 * (1 - b + b * norm)"
proof -
  have "0 \<le> k1 * (1 - b + b * norm)" using assms by (intro mult_nonneg_nonneg) auto
  moreover have "0 < (of_nat freq :: rat)" using assms by simp
  ultimately show ?thesis by linarith
qed

subsection \<open>Runs of queries and patches\<close>

datatype index_event =
    Queried string int rat rat
  | Patched "string list" "(string \<times> string option) list"

fun run_event :: "(rat \<Rightarrow> rat) \<Rightarrow> bm25_corpus \<Rightarrow> index_event \<Rightarrow> bm25_corpus" where
  "run_event lg c (Queried query limit k1 b) = fst (score_bm25_query lg c query limit k1 b)"
| "run_event lg c (Patched removed changed) = patch_bm25_corpus c removed changed"

fun event_text :: "(string \<rightharpoonup> string) \<Rightarrow> index_event \<Rightarrow> (string \<rightharpoonup> string)" where
  "event_text m (Queried query limit k1 b) = m"
| "event_text m (Patched removed changed) = overlay Some m (map (\<lambda>rel. (rel, None)) removed @ changed)"

lemma overlay_entries:
  "overlay doc_entry (\<lambda>rel. Option.bind (m rel) doc_entry) cs = (\<lambda>rel. Option.bind (overlay Some m cs rel) doc_entry)"
proof (induction cs arbitrary: m)
  case (Cons c cs)
  obtain r t where c: "c = (r, t)" by (cases c)
  have "(\<lambda>rel. Option.bind (m rel) doc_entry)(r := Option.bind t doc_entry) =
      (\<lambda>rel. Option.bind ((m(r := Option.bind t Some)) rel) doc_entry)" by (intro ext) simp
  then show ?case using Cons.IH [of "m(r := Option.bind t Some)"] by (simp add: c del: fun_upd_apply)
qed simp

lemma server_ok_fresh: "distinct (map fst pages) \<Longrightarrow> server_ok lg (build_bm25_corpus pages)"
  using build_ok [of pages]
  by (auto simp: server_ok_def cache_ok_def build_bm25_corpus_def empty_corpus_def Let_def BM25_MAX_RESULT_ROWS_def)

lemma remove_keeps_cache:
  "bc_query_cache (remove_bm25_doc c rel) = bc_query_cache c" "bc_result_rows (remove_bm25_doc c rel) = bc_result_rows c"
  by (simp_all add: remove_bm25_doc_def Let_def)

lemma patch_doc_keeps_cache:
  "bc_query_cache (patch_doc c change) = bc_query_cache c" "bc_result_rows (patch_doc c change) = bc_result_rows c"
  by (simp_all add: patch_doc_def replace_bm25_doc_def Let_def remove_keeps_cache split: prod.split option.split)

lemma patch_drops_cache:
  "(removed = [] \<and> changed = [] \<and> patch_bm25_corpus c removed changed = c) \<or>
   (bc_query_cache (patch_bm25_corpus c removed changed) = [] \<and> bc_result_rows (patch_bm25_corpus c removed changed) = 0)"
proof -
  have r: "bc_query_cache (foldl remove_bm25_doc c rs) = bc_query_cache c \<and> bc_result_rows (foldl remove_bm25_doc c rs) = bc_result_rows c" for c rs
    by (induction rs arbitrary: c) (simp_all add: remove_keeps_cache)
  have p: "bc_query_cache (foldl patch_doc c cs) = bc_query_cache c \<and> bc_result_rows (foldl patch_doc c cs) = bc_result_rows c" for c cs
    by (induction cs arbitrary: c) (simp_all add: patch_doc_keeps_cache)
  show ?thesis by (auto simp: patch_bm25_corpus_def Let_def r p)
qed

lemma server_ok_patch: "server_ok lg c \<Longrightarrow> server_ok lg (patch_bm25_corpus c removed changed)"
  using patch_drops_cache [of removed changed c] patch_view [of c removed changed]
  by (auto simp: server_ok_def cache_ok_def BM25_MAX_RESULT_ROWS_def)

lemma run_events:
  assumes "server_ok lg c" "bm25_view c = (\<lambda>rel. Option.bind (m rel) doc_entry)"
  shows "server_ok lg (foldl (run_event lg) c events) \<and>
    bm25_view (foldl (run_event lg) c events) = (\<lambda>rel. Option.bind (foldl event_text m events rel) doc_entry)"
  using assms
proof (induction events arbitrary: c m)
  case (Cons e events)
  have "server_ok lg (run_event lg c e) \<and> bm25_view (run_event lg c e) = (\<lambda>rel. Option.bind (event_text m e rel) doc_entry)"
  proof (cases e)
    case (Queried query limit k1 b)
    then show ?thesis using query_step [OF Cons.prems(1) prod.collapse [symmetric]] Cons.prems(2) by simp
  next
    case (Patched removed changed)
    have "corpus_ok c" using Cons.prems(1) by (simp add: server_ok_def)
    then show ?thesis using server_ok_patch [OF Cons.prems(1)] patch_view [of c removed changed] Cons.prems(2)
      by (simp add: Patched overlay_entries)
  qed
  then show ?case using Cons.IH by simp
qed simp

subsection \<open>Properties\<close>

text \<open>
  C14. Queries see the current pages. After any sequence of queries and incremental patches of
  a corpus built from one set of pages, a query returns (from the cache or not) exactly the
  rows that scoring a corpus freshly built from the current pages returns, where the current
  pages are the first ones with the patched texts put in and the removed ones taken out.
\<close>

theorem bm25_query_as_rebuilt:
  assumes "distinct (map fst pages)" and "distinct (map fst pages')"
    and "page_text pages' = foldl event_text (page_text pages) events"
  shows "snd (score_bm25_query lg (foldl (run_event lg) (build_bm25_corpus pages) events) query limit k1 b) =
    score_rows lg (build_bm25_corpus pages') (tokenize query, nat (max 1 (min limit 100)), k1, b)"
proof -
  let ?c = "foldl (run_event lg) (build_bm25_corpus pages) events"
  have run: "server_ok lg ?c" "bm25_view ?c = (\<lambda>rel. Option.bind (page_text pages' rel) doc_entry)"
    using run_events [OF server_ok_fresh [OF assms(1)], of "page_text pages" lg events] build_ok [OF assms(1)] assms(3) by auto
  have "snd (score_bm25_query lg ?c query limit k1 b) = score_rows lg ?c (tokenize query, nat (max 1 (min limit 100)), k1, b)"
    by (rule query_step(3) [OF run(1) prod.collapse [symmetric]])
  also have "\<dots> = score_rows lg (build_bm25_corpus pages') (tokenize query, nat (max 1 (min limit 100)), k1, b)"
    using run build_ok [OF assms(2)] by (intro score_rows_view) (simp_all add: server_ok_def)
  finally show ?thesis .
qed

text \<open>
  The query cache stays bounded and consistent: after any sequence of queries and patches
  it has at most 8192 entries with distinct keys, the row counter is the number of rows the
  cache holds and at most 65536, and each document frequency is the number of indexed documents that
  contain the term.
\<close>

theorem query_cache_bounded:
  assumes "distinct (map fst pages)"
  shows "let c = foldl (run_event lg) (build_bm25_corpus pages) events
    in length (bc_query_cache c) \<le> 8192 \<and> bc_result_rows c \<le> 65536 \<and>
       bc_result_rows c = cache_rows (bc_query_cache c) \<and> distinct (map fst (bc_query_cache c)) \<and>
       (\<forall>t. dcount (bc_df c) t = docs_with (bc_doc_term_freqs c) t)"
proof -
  have "server_ok lg (foldl (run_event lg) (build_bm25_corpus pages) events)"
    using run_events [OF server_ok_fresh [OF assms], of "page_text pages" lg events] build_ok [OF assms] by simp
  then show ?thesis
    by (simp add: server_ok_def cache_ok_def corpus_ok_def BM25_MAX_ENTRIES_def BM25_MAX_RESULT_ROWS_def Let_def)
qed

text \<open>A concrete run: two pages, a query, a patch that rewrites one page and adds another.\<close>

theorem bm25_query_as_rebuilt_witness:
  "snd (score_bm25_query (\<lambda>x. x)
     (foldl (run_event (\<lambda>x. x)) (build_bm25_corpus [(''a'', Some ''cat dog''), (''b'', Some ''dog'')])
       [Queried ''dog'' 5 1 0, Patched [''a''] [(''c'', Some ''cow dog dog'')]]) ''dog'' 5 1 0) =
   [(''c'', 8 / 5), (''b'', 6 / 5)]"
proof -
  have "page_text [(''b'', Some ''dog''), (''c'', Some ''cow dog dog'')] =
      foldl event_text (page_text [(''a'', Some ''cat dog''), (''b'', Some ''dog'')])
        [Queried ''dog'' 5 1 0, Patched [''a''] [(''c'', Some ''cow dog dog'')]]"
    by (intro ext) (auto simp: page_text_def)
  from bm25_query_as_rebuilt [OF _ _ this, of "\<lambda>x. x" "''dog''" 5 1 0]
  have "snd (score_bm25_query (\<lambda>x. x)
     (foldl (run_event (\<lambda>x. x)) (build_bm25_corpus [(''a'', Some ''cat dog''), (''b'', Some ''dog'')])
       [Queried ''dog'' 5 1 0, Patched [''a''] [(''c'', Some ''cow dog dog'')]]) ''dog'' 5 1 0) =
    score_rows (\<lambda>x. x) (build_bm25_corpus [(''b'', Some ''dog''), (''c'', Some ''cow dog dog'')])
      (tokenize ''dog'', nat (max 1 (min 5 100)), 1, 0)" by simp
  also have "\<dots> = [(''c'', 8 / 5), (''b'', 6 / 5)]" by code_simp
  finally show ?thesis .
qed

theorem query_cache_bounded_witness:
  "let c = foldl (run_event (\<lambda>x. x)) (build_bm25_corpus [(''a'', Some ''cat dog'')]) [Queried ''dog'' 5 1 0]
   in length (bc_query_cache c) \<le> 8192 \<and> bc_result_rows c = cache_rows (bc_query_cache c) \<and> bc_result_rows c = 1"
proof -
  let ?c = "foldl (run_event (\<lambda>x. x)) (build_bm25_corpus [(''a'', Some ''cat dog'')]) [Queried ''dog'' 5 1 0]"
  have "length (bc_query_cache ?c) \<le> 8192 \<and> bc_result_rows ?c = cache_rows (bc_query_cache ?c)"
    using query_cache_bounded [of "[(''a'', Some ''cat dog'')]" "\<lambda>x. x" "[Queried ''dog'' 5 1 0]"]
    by (simp add: Let_def)
  moreover have "bc_result_rows ?c = 1" by code_simp
  ultimately show ?thesis by (simp add: Let_def)
qed

end
