(* ===== verification/GraphPaths.thy ===== *)
theory GraphPaths
  imports FileStore
begin

section \<open>Page titles, page keys and the pages of a graph\<close>

text \<open>
  Model of the rest of \<open>src/graph/page_path.py\<close> and \<open>src/graph/path_sandbox.py\<close> (titles and
  graph-relative keys), of the page listings of \<open>src/graph/alias_index.py\<close>, and of
  \<open>is_journal_page_path\<close> in \<open>src/agent/plumber_modules/_shared.py\<close>. The world of \<open>FileStore\<close> knows files
  and resolves paths; the order in which a directory walk finds the files is a list of paths
  the caller gives, sorted as \<open>sorted(...rglob(...))\<close> returns it. A leading \<open>~\<close> is not expanded.
\<close>

subsection \<open>Definitions\<close>

text \<open>\<open>as_posix\<close> of a relative path.\<close>

definition as_posix :: "path \<Rightarrow> string" where
  "as_posix parts = (if parts = [] then ''.'' else join ''/'' parts)"

definition relative_to :: "path \<Rightarrow> path \<Rightarrow> path option" where
  "relative_to p groot = (if is_relative_to p groot then Some (drop (length groot) p) else None)"

definition page_title_from_graph_relpath :: "string \<Rightarrow> string" where
  "page_title_from_graph_relpath relpath =
     (let parts = path_parts (slash relpath);
          rel = (if parts \<noteq> [] \<and> hd parts \<in> {''pages'', ''journals''} then tl parts else parts);
          stem = (if rel = [] then [] else removesuffix (as_posix rel) ''.md'')
      in replace_sub ''___'' ''/'' stem)"

definition graph_relative_path_key :: "world \<Rightarrow> path \<Rightarrow> path \<Rightarrow> py_exn + string" where
  "graph_relative_path_key w p graph_root =
     (case assert_path_within_graph w p graph_root of
        Inl e \<Rightarrow> Inl e
      | Inr r \<Rightarrow> Inr (as_posix (drop (length (resolved w graph_root)) r)))"

definition page_title_from_path :: "world \<Rightarrow> path \<Rightarrow> path \<Rightarrow> py_exn + string" where
  "page_title_from_path w graph_root p =
     (case graph_relative_path_key w p graph_root of
        Inl e \<Rightarrow> Inl e
      | Inr rel \<Rightarrow> Inr (page_title_from_graph_relpath rel))"

text \<open>\<open>key.replace("\\", "/").lstrip("/")\<close> loses every leading slash.\<close>

definition resolve_graph_relative_key :: "world \<Rightarrow> path \<Rightarrow> string \<Rightarrow> py_exn + path" where
  "resolve_graph_relative_key w graph_root key =
     (let groot = resolved w graph_root;
          parts = path_parts (dropWhile (\<lambda>c. c = CHR ''/'') (slash key))
      in if ''..'' \<in> set parts then Inl PathTraversal
         else assert_path_within_graph w (groot @ parts) groot)"

text \<open>
  An absolute text is one that starts with a slash; exactly two slashes make a root of
  their own, which no graph lies under.
\<close>

definition normalize_daemon_file_key :: "world \<Rightarrow> path \<Rightarrow> string \<Rightarrow> string" where
  "normalize_daemon_file_key w graph_root key =
     (let cleaned = strip (slash key); groot = resolved w graph_root; parts = path_parts cleaned
      in if cleaned = [] then cleaned
         else if startswith cleaned ''/'' then
           (if startswith cleaned ''//'' \<and> \<not> startswith cleaned ''///'' then []
            else case relative_to (resolved w parts) groot of
                   None \<Rightarrow> [] | Some rel \<Rightarrow> as_posix rel)
         else if ''..'' \<in> set parts then
           (case relative_to (resolved w (groot @ parts)) (resolved w groot) of
              None \<Rightarrow> [] | Some rel \<Rightarrow> as_posix rel)
         else as_posix parts)"

definition is_journal_page_path :: "world \<Rightarrow> path \<Rightarrow> path \<Rightarrow> bool" where
  "is_journal_page_path w graph_root p =
     (case relative_to (resolved w p) (resolved w (resolved w graph_root)) of
        None \<Rightarrow> False
      | Some rel \<Rightarrow> rel \<noteq> [] \<and> hd rel = ''journals'')"

definition EXCLUDED_DIR_NAMES :: "string set" where
  "EXCLUDED_DIR_NAMES = {''.matryca_semantic_cache'', ''logseq'', ''.recycle'', ''.git''}"

definition is_scannable_graph_markdown :: "world \<Rightarrow> path \<Rightarrow> path \<Rightarrow> bool" where
  "is_scannable_graph_markdown w p graph_root =
     (let groot = resolved w graph_root
      in case relative_to p groot of
           None \<Rightarrow> False
         | Some rel \<Rightarrow>
             list_all (\<lambda>part. \<not> startswith part ''.'' \<and> part \<notin> EXCLUDED_DIR_NAMES) rel \<and>
             (case assert_path_within_graph w p groot of Inl _ \<Rightarrow> False | Inr _ \<Rightarrow> True))"

text \<open>
  \<open>listing\<close> holds the \<open>*.md\<close> entries of a walk of the whole graph in sorted order; the two walks
  of the source see the ones under \<open>pages\<close> and under \<open>journals\<close>.
\<close>

definition under_dir :: "path \<Rightarrow> string \<Rightarrow> path \<Rightarrow> bool" where
  "under_dir groot dir p \<longleftrightarrow> is_relative_to p (groot @ [dir]) \<and> p \<noteq> groot @ [dir]"

definition iter_alias_source_paths :: "world \<Rightarrow> path list \<Rightarrow> path \<Rightarrow> path list" where
  "iter_alias_source_paths w listing graph_root =
     (let groot = resolved w graph_root
      in filter (\<lambda>p. under_dir groot ''pages'' p \<and> is_scannable_graph_markdown w p groot) listing @
         filter (\<lambda>p. under_dir groot ''journals'' p \<and> is_scannable_graph_markdown w p groot) listing)"

definition iter_scannable_pages_markdown :: "world \<Rightarrow> path list \<Rightarrow> path \<Rightarrow> path list" where
  "iter_scannable_pages_markdown w listing graph_root =
     (let groot = resolved w graph_root
      in filter (\<lambda>p. under_dir groot ''pages'' p \<and> files w (resolved w p) \<noteq> None \<and>
                 is_scannable_graph_markdown w p groot) listing)"

subsection \<open>Titles and file names\<close>

text \<open>A title component that survives the encoding of slashes as three underscores.\<close>

definition title_part :: "string \<Rightarrow> bool" where
  "title_part c \<longleftrightarrow> c \<noteq> [] \<and> \<not> contains c ''___'' \<and> last c \<noteq> CHR ''_'' \<and>
     list_all (\<lambda>x. x \<noteq> CHR ''/'' \<and> x \<noteq> BSL) c"

lemma find_sub_none_char: "list_all (\<lambda>x. x \<noteq> a) c \<Longrightarrow> find_sub [a] c = None"
  by (induction c) (auto simp: startswith_def)

lemma split_char: 
  "list_all (\<lambda>x. x \<noteq> a) c \<Longrightarrow> split_sub [a] (c @ a # rest) = c # split_sub [a] rest"
proof -
  assume "list_all (\<lambda>x. x \<noteq> a) c"
  then have "find_sub [a] (c @ a # rest) = Some (length c)"
    by (induction c) (auto simp: startswith_def)
  then show ?thesis by (simp add: split_sub.simps [of "[a]" "c @ a # rest"])
qed

lemma split_join_char:
  "list_all (list_all (\<lambda>x. x \<noteq> a)) cs \<Longrightarrow> cs \<noteq> [] \<Longrightarrow> split_sub [a] (join [a] cs) = cs"
proof (induction cs rule: induct_list012)
  case (2 c)
  then show ?case by (simp add: split_sub.simps [of "[a]" c] find_sub_none_char)
next
  case (3 c d cs)
  then show ?case by (simp add: split_char)
qed simp

lemma find_underscores:
  "\<not> contains c ''___'' \<Longrightarrow> c = [] \<or> last c \<noteq> CHR ''_'' \<Longrightarrow> find_sub ''___'' (c @ ''___'' @ rest) = Some (length c)"
proof (induction c)
  case Nil
  then show ?case by (simp add: startswith_def)
next
  case (Cons x c)
  have no: "\<not> contains c ''___''" "\<not> startswith (x # c) ''___''"
    using Cons.prems(1) by (auto simp: contains_def split: if_splits)
  have ns: "\<not> startswith (x # c @ ''___'' @ rest) ''___''"
  proof
    assume s: "startswith (x # c @ ''___'' @ rest) ''___''"
    then have x: "x = CHR ''_''" by (simp add: startswith_def)
    with Cons.prems(2) have "c \<noteq> []" by auto
    then obtain y c' where c: "c = y # c'" by (cases c) auto
    with s have y: "y = CHR ''_''" by (simp add: startswith_def)
    with Cons.prems(2) c have "c' \<noteq> []" by auto
    then obtain z c'' where "c' = z # c''" by (cases c') auto
    with s x y c no(2) show False by (simp add: startswith_def)
  qed
  have "find_sub ''___'' (c @ ''___'' @ rest) = Some (length c)"
    using Cons.IH no(1) Cons.prems(2) by (auto split: if_splits)
  then show ?case using ns by simp
qed

lemma split_sub_at:
  "p \<noteq> [] \<Longrightarrow> find_sub p s = Some i \<Longrightarrow> split_sub p s = take i s # split_sub p (drop (i + length p) s)"
  by (subst split_sub.simps) simp

lemma split_join_underscores:
  "list_all title_part cs \<Longrightarrow> cs \<noteq> [] \<Longrightarrow> split_sub ''___'' (join ''___'' cs) = cs"
proof (induction cs rule: induct_list012)
  case (2 c)
  then show ?case by (simp add: title_part_def contains_def split_sub.simps [of "''___''" c])
next
  case (3 c d cs)
  then have f: "find_sub ''___'' (c @ ''___'' @ join ''___'' (d # cs)) = Some (length c)"
    by (intro find_underscores) (simp_all add: title_part_def)
  show ?case using split_sub_at [OF _ f] 3 by simp
qed simp

lemma encode_char_cases:
  "filename_encode_char x = [x] \<or>
   (\<exists>a b. filename_encode_char x = [CHR ''%'', a, b] \<and> x \<noteq> CHR ''_'' \<and>
     list_all (\<lambda>y. y \<noteq> CHR ''_'' \<and> y \<noteq> CHR ''/'' \<and> y \<noteq> BSL) [a, b])"
  by (simp add: filename_encode_char_def)

lemma encode_startswith:
  "startswith (logseq_encode_filename_stem c) (replicate n CHR ''_'') = startswith c (replicate n CHR ''_'')"
proof (induction n arbitrary: c)
  case (Suc n)
  show ?case
  proof (cases c)
    case (Cons x c')
    then show ?thesis
      using encode_char_cases [of x] Suc [of c']
      by (auto simp: logseq_encode_filename_stem_def startswith_def filename_encode_char_def)
  qed (simp add: logseq_encode_filename_stem_def)
qed simp

lemma encode_contains: "contains (logseq_encode_filename_stem c) ''___'' = contains c ''___''"
proof (induction c)
  case (Cons x c)
  have s: "startswith (logseq_encode_filename_stem (x # c)) ''___'' = startswith (x # c) ''___''"
    using encode_startswith [of "x # c" 3] by (simp add: eval_nat_numeral)
  from encode_char_cases [of x] show ?case
  proof (elim disjE exE conjE)
    assume "filename_encode_char x = [x]"
    then show ?thesis using Cons s by (auto simp: contains_def logseq_encode_filename_stem_def split: if_splits)
  next
    fix a b
    assume e: "filename_encode_char x = [CHR ''%'', a, b]" and x: "x \<noteq> CHR ''_''"
      and ab: "list_all (\<lambda>y. y \<noteq> CHR ''_'' \<and> y \<noteq> CHR ''/'' \<and> y \<noteq> BSL) [a, b]"
    have "contains (logseq_encode_filename_stem (x # c)) ''___'' = contains (logseq_encode_filename_stem c) ''___''"
      using e ab by (auto simp: contains_def logseq_encode_filename_stem_def startswith_def)
    moreover have "contains (x # c) ''___'' = contains c ''___''" using x by (auto simp: contains_def startswith_def)
    ultimately show ?thesis using Cons by simp
  qed
qed (simp add: logseq_encode_filename_stem_def contains_def)

lemma encode_simps:
  "logseq_encode_filename_stem (xs @ ys) = logseq_encode_filename_stem xs @ logseq_encode_filename_stem ys"
  "logseq_encode_filename_stem [] = []" "logseq_encode_filename_stem [CHR ''_''] = [CHR ''_'']"
  "logseq_encode_filename_stem ''___'' = ''___''" "logseq_encode_filename_stem ''/'' = ''/''"
  by (simp_all add: logseq_encode_filename_stem_def filename_encode_char_def)

lemma encode_join: "logseq_encode_filename_stem (join ''___'' cs) = join ''___'' (map logseq_encode_filename_stem cs)"
  by (induction cs rule: induct_list012) (simp_all only: encode_simps join_Nil join_single join_Cons_Cons list.map)

lemma encode_join_slash: "logseq_encode_filename_stem (join ''/'' cs) = join ''/'' (map logseq_encode_filename_stem cs)"
  by (induction cs rule: induct_list012) (simp_all only: encode_simps join_Nil join_single join_Cons_Cons list.map)

lemma encode_title_part: "title_part c \<Longrightarrow> title_part (logseq_encode_filename_stem c)"
proof -
  assume t: "title_part c"
  then have "c \<noteq> []" by (simp add: title_part_def)
  then obtain d x where c: "c = d @ [x]" by (metis append_butlast_last_id)
  have "list_all (\<lambda>x. x \<noteq> CHR ''/'' \<and> x \<noteq> BSL) (logseq_encode_filename_stem c)"
  proof -
    have "list_all (\<lambda>x. x \<noteq> CHR ''/'' \<and> x \<noteq> BSL) (filename_encode_char y)" if "y \<in> set c" for y
    proof -
      have y: "y \<noteq> CHR ''/''" "y \<noteq> BSL" using t that by (auto simp only: title_part_def list_all_iff)
      from encode_char_cases [of y] show ?thesis
        by (elim disjE exE conjE) (simp_all add: y)
    qed
    then show ?thesis by (simp add: logseq_encode_filename_stem_def list_all_iff)
  qed
  moreover have "logseq_encode_filename_stem c \<noteq> []" "last (logseq_encode_filename_stem c) \<noteq> CHR ''_''"
    using t encode_char_cases [of x] by (auto simp: logseq_encode_filename_stem_def title_part_def c)
  ultimately show ?thesis using t by (simp add: title_part_def encode_contains)
qed

definition no_slash :: "string \<Rightarrow> bool" where
  "no_slash c \<longleftrightarrow> CHR ''/'' \<notin> set c \<and> BSL \<notin> set c"

lemma no_slash_simps [simp]:
  "no_slash []" "no_slash (x # c) \<longleftrightarrow> x \<noteq> CHR ''/'' \<and> x \<noteq> BSL \<and> no_slash c"
  "no_slash (c @ d) \<longleftrightarrow> no_slash c \<and> no_slash d"
  by (auto simp: no_slash_def)

lemma title_part_no_slash: "title_part c \<Longrightarrow> no_slash c"
  by (simp add: title_part_def list_all_iff no_slash_def) blast

lemma no_slash_split: "no_slash c \<Longrightarrow> split_sub ''/'' c = [c]" "no_slash c \<Longrightarrow> split_sub ''/'' (c @ CHR ''/'' # s) = c # split_sub ''/'' s"
proof -
  assume "no_slash c"
  then have l: "list_all (\<lambda>x. x \<noteq> CHR ''/'') c" by (induction c) simp_all
  show "split_sub ''/'' c = [c]" by (simp add: split_sub.simps [of _ c] find_sub_none_char [OF l])
  show "split_sub ''/'' (c @ CHR ''/'' # s) = c # split_sub ''/'' s" by (rule split_char [OF l])
qed

lemma slash_id: "BSL \<notin> set s \<Longrightarrow> slash s = s"
  unfolding slash_def by (rule map_idI) auto

lemma no_slash_join: "list_all title_part cs \<Longrightarrow> no_slash (join ''___'' cs)"
  by (induction cs rule: induct_list012) (simp_all add: title_part_no_slash)

lemma slash_title: "list_all title_part cs \<Longrightarrow> slash (join ''/'' cs) = join ''/'' cs \<and> (cs \<noteq> [] \<longrightarrow> split_sub ''/'' (join ''/'' cs) = cs)"
proof (induction cs rule: induct_list012)
  case 1
  then show ?case by (simp add: slash_def)
next
  case (2 c)
  then have "no_slash c" by (simp add: title_part_no_slash)
  then show ?case by (simp add: no_slash_split) (simp add: no_slash_def slash_id)
next
  case (3 c d cs)
  then have n: "no_slash c" by (simp add: title_part_no_slash)
  have "slash (c @ CHR ''/'' # s) = c @ CHR ''/'' # slash s" for s
    using slash_id [of c] n by (simp add: slash_def no_slash_def)
  then show ?case using 3 n by (simp add: no_slash_split)
qed

text \<open>
  Titles and file names. A page title made of components that hold neither slash nor
  backslash nor three underscores in a row and do not end in an underscore is stored in one
  file under \<open>pages/\<close>; the title read back from that file is the original title with the
  reserved characters percent-encoded, so it is the original title exactly when it has none.
\<close>

theorem page_title_from_filename:
  assumes "cs \<noteq> []" and "list_all title_part cs" and "strip (join ''/'' cs) = join ''/'' cs"
    and "\<not> endswith (join ''/'' cs) ''.md''"
  shows "page_title_from_graph_relpath (''pages/'' @ page_title_to_filename (join ''/'' cs)) =
      logseq_encode_filename_stem (join ''/'' cs)"
proof -
  let ?stem = "join ''___'' (map logseq_encode_filename_stem cs)"
  have sl: "slash (join ''/'' cs) = join ''/'' cs" and sp: "split_sub ''/'' (join ''/'' cs) = cs"
    using slash_title [OF assms(2)] assms(1) by simp_all
  have fname: "page_title_to_filename (join ''/'' cs) = ?stem @ ''.md''"
    using assms(3,4) by (simp add: page_title_to_filename_def sl sp removesuffix_def replace_sub_def encode_join)
  have parts: "list_all title_part (map logseq_encode_filename_stem cs)"
    using assms(2) by (auto simp: list_all_iff encode_title_part)
  have ns: "no_slash (?stem @ ''.md'')" using no_slash_join [OF parts] by simp
  then have slf: "slash (''pages/'' @ ?stem @ ''.md'') = ''pages/'' @ ?stem @ ''.md''"
    by (intro slash_id) (simp add: no_slash_def)
  have "split_sub ''/'' (''pages/'' @ ?stem @ ''.md'') = [''pages'', ?stem @ ''.md'']"
    using no_slash_split(2) [of "''pages''" "?stem @ ''.md''"] no_slash_split(1) [OF ns] by simp
  moreover have "?stem @ ''.md'' \<noteq> ''.''" by (auto dest: arg_cong [where f = length])
  ultimately have parts': "path_parts (''pages/'' @ ?stem @ ''.md'') = [''pages'', ?stem @ ''.md'']"
    by (simp add: path_parts_def)
  have "page_title_from_graph_relpath (''pages/'' @ ?stem @ ''.md'') = replace_sub ''___'' ''/'' ?stem"
    unfolding page_title_from_graph_relpath_def slf Let_def parts' by (simp add: as_posix_def removesuffix_def endswith_def)
  also have "\<dots> = join ''/'' (map logseq_encode_filename_stem cs)"
    using split_join_underscores [OF parts] assms(1) by (simp add: replace_sub_def)
  finally show ?thesis by (simp add: fname encode_join_slash)
qed

theorem page_title_from_filename_witness:
  "page_title_from_graph_relpath (''pages/'' @ page_title_to_filename ''a_b/c: d'') = ''a_b/c%3A d''"
proof -
  have "join ''/'' [''a_b'', ''c: d''] = ''a_b/c: d''" by code_simp
  moreover have "list_all title_part [''a_b'', ''c: d'']" by code_simp
  moreover have "strip ''a_b/c: d'' = ''a_b/c: d''" "\<not> endswith ''a_b/c: d'' ''.md''" by code_simp+
  ultimately have "page_title_from_graph_relpath (''pages/'' @ page_title_to_filename ''a_b/c: d'') =
      logseq_encode_filename_stem ''a_b/c: d''"
    using page_title_from_filename [of "[''a_b'', ''c: d'']"] by simp
  also have "\<dots> = ''a_b/c%3A d''" by code_simp
  finally show ?thesis .
qed

end
