(* ===== verification/DaemonState.thy ===== *)
theory DaemonState
  imports GraphPaths "HOL-Library.AList" "HOL-Library.Char_ord" "HOL-Library.List_Lexorder"
    "HOL-Library.Product_Lexorder"
begin

section \<open>The checkpoint of the daemon\<close>

text \<open>
  Model of \<open>src/agent/daemon_state.py\<close> with the day ledger of \<open>src/agent/journey_log.py\<close>, the model
  name of \<open>src/agent/plumber_config.py\<close> and \<open>reconcile_telemetry_ledger\<close> of \<open>src/graph/graph_analytics.py\<close>.
  A parsed JSON text is a value of type \<open>json\<close>; a checkpoint file is missing, holds
  something the reader refuses (too large, not UTF-8, not JSON), or holds a JSON value, where
  writing and reading back a value with Python's \<open>json\<close> is taken to give the same value. Floats
  are rational numbers. Two conversions of the standard library are parameters: \<open>rp\<close>, the text
  \<open>str()\<close> gives for a value that is not a string, and \<open>fl\<close>, what \<open>float()\<close> reads in a string.
\<close>

subsection \<open>JSON values and Python conversions\<close>

datatype json =
    JNull
  | JBool bool
  | JInt int
  | JFloat rat
  | JStr string
  | JArr "json list"
  | JObj "(string \<times> json) list"

type_synonym obj = "(string \<times> json) list"

datatype conv_error = ConvTypeError | ConvValueError

definition and_then :: "'e + 'a \<Rightarrow> ('a \<Rightarrow> 'e + 'b) \<Rightarrow> 'e + 'b" where
  "and_then r f = (case r of Inl e \<Rightarrow> Inl e | Inr x \<Rightarrow> f x)"

lemma and_then_simps [simp]:
  "and_then (Inl e) f = Inl e" "and_then (Inr x) f = f x"
  by (simp_all add: and_then_def)

text \<open>\<open>payload.get(key, default)\<close>.\<close>

definition jget :: "obj \<Rightarrow> string \<Rightarrow> json \<Rightarrow> json" where
  "jget payload key dflt = (case map_of payload key of None \<Rightarrow> dflt | Some v \<Rightarrow> v)"

definition py_str :: "(json \<Rightarrow> string) \<Rightarrow> json \<Rightarrow> string" where
  "py_str rp v = (case v of JStr s \<Rightarrow> s | _ \<Rightarrow> rp v)"

fun py_bool :: "json \<Rightarrow> bool" where
  "py_bool JNull = False"
| "py_bool (JBool b) = b"
| "py_bool (JInt n) = (n \<noteq> 0)"
| "py_bool (JFloat r) = (r \<noteq> 0)"
| "py_bool (JStr s) = (s \<noteq> [])"
| "py_bool (JArr xs) = (xs \<noteq> [])"
| "py_bool (JObj xs) = (xs \<noteq> [])"

text \<open>The digits of \<open>int()\<close>: single underscores may stand between digits.\<close>

fun digits_value :: "string \<Rightarrow> int \<Rightarrow> int option" where
  "digits_value [] acc = None"
| "digits_value (c # cs) acc =
     (if \<not> is_digit c then None
      else let acc' = 10 * acc + (int (code_of c) - 48)
           in case cs of
                [] \<Rightarrow> Some acc'
              | d # ds \<Rightarrow> if d = CHR ''_'' then digits_value ds acc' else digits_value cs acc')"

definition int_of_text :: "string \<Rightarrow> int option" where
  "int_of_text s =
     (case strip s of
        [] \<Rightarrow> None
      | c # cs \<Rightarrow>
          if c = CHR ''-'' then map_option uminus (digits_value cs 0)
          else if c = CHR ''+'' then digits_value cs 0
          else digits_value (c # cs) 0)"

text \<open>\<open>int()\<close> of a float truncates towards zero.\<close>

definition trunc_rat :: "rat \<Rightarrow> int" where
  "trunc_rat r = (if 0 \<le> r then \<lfloor>r\<rfloor> else \<lceil>r\<rceil>)"

fun py_int :: "json \<Rightarrow> conv_error + int" where
  "py_int (JBool b) = Inr (if b then 1 else 0)"
| "py_int (JInt n) = Inr n"
| "py_int (JFloat r) = Inr (trunc_rat r)"
| "py_int (JStr s) = (case int_of_text s of None \<Rightarrow> Inl ConvValueError | Some n \<Rightarrow> Inr n)"
| "py_int _ = Inl ConvTypeError"

fun py_float :: "(string \<Rightarrow> rat option) \<Rightarrow> json \<Rightarrow> conv_error + rat" where
  "py_float fl (JBool b) = Inr (if b then 1 else 0)"
| "py_float fl (JInt n) = Inr (of_int n)"
| "py_float fl (JFloat r) = Inr r"
| "py_float fl (JStr s) = (case fl s of None \<Rightarrow> Inl ConvValueError | Some r \<Rightarrow> Inr r)"
| "py_float fl _ = Inl ConvTypeError"

text \<open>\<open>_coerce_int\<close> of the day ledger never raises.\<close>

definition coerce_int :: "json \<Rightarrow> int" where
  "coerce_int v = (case py_int v of Inl _ \<Rightarrow> 0 | Inr n \<Rightarrow> n)"

subsection \<open>State\<close>

record file_state =
  fs_mtime :: rat
  fs_processed_at :: string
  fs_status :: string
  fs_error :: json
  fs_backoff_until :: "rat option"
  fs_backoff_seconds :: "rat option"

record recent_entry =
  re_harvest :: string
  re_processed_at :: string

record journey_day =
  jd_day :: string
  jd_cycles :: int
  jd_llm_files_processed :: int
  jd_links_checked :: int
  jd_dead_links_flagged :: int
  jd_missing_assets_flagged :: int
  jd_fast_track_files :: int

text \<open>
  Three fields keep whatever JSON value was loaded, as the code does: \<open>error\<close> of a file,
  \<open>last_scan_at\<close> and \<open>last_file\<close>.
\<close>

record daemon_state =
  ds_version :: int
  ds_files :: "(string \<times> file_state) list"
  ds_status :: string
  ds_model :: string
  ds_bootstrap_complete :: bool
  ds_bootstrap_failed :: bool
  ds_bootstrap_failed_reason :: "string option"
  ds_bootstrap_scanned :: int
  ds_bootstrap_total :: int
  ds_session_prompt_tokens :: int
  ds_session_completion_tokens :: int
  ds_current_cluster :: "string option"
  ds_current_cluster_files_total :: int
  ds_current_cluster_files_done :: int
  ds_phase2_cognitive_total :: int
  ds_phase2_cognitive_done :: int
  ds_phase2_vault_baseline_total :: int
  ds_phase2_cluster_file_in_flight :: bool
  ds_phase2_llm_turns :: int
  ds_last_scan_at :: json
  ds_last_file :: json
  ds_ai_pages_created :: int
  ds_ai_links_injected :: int
  ds_ai_blocks_healed :: int
  ds_hygiene_corrections :: int
  ds_page_summaries_created :: int
  ds_bootstrap_recent :: "(string \<times> recent_entry) list"
  ds_journey_day :: journey_day

definition empty_day :: journey_day where
  "empty_day = \<lparr>jd_day = [], jd_cycles = 0, jd_llm_files_processed = 0, jd_links_checked = 0,
     jd_dead_links_flagged = 0, jd_missing_assets_flagged = 0, jd_fast_track_files = 0\<rparr>"

definition DEFAULT_LM_MODEL :: string where
  "DEFAULT_LM_MODEL = ''local-model''"

definition fresh_state :: daemon_state where
  "fresh_state = \<lparr>ds_version = 1, ds_files = [], ds_status = ''idle'', ds_model = DEFAULT_LM_MODEL,
     ds_bootstrap_complete = False, ds_bootstrap_failed = False, ds_bootstrap_failed_reason = None,
     ds_bootstrap_scanned = 0, ds_bootstrap_total = 0, ds_session_prompt_tokens = 0,
     ds_session_completion_tokens = 0, ds_current_cluster = None, ds_current_cluster_files_total = 0,
     ds_current_cluster_files_done = 0, ds_phase2_cognitive_total = 0, ds_phase2_cognitive_done = 0,
     ds_phase2_vault_baseline_total = 0, ds_phase2_cluster_file_in_flight = False, ds_phase2_llm_turns = 0,
     ds_last_scan_at = JNull, ds_last_file = JNull, ds_ai_pages_created = 0, ds_ai_links_injected = 0,
     ds_ai_blocks_healed = 0, ds_hygiene_corrections = 0, ds_page_summaries_created = 0,
     ds_bootstrap_recent = [], ds_journey_day = empty_day\<rparr>"

subsection \<open>Writing and reading the state\<close>

definition opt_text :: "string option \<Rightarrow> json" where
  "opt_text x = (case x of None \<Rightarrow> JNull | Some s \<Rightarrow> JStr s)"

definition opt_float :: "rat option \<Rightarrow> json" where
  "opt_float x = (case x of None \<Rightarrow> JNull | Some r \<Rightarrow> JFloat r)"

definition file_to_json :: "file_state \<Rightarrow> json" where
  "file_to_json rec = JObj
     [(''mtime'', JFloat (fs_mtime rec)), (''processed_at'', JStr (fs_processed_at rec)),
      (''status'', JStr (fs_status rec)), (''error'', fs_error rec),
      (''lock_backoff_until'', opt_float (fs_backoff_until rec)),
      (''lock_backoff_seconds'', opt_float (fs_backoff_seconds rec))]"

definition recent_to_json :: "recent_entry \<Rightarrow> json" where
  "recent_to_json rec = JObj [(''harvest'', JStr (re_harvest rec)), (''processed_at'', JStr (re_processed_at rec))]"

definition day_to_json :: "journey_day \<Rightarrow> json" where
  "day_to_json d = JObj
     [(''day'', JStr (jd_day d)), (''cycles'', JInt (jd_cycles d)),
      (''llm_files_processed'', JInt (jd_llm_files_processed d)), (''links_checked'', JInt (jd_links_checked d)),
      (''dead_links_flagged'', JInt (jd_dead_links_flagged d)),
      (''missing_assets_flagged'', JInt (jd_missing_assets_flagged d)),
      (''fast_track_files'', JInt (jd_fast_track_files d))]"

definition to_json :: "daemon_state \<Rightarrow> json" where
  "to_json s = JObj
     [(''version'', JInt (ds_version s)), (''status'', JStr (ds_status s)), (''model'', JStr (ds_model s)),
      (''bootstrap_complete'', JBool (ds_bootstrap_complete s)), (''bootstrap_failed'', JBool (ds_bootstrap_failed s)),
      (''bootstrap_failed_reason'', opt_text (ds_bootstrap_failed_reason s)),
      (''bootstrap_scanned'', JInt (ds_bootstrap_scanned s)), (''bootstrap_total'', JInt (ds_bootstrap_total s)),
      (''session_prompt_tokens'', JInt (ds_session_prompt_tokens s)),
      (''session_completion_tokens'', JInt (ds_session_completion_tokens s)),
      (''current_cluster'', opt_text (ds_current_cluster s)),
      (''current_cluster_files_total'', JInt (ds_current_cluster_files_total s)),
      (''current_cluster_files_done'', JInt (ds_current_cluster_files_done s)),
      (''phase2_cognitive_total'', JInt (ds_phase2_cognitive_total s)),
      (''phase2_cognitive_done'', JInt (ds_phase2_cognitive_done s)),
      (''phase2_vault_baseline_total'', JInt (ds_phase2_vault_baseline_total s)),
      (''phase2_cluster_file_in_flight'', JBool (ds_phase2_cluster_file_in_flight s)),
      (''phase2_llm_turns'', JInt (ds_phase2_llm_turns s)),
      (''last_scan_at'', ds_last_scan_at s), (''last_file'', ds_last_file s),
      (''ai_pages_created'', JInt (ds_ai_pages_created s)), (''ai_links_injected'', JInt (ds_ai_links_injected s)),
      (''ai_blocks_healed'', JInt (ds_ai_blocks_healed s)), (''hygiene_corrections'', JInt (ds_hygiene_corrections s)),
      (''page_summaries_created'', JInt (ds_page_summaries_created s)),
      (''bootstrap_recent'', JObj (map (\<lambda>(p, r). (p, recent_to_json r)) (ds_bootstrap_recent s))),
      (''journey_day'', day_to_json (ds_journey_day s)),
      (''files'', JObj (map (\<lambda>(p, r). (p, file_to_json r)) (ds_files s)))]"

definition opt_float_of :: "(string \<Rightarrow> rat option) \<Rightarrow> json \<Rightarrow> conv_error + rat option" where
  "opt_float_of fl v = (if v = JNull then Inr None else and_then (py_float fl v) (\<lambda>r. Inr (Some r)))"

definition file_of_json :: "(json \<Rightarrow> string) \<Rightarrow> (string \<Rightarrow> rat option) \<Rightarrow> obj \<Rightarrow> conv_error + file_state" where
  "file_of_json rp fl rec =
     and_then (py_float fl (jget rec ''mtime'' (JFloat 0))) (\<lambda>m.
     and_then (opt_float_of fl (jget rec ''lock_backoff_until'' JNull)) (\<lambda>u.
     and_then (opt_float_of fl (jget rec ''lock_backoff_seconds'' JNull)) (\<lambda>b.
     Inr \<lparr>fs_mtime = m, fs_processed_at = py_str rp (jget rec ''processed_at'' (JStr [])),
          fs_status = py_str rp (jget rec ''status'' (JStr ''processed'')), fs_error = jget rec ''error'' JNull,
          fs_backoff_until = u, fs_backoff_seconds = b\<rparr>)))"

text \<open>An item that is no object is skipped.\<close>

fun files_of_json ::
  "(json \<Rightarrow> string) \<Rightarrow> (string \<Rightarrow> rat option) \<Rightarrow> obj \<Rightarrow> (string \<times> file_state) list \<Rightarrow> conv_error + (string \<times> file_state) list" where
  "files_of_json rp fl [] acc = Inr acc"
| "files_of_json rp fl ((p, v) # items) acc =
     (case v of
        JObj rec \<Rightarrow> and_then (file_of_json rp fl rec) (\<lambda>f. files_of_json rp fl items (AList.update p f acc))
      | _ \<Rightarrow> files_of_json rp fl items acc)"

definition HARVEST_STATUSES :: "string list" where
  "HARVEST_STATUSES = [''regex'', ''llm'', ''skipped'', ''error'']"

fun recent_of_json :: "(json \<Rightarrow> string) \<Rightarrow> obj \<Rightarrow> (string \<times> recent_entry) list \<Rightarrow> (string \<times> recent_entry) list" where
  "recent_of_json rp [] acc = acc"
| "recent_of_json rp ((p, v) # items) acc =
     (case v of
        JObj rec \<Rightarrow>
          (let harvest = py_str rp (jget rec ''harvest'' (JStr []))
           in if harvest \<notin> set HARVEST_STATUSES then recent_of_json rp items acc
              else recent_of_json rp items
                     (AList.update p \<lparr>re_harvest = harvest, re_processed_at = py_str rp (jget rec ''processed_at'' (JStr []))\<rparr> acc))
      | _ \<Rightarrow> recent_of_json rp items acc)"

definition day_of_json :: "(json \<Rightarrow> string) \<Rightarrow> json \<Rightarrow> journey_day" where
  "day_of_json rp v =
     (case v of
        JObj d \<Rightarrow>
          \<lparr>jd_day = py_str rp (jget d ''day'' (JStr [])), jd_cycles = coerce_int (jget d ''cycles'' (JInt 0)),
           jd_llm_files_processed = coerce_int (jget d ''llm_files_processed'' (JInt 0)),
           jd_links_checked = coerce_int (jget d ''links_checked'' (JInt 0)),
           jd_dead_links_flagged = coerce_int (jget d ''dead_links_flagged'' (JInt 0)),
           jd_missing_assets_flagged = coerce_int (jget d ''missing_assets_flagged'' (JInt 0)),
           jd_fast_track_files = coerce_int (jget d ''fast_track_files'' (JInt 0))\<rparr>
      | _ \<Rightarrow> empty_day)"

text \<open>\<open>str(x)\<close> unless \<open>x\<close> is \<open>None\<close> or the empty string.\<close>

definition opt_text_of :: "(json \<Rightarrow> string) \<Rightarrow> json \<Rightarrow> string option" where
  "opt_text_of rp v = (if v = JNull \<or> v = JStr [] then None else Some (py_str rp v))"

definition items_of :: "json \<Rightarrow> obj" where
  "items_of v = (case v of JObj items \<Rightarrow> items | _ \<Rightarrow> [])"

definition from_json :: "(json \<Rightarrow> string) \<Rightarrow> (string \<Rightarrow> rat option) \<Rightarrow> obj \<Rightarrow> conv_error + daemon_state" where
  "from_json rp fl pl =
     (let count = (\<lambda>key. py_int (jget pl key (JInt 0))); flag = (\<lambda>key. py_bool (jget pl key (JBool False))) in
      and_then (files_of_json rp fl (items_of (jget pl ''files'' (JObj []))) []) (\<lambda>files.
      and_then (py_int (jget pl ''version'' (JInt 1))) (\<lambda>version.
      and_then (count ''bootstrap_scanned'') (\<lambda>bscanned.
      and_then (count ''bootstrap_total'') (\<lambda>btotal.
      and_then (count ''session_prompt_tokens'') (\<lambda>prompt.
      and_then (count ''session_completion_tokens'') (\<lambda>completion.
      and_then (count ''current_cluster_files_total'') (\<lambda>ctotal.
      and_then (count ''current_cluster_files_done'') (\<lambda>cdone.
      and_then (count ''phase2_cognitive_total'') (\<lambda>ptotal.
      and_then (count ''phase2_cognitive_done'') (\<lambda>pdone.
      and_then (count ''phase2_vault_baseline_total'') (\<lambda>vault.
      and_then (count ''phase2_llm_turns'') (\<lambda>turns.
      and_then (count ''ai_pages_created'') (\<lambda>pages.
      and_then (py_int (jget pl ''ai_links_injected'' (jget pl ''links_backpropagated'' (JInt 0)))) (\<lambda>links.
      and_then (py_int (jget pl ''ai_blocks_healed'' (jget pl ''blocks_healed'' (JInt 0)))) (\<lambda>blocks.
      and_then (count ''hygiene_corrections'') (\<lambda>hygiene.
      and_then (count ''page_summaries_created'') (\<lambda>summaries.
      Inr \<lparr>ds_version = version, ds_files = files, ds_status = py_str rp (jget pl ''status'' (JStr ''idle'')),
           ds_model = py_str rp (jget pl ''model'' (JStr DEFAULT_LM_MODEL)),
           ds_bootstrap_complete = flag ''bootstrap_complete'', ds_bootstrap_failed = flag ''bootstrap_failed'',
           ds_bootstrap_failed_reason = opt_text_of rp (jget pl ''bootstrap_failed_reason'' JNull),
           ds_bootstrap_scanned = bscanned, ds_bootstrap_total = btotal,
           ds_session_prompt_tokens = prompt, ds_session_completion_tokens = completion,
           ds_current_cluster = opt_text_of rp (jget pl ''current_cluster'' JNull),
           ds_current_cluster_files_total = ctotal, ds_current_cluster_files_done = cdone,
           ds_phase2_cognitive_total = ptotal, ds_phase2_cognitive_done = pdone,
           ds_phase2_vault_baseline_total = vault,
           ds_phase2_cluster_file_in_flight = flag ''phase2_cluster_file_in_flight'', ds_phase2_llm_turns = turns,
           ds_last_scan_at = jget pl ''last_scan_at'' JNull, ds_last_file = jget pl ''last_file'' JNull,
           ds_ai_pages_created = pages, ds_ai_links_injected = links, ds_ai_blocks_healed = blocks,
           ds_hygiene_corrections = hygiene, ds_page_summaries_created = summaries,
           ds_bootstrap_recent = recent_of_json rp (items_of (jget pl ''bootstrap_recent'' JNull)) [],
           ds_journey_day = day_of_json rp (jget pl ''journey_day'' JNull)\<rparr>))))))))))))))))))"

subsection \<open>Round trip\<close>

text \<open>
  What a state of the running daemon satisfies: dictionary keys are distinct, the two optional
  texts are not empty, and the harvest statuses are the four literals of the code.
\<close>

definition state_ok :: "daemon_state \<Rightarrow> bool" where
  "state_ok s \<longleftrightarrow> distinct (map fst (ds_files s)) \<and> distinct (map fst (ds_bootstrap_recent s)) \<and>
     list_all (\<lambda>(p, r). re_harvest r \<in> set HARVEST_STATUSES) (ds_bootstrap_recent s) \<and>
     ds_bootstrap_failed_reason s \<noteq> Some [] \<and> ds_current_cluster s \<noteq> Some []"

lemma opt_text_round: "x \<noteq> Some [] \<Longrightarrow> opt_text_of rp (opt_text x) = x"
  by (cases x) (simp_all add: opt_text_of_def opt_text_def py_str_def)

lemma opt_float_round: "opt_float_of fl (opt_float x) = Inr x"
  by (cases x) (simp_all add: opt_float_of_def opt_float_def)

lemma file_round: "file_to_json f = JObj rec \<Longrightarrow> file_of_json rp fl rec = Inr f"
  by (auto simp: file_to_json_def file_of_json_def jget_def opt_float_round py_str_def)

lemma update_new: "p \<notin> fst ` set acc \<Longrightarrow> AList.update p x acc = acc @ [(p, x)]"
  by (induction acc) auto

lemma files_round:
  "distinct (map fst (acc @ fs)) \<Longrightarrow> files_of_json rp fl (map (\<lambda>(p, f). (p, file_to_json f)) fs) acc = Inr (acc @ fs)"
proof (induction fs arbitrary: acc)
  case (Cons e fs)
  obtain p f where e: "e = (p, f)" by (cases e)
  obtain rec where r: "file_to_json f = JObj rec" by (simp add: file_to_json_def)
  show ?case using Cons.IH [of "acc @ [(p, f)]"] Cons.prems by (simp add: e r file_round [OF r] update_new)
qed simp

lemma recent_round:
  "distinct (map fst (acc @ rs)) \<Longrightarrow> list_all (\<lambda>(p, r). re_harvest r \<in> set HARVEST_STATUSES) rs \<Longrightarrow>
   recent_of_json rp (map (\<lambda>(p, r). (p, recent_to_json r)) rs) acc = acc @ rs"
proof (induction rs arbitrary: acc)
  case (Cons e rs)
  obtain p r where e: "e = (p, r)" by (cases e)
  have r: "\<lparr>re_harvest = re_harvest r, re_processed_at = re_processed_at r\<rparr> = r" by simp
  show ?case using Cons.IH [of "acc @ [(p, r)]"] Cons.prems
    by (simp add: e recent_to_json_def jget_def py_str_def Let_def update_new r)
qed simp

lemma day_round: "day_of_json rp (day_to_json d) = d"
  by (simp add: day_of_json_def day_to_json_def jget_def py_str_def coerce_int_def)

lemma from_to_json:
  assumes "state_ok s" and "to_json s = JObj pl"
  shows "from_json rp fl pl = Inr s"
proof -
  have fs: "files_of_json rp fl (map (\<lambda>(p, f). (p, file_to_json f)) (ds_files s)) [] = Inr (ds_files s)"
    and rs: "recent_of_json rp (map (\<lambda>(p, r). (p, recent_to_json r)) (ds_bootstrap_recent s)) [] = ds_bootstrap_recent s"
    using files_round [of "[]" "ds_files s"] recent_round [of "[]" "ds_bootstrap_recent s"] assms(1)
    by (simp_all add: state_ok_def)
  have ot: "opt_text_of rp (opt_text (ds_bootstrap_failed_reason s)) = ds_bootstrap_failed_reason s"
    "opt_text_of rp (opt_text (ds_current_cluster s)) = ds_current_cluster s"
    using assms(1) by (simp_all add: state_ok_def opt_text_round)
  show ?thesis
    using assms(2) unfolding to_json_def json.inject
    by (elim subst [of _ pl]) (simp add: from_json_def jget_def items_of_def fs rs ot day_round py_str_def)
qed

subsection \<open>Operations on the state\<close>

definition BOOTSTRAP_RECENT_MAX :: nat where
  "BOOTSTRAP_RECENT_MAX = 30"

text \<open>\<open>min\<close> of the keys by time: the first key with the smallest one.\<close>

definition upsert_bootstrap_recent :: "daemon_state \<Rightarrow> string \<Rightarrow> string \<Rightarrow> string \<Rightarrow> daemon_state" where
  "upsert_bootstrap_recent s path_key harvest now =
     (let recent = AList.update path_key \<lparr>re_harvest = harvest, re_processed_at = now\<rparr> (ds_bootstrap_recent s)
      in if length recent \<le> BOOTSTRAP_RECENT_MAX then s\<lparr>ds_bootstrap_recent := recent\<rparr>
         else let oldest = fst (arg_min_list (\<lambda>(p, r). re_processed_at r) recent)
              in s\<lparr>ds_bootstrap_recent := AList.delete oldest recent\<rparr>)"

definition record_bootstrap_harvest_impact :: "daemon_state \<Rightarrow> string option \<Rightarrow> daemon_state" where
  "record_bootstrap_harvest_impact s harvest =
     (if harvest \<in> {Some ''regex'', Some ''llm''}
      then s\<lparr>ds_page_summaries_created := ds_page_summaries_created s + 1\<rparr> else s)"

definition lock_backoff_active :: "rat \<Rightarrow> file_state \<Rightarrow> bool" where
  "lock_backoff_active now rec =
     (if fs_status rec \<noteq> ''lock_backoff'' then False
      else case fs_backoff_until rec of None \<Rightarrow> False | Some u \<Rightarrow> now < u)"

definition LOCK_BACKOFF_INITIAL :: rat where
  "LOCK_BACKOFF_INITIAL = 30"

definition LOCK_BACKOFF_MAX :: rat where
  "LOCK_BACKOFF_MAX = 300"

definition next_lock_backoff_seconds :: "file_state option \<Rightarrow> rat" where
  "next_lock_backoff_seconds prior =
     (case prior of
        None \<Rightarrow> LOCK_BACKOFF_INITIAL
      | Some rec \<Rightarrow>
          if fs_status rec \<noteq> ''lock_backoff'' then LOCK_BACKOFF_INITIAL
          else let previous = (case fs_backoff_seconds rec of
                                 None \<Rightarrow> LOCK_BACKOFF_INITIAL
                               | Some b \<Rightarrow> if b = 0 then LOCK_BACKOFF_INITIAL else b)
               in min (previous * 2) LOCK_BACKOFF_MAX)"

definition record_page_lock_backoff ::
  "daemon_state \<Rightarrow> string \<Rightarrow> rat \<Rightarrow> string \<Rightarrow> file_state option \<Rightarrow> string \<Rightarrow> rat \<Rightarrow> daemon_state" where
  "record_page_lock_backoff s key m msg prior now_iso now =
     (if (case prior of None \<Rightarrow> False | Some rec \<Rightarrow> fs_status rec = ''processed'') then s
      else let interval = next_lock_backoff_seconds prior
           in s\<lparr>ds_files := AList.update key
                  \<lparr>fs_mtime = m, fs_processed_at = now_iso, fs_status = ''lock_backoff'', fs_error = JStr msg,
                   fs_backoff_until = Some (now + interval), fs_backoff_seconds = Some interval\<rparr> (ds_files s)\<rparr>)"

definition status_priority :: "string \<Rightarrow> nat" where
  "status_priority st =
     (if st = ''processed'' then 5 else if st = ''error'' then 4 else if st = ''skipped'' then 3
      else if st = ''lock_backoff'' then 2 else if st = ''pending'' then 1 else 0)"

definition merge_file_state :: "file_state \<Rightarrow> file_state \<Rightarrow> file_state" where
  "merge_file_state existing incoming =
     (let ep = status_priority (fs_status existing); ip = status_priority (fs_status incoming)
      in if ep < ip then incoming
         else if ip < ep then existing
         else if fs_mtime existing < fs_mtime incoming then incoming
         else if fs_mtime incoming < fs_mtime existing then existing
         else if fs_processed_at existing \<le> fs_processed_at incoming then incoming else existing)"

text \<open>One key of the migration; the flag says whether anything changed.\<close>

definition migrate_key ::
  "(string \<Rightarrow> string) \<Rightarrow> (string \<times> file_state) list \<times> bool \<Rightarrow> string \<times> file_state \<Rightarrow> (string \<times> file_state) list \<times> bool" where
  "migrate_key nrm acc item =
     (let (migrated, changed) = acc; (key, rec) = item; new_key = nrm key
      in if new_key = [] then (migrated, True)
         else case map_of migrated new_key of
                Some old \<Rightarrow> (AList.update new_key (merge_file_state old rec) migrated, True)
              | None \<Rightarrow> (migrated @ [(new_key, rec)], changed \<or> new_key \<noteq> key))"

definition normalize_daemon_state_file_keys :: "(string \<Rightarrow> string) \<Rightarrow> daemon_state \<Rightarrow> daemon_state \<times> bool" where
  "normalize_daemon_state_file_keys nrm s =
     (if ds_files s = [] then (s, False)
      else let (migrated, changed) = foldl (migrate_key nrm) ([], False) (ds_files s)
           in (if changed then s\<lparr>ds_files := migrated\<rparr> else s, changed))"

text \<open>The ledger entry of a page, with the absolute path as legacy key.\<close>

definition lookup_file_state :: "world \<Rightarrow> path \<Rightarrow> daemon_state \<Rightarrow> path \<Rightarrow> py_exn + (string \<times> file_state option)" where
  "lookup_file_state w graph_root s p =
     (case graph_relative_path_key w p graph_root of
        Inl e \<Rightarrow> Inl e
      | Inr key \<Rightarrow>
          (case map_of (ds_files s) key of
             Some rec \<Rightarrow> Inr (key, Some rec)
           | None \<Rightarrow> Inr (key, map_of (ds_files s) (CHR ''/'' # join ''/'' (resolved w p)))))"

text \<open>
  \<open>reconcile_telemetry_ledger\<close> and \<open>heal_daemon_state_ledger\<close>: the totals of the graph are counted
  by the caller.
\<close>

definition heal_daemon_state_ledger :: "int \<Rightarrow> int \<Rightarrow> int \<Rightarrow> int \<Rightarrow> daemon_state \<Rightarrow> daemon_state \<times> bool" where
  "heal_daemon_state_ledger total_links total_blocks total_pages catalog_summaries s =
     (let links = ds_ai_links_injected s; blocks = ds_ai_blocks_healed s;
          pages = ds_ai_pages_created s; summaries = ds_page_summaries_created s;
          h1 = total_links < links; h2 = total_blocks < blocks; h3 = total_pages < pages;
          h4 = catalog_summaries < summaries \<and> 0 < catalog_summaries
      in if h1 \<or> h2 \<or> h3 \<or> h4
         then (s\<lparr>ds_ai_links_injected := if h1 then total_links else links,
                 ds_ai_blocks_healed := if h2 then total_blocks else blocks,
                 ds_ai_pages_created := if h3 then total_pages else pages,
                 ds_page_summaries_created := if h4 then catalog_summaries else summaries\<rparr>, True)
         else (s, False))"

subsection \<open>Days\<close>

record cycle_stats =
  cy_llm_files_processed :: int
  cy_links_checked :: int
  cy_dead_links_flagged :: int
  cy_missing_assets_flagged :: int
  cy_fast_track_files :: int

definition has_journal_activity :: "cycle_stats \<Rightarrow> bool" where
  "has_journal_activity c \<longleftrightarrow>
     0 < cy_llm_files_processed c \<or> 0 < cy_fast_track_files c \<or>
     0 < cy_dead_links_flagged c + cy_missing_assets_flagged c \<or> 0 < cy_links_checked c"

definition reset_if_new_day :: "journey_day \<Rightarrow> string \<Rightarrow> journey_day" where
  "reset_if_new_day d today = (if jd_day d \<noteq> today then empty_day\<lparr>jd_day := today\<rparr> else d)"

definition accumulate :: "journey_day \<Rightarrow> cycle_stats \<Rightarrow> journey_day" where
  "accumulate d c = d\<lparr>jd_cycles := jd_cycles d + 1,
     jd_llm_files_processed := jd_llm_files_processed d + cy_llm_files_processed c,
     jd_links_checked := jd_links_checked d + cy_links_checked c,
     jd_dead_links_flagged := jd_dead_links_flagged d + cy_dead_links_flagged c,
     jd_missing_assets_flagged := jd_missing_assets_flagged d + cy_missing_assets_flagged c,
     jd_fast_track_files := jd_fast_track_files d + cy_fast_track_files c\<rparr>"

subsection \<open>Files on disk\<close>

datatype disk_file = Missing | Garbled | Holds json

record checkpoint =
  ck_primary :: disk_file
  ck_backup :: disk_file
  ck_tmp :: disk_file

text \<open>How the system calls of a save and of a restore end.\<close>

datatype save_io = SaveOk | LockFails | WriteFails | ReplaceFails | BackupFails disk_file
datatype restore_io = RestoreOk | RestoreFails disk_file
datatype load_error = LoadConv conv_error | LoadPolicy policy_error

definition resolve_llm_model_name :: "string \<Rightarrow> string \<Rightarrow> string" where
  "resolve_llm_model_name llm_model_name matryca_lm_model =
     (if strip llm_model_name \<noteq> [] then strip llm_model_name
      else if strip matryca_lm_model \<noteq> [] then strip matryca_lm_model else DEFAULT_LM_MODEL)"

definition sync_daemon_state_from_env :: "string \<times> string \<Rightarrow> daemon_state \<Rightarrow> daemon_state" where
  "sync_daemon_state_from_env menv s = s\<lparr>ds_model := resolve_llm_model_name (fst menv) (snd menv)\<rparr>"

text \<open>\<open>obs n\<close> is what the file holds at the reader's attempt \<open>n\<close>.\<close>

definition read_daemon_state_payload :: "(nat \<Rightarrow> disk_file) \<Rightarrow> obj option" where
  "read_daemon_state_payload obs =
     (case obs 0 of
        Holds (JObj pl) \<Rightarrow> Some pl
      | Holds _ \<Rightarrow> None
      | _ \<Rightarrow> (case obs 1 of Holds (JObj pl) \<Rightarrow> Some pl | _ \<Rightarrow> None))"

definition finish_load ::
  "(json \<Rightarrow> string) \<Rightarrow> (string \<Rightarrow> rat option) \<Rightarrow> world \<Rightarrow> path \<Rightarrow> string \<times> string \<Rightarrow> obj \<Rightarrow> load_error + daemon_state" where
  "finish_load rp fl w graph_root menv pl =
     (case from_json rp fl pl of
        Inl e \<Rightarrow> Inl (LoadConv e)
      | Inr s \<Rightarrow> Inr (fst (normalize_daemon_state_file_keys (normalize_daemon_file_key w graph_root) (sync_daemon_state_from_env menv s))))"

definition load_daemon_state ::
  "(json \<Rightarrow> string) \<Rightarrow> (string \<Rightarrow> rat option) \<Rightarrow> world \<Rightarrow> path \<Rightarrow> string \<times> string \<Rightarrow> restore_io \<Rightarrow>
   (nat \<Rightarrow> disk_file) \<Rightarrow> checkpoint \<Rightarrow> checkpoint \<times> (load_error + daemon_state)" where
  "load_daemon_state rp fl w graph_root menv io late ck =
     (if ck_primary ck = Missing \<and> ck_backup ck = Missing
      then (ck, Inr (sync_daemon_state_from_env menv fresh_state))
      else
        let obs = (\<lambda>n. if n = 0 then ck_primary ck else late n);
            payload = (if ck_primary ck \<noteq> Missing then read_daemon_state_payload obs else None)
        in case payload of
             Some pl \<Rightarrow> (ck, finish_load rp fl w graph_root menv pl)
           | None \<Rightarrow>
               if ck_backup ck = Missing then (ck, Inr (sync_daemon_state_from_env menv fresh_state))
               else (case read_daemon_state_payload (\<lambda>_. ck_backup ck) of
                  None \<Rightarrow> (ck, Inr (sync_daemon_state_from_env menv fresh_state))
                | Some pl \<Rightarrow>
                    (case is_graph_read_only (env_read_only w) of
                       Inl e \<Rightarrow> (ck, Inl (LoadPolicy e))
                     | Inr ro \<Rightarrow>
                         ((if ro then ck
                           else case io of
                                  RestoreOk \<Rightarrow> ck\<lparr>ck_primary := ck_backup ck\<rparr>
                                | RestoreFails d \<Rightarrow> ck\<lparr>ck_primary := d\<rparr>),
                          finish_load rp fl w graph_root menv pl))))"

text \<open>
  The disk after each step of a save: the temporary file appears, is written, replaces the
  primary in one step, and the primary is copied over the backup, which is not one step. A
  failed write or replacement removes the temporary file and raises.
\<close>

fun save_steps :: "save_io \<Rightarrow> json \<Rightarrow> checkpoint \<Rightarrow> checkpoint list" where
  "save_steps LockFails j ck = []"
| "save_steps WriteFails j ck = [ck\<lparr>ck_tmp := Garbled\<rparr>, ck\<lparr>ck_tmp := Missing\<rparr>]"
| "save_steps ReplaceFails j ck = [ck\<lparr>ck_tmp := Garbled\<rparr>, ck\<lparr>ck_tmp := Holds j\<rparr>, ck\<lparr>ck_tmp := Missing\<rparr>]"
| "save_steps (BackupFails d) j ck =
     [ck\<lparr>ck_tmp := Garbled\<rparr>, ck\<lparr>ck_tmp := Holds j\<rparr>, ck\<lparr>ck_primary := Holds j, ck_tmp := Missing\<rparr>,
      ck\<lparr>ck_primary := Holds j, ck_tmp := Missing, ck_backup := d\<rparr>]"
| "save_steps SaveOk j ck =
     [ck\<lparr>ck_tmp := Garbled\<rparr>, ck\<lparr>ck_tmp := Holds j\<rparr>, ck\<lparr>ck_primary := Holds j, ck_tmp := Missing\<rparr>,
      ck\<lparr>ck_primary := Holds j, ck_tmp := Missing, ck_backup := Garbled\<rparr>,
      ck\<lparr>ck_primary := Holds j, ck_tmp := Missing, ck_backup := Holds j\<rparr>]"

text \<open>The states of the disk during a save, and whether it returns.\<close>

definition save_daemon_state ::
  "world \<Rightarrow> path \<Rightarrow> save_io \<Rightarrow> checkpoint \<Rightarrow> daemon_state \<Rightarrow> checkpoint list \<times> (py_exn + unit)" where
  "save_daemon_state w graph_root io ck s =
     (case guard_graph_mutation (resolve w) (env_read_only w) graph_root (graph_root @ [''.matryca_daemon_state.json'']) of
        Inl (GraphReadOnlyError r) \<Rightarrow> ([ck], Inr ())
      | Inl e \<Rightarrow> ([ck], Inl (PolicyError e))
      | Inr _ \<Rightarrow>
          (let s' = fst (normalize_daemon_state_file_keys (normalize_daemon_file_key w graph_root) s)
           in (ck # save_steps io (to_json s') ck,
               if io \<in> {LockFails, WriteFails, ReplaceFails} then Inl OsError else Inr ())))"

subsection \<open>Migration of the ledger\<close>

definition file_rank :: "file_state \<Rightarrow> nat \<times> rat \<times> string" where
  "file_rank f = (status_priority (fs_status f), fs_mtime f, fs_processed_at f)"

lemma merge_is_max: "merge_file_state e i = (if file_rank e \<le> file_rank i then i else e)"
  by (auto simp: merge_file_state_def file_rank_def Let_def less_eq_prod_def less_prod_def)

text \<open>What a migrated ledger keeps of the old one.\<close>

definition keeps_best :: "(string \<Rightarrow> string) \<Rightarrow> (string \<times> file_state) list \<Rightarrow> (string \<rightharpoonup> file_state) \<Rightarrow> bool" where
  "keeps_best nrm ps m \<longleftrightarrow>
     (\<forall>k r. m k = Some r \<longrightarrow> k \<noteq> [] \<and> (\<exists>key. (key, r) \<in> set ps \<and> nrm key = k)) \<and>
     (\<forall>key r. (key, r) \<in> set ps \<longrightarrow> nrm key \<noteq> [] \<longrightarrow> (\<exists>r'. m (nrm key) = Some r' \<and> file_rank r \<le> file_rank r'))"

lemma keeps_best_dropped: "keeps_best nrm ps m \<Longrightarrow> nrm key = [] \<Longrightarrow> keeps_best nrm (ps @ [(key, rec)]) m"
  unfolding keeps_best_def by auto

lemma keeps_best_put:
  assumes "keeps_best nrm ps m" and "nrm key \<noteq> []"
    and "m (nrm key) = None \<and> new = rec \<or> (\<exists>old. m (nrm key) = Some old \<and> new = merge_file_state old rec)"
  shows "keeps_best nrm (ps @ [(key, rec)]) (m(nrm key \<mapsto> new))"
  unfolding keeps_best_def
proof (intro conjI allI impI ballI)
  fix k r
  assume k: "(m(nrm key \<mapsto> new)) k = Some r"
  show "k \<noteq> []" using k assms(1,2) by (auto simp: keeps_best_def split: if_splits)
  show "\<exists>x. (x, r) \<in> set (ps @ [(key, rec)]) \<and> nrm x = k"
  proof (cases "k = nrm key")
    case True
    then have r: "r = new" using k by simp
    from assms(3) show ?thesis
    proof (elim disjE exE conjE)
      assume "new = rec"
      then show ?thesis using r True by auto
    next
      fix old
      assume o: "m (nrm key) = Some old" "new = merge_file_state old rec"
      then obtain x where "(x, old) \<in> set ps" "nrm x = nrm key" using assms(1) unfolding keeps_best_def by blast
      moreover have "new \<in> {old, rec}" using o(2) by (simp add: merge_is_max)
      ultimately show ?thesis using r True by auto
    qed
  next
    case False
    then have "m k = Some r" using k by simp
    then show ?thesis using assms(1) by (auto simp: keeps_best_def)
  qed
next
  fix x r
  assume item: "(x, r) \<in> set (ps @ [(key, rec)])" and ne: "nrm x \<noteq> []"
  show "\<exists>r'. (m(nrm key \<mapsto> new)) (nrm x) = Some r' \<and> file_rank r \<le> file_rank r'"
  proof (cases "(x, r) \<in> set ps")
    case True
    then obtain r' where r': "m (nrm x) = Some r'" "file_rank r \<le> file_rank r'"
      using assms(1) ne unfolding keeps_best_def by blast
    show ?thesis
    proof (cases "nrm x = nrm key")
      case True
      then have "new = merge_file_state r' rec" using assms(3) r'(1) by auto
      then have "file_rank r' \<le> file_rank new" by (auto simp: merge_is_max)
      then show ?thesis using r'(2) True by (auto intro: order_trans)
    qed (use r' in simp)
  next
    case False
    then have "x = key" "r = rec" using item by auto
    moreover have "file_rank rec \<le> file_rank new" using assms(3) by (auto simp: merge_is_max)
    ultimately show ?thesis by simp
  qed
qed

lemma migrate_invariant:
  assumes "foldl (migrate_key nrm) ([], False) ps = (m, changed)"
  shows "distinct (map fst m) \<and> keeps_best nrm ps (map_of m) \<and> (\<not> changed \<longrightarrow> m = ps)"
  using assms
proof (induction ps arbitrary: m changed rule: rev_induct)
  case Nil
  then show ?case by (simp add: keeps_best_def)
next
  case (snoc e ps)
  obtain key rec where e: "e = (key, rec)" by (cases e)
  obtain m0 ch0 where f: "foldl (migrate_key nrm) ([], False) ps = (m0, ch0)" by force
  note IH = snoc.IH [OF f]
  have step: "migrate_key nrm (m0, ch0) (key, rec) = (m, changed)" using snoc.prems f by (simp add: e)
  show ?case
  proof (cases "nrm key = []")
    case True
    then show ?thesis using step IH keeps_best_dropped [of nrm ps "map_of m0" key rec]
      by (simp add: migrate_key_def e Let_def)
  next
    case ne: False
    show ?thesis
    proof (cases "map_of m0 (nrm key)")
      case None
      then have new: "nrm key \<notin> fst ` set m0" by (simp add: map_of_eq_None_iff)
      have m: "m = m0 @ [(nrm key, rec)]" "changed = (ch0 \<or> nrm key \<noteq> key)"
        using step ne None by (auto simp: migrate_key_def Let_def)
      have mo: "map_of m = (map_of m0)(nrm key \<mapsto> rec)"
        using None by (intro ext) (auto simp: m map_add_def split: option.splits)
      have "keeps_best nrm (ps @ [e]) (map_of m)"
        unfolding mo e using IH ne None by (intro keeps_best_put) simp_all
      then show ?thesis using IH new by (auto simp: m e)
    next
      case (Some old)
      let ?new = "merge_file_state old rec"
      have m: "m = AList.update (nrm key) ?new m0" "changed"
        using step ne Some by (auto simp: migrate_key_def Let_def)
      have mo: "map_of m = (map_of m0)(nrm key \<mapsto> ?new)" by (simp add: m update_conv')
      have "keeps_best nrm (ps @ [e]) (map_of m)"
        unfolding mo e using IH ne Some by (intro keeps_best_put) simp_all
      then show ?thesis using IH m(2) by (simp add: m(1) distinct_update)
    qed
  qed
qed

lemma normalize_files:
  "ds_files (fst (normalize_daemon_state_file_keys nrm s)) = fst (foldl (migrate_key nrm) ([], False) (ds_files s))"
proof -
  obtain m ch where f: "foldl (migrate_key nrm) ([], False) (ds_files s) = (m, ch)" by force
  show ?thesis using migrate_invariant [OF f] f by (auto simp: normalize_daemon_state_file_keys_def)
qed

lemma normalize_state_ok: "state_ok s \<Longrightarrow> state_ok (fst (normalize_daemon_state_file_keys nrm s))"
proof -
  assume s: "state_ok s"
  obtain m ch where f: "foldl (migrate_key nrm) ([], False) (ds_files s) = (m, ch)" by force
  show ?thesis using s migrate_invariant [OF f] f
    by (auto simp: normalize_daemon_state_file_keys_def state_ok_def)
qed

subsection \<open>Saving and loading\<close>

lemma finish_load_saved:
  assumes "state_ok s" "to_json s = JObj pl"
  shows "finish_load rp fl w graph_root menv pl =
    Inr (fst (normalize_daemon_state_file_keys (normalize_daemon_file_key w graph_root) (sync_daemon_state_from_env menv s)))"
  by (simp add: finish_load_def from_to_json [OF assms])

lemma load_primary:
  "ck_primary ck = Holds (JObj pl) \<Longrightarrow>
   load_daemon_state rp fl w graph_root menv io late ck = (ck, finish_load rp fl w graph_root menv pl)"
  by (simp add: load_daemon_state_def read_daemon_state_payload_def)

text \<open>What a load returns depends on the primary and the backup only.\<close>

lemma load_ignores_tmp:
  "snd (load_daemon_state rp fl w graph_root menv io late (ck\<lparr>ck_tmp := d\<rparr>)) =
   snd (load_daemon_state rp fl w graph_root menv io late ck)"
  by (simp add: load_daemon_state_def Let_def cong: if_cong split: option.split sum.split)

lemma save_steps_states:
  "d \<in> set (ck # save_steps io j ck) \<Longrightarrow> (\<exists>t. d = ck\<lparr>ck_tmp := t\<rparr>) \<or> ck_primary d = Holds j"
  by (cases io) (auto intro: exI [of _ "ck_tmp ck"])

lemma save_daemon_state_states:
  "d \<in> set (fst (save_daemon_state w graph_root io ck s)) \<Longrightarrow>
   d \<in> set (ck # save_steps io (to_json (fst (normalize_daemon_state_file_keys (normalize_daemon_file_key w graph_root) s))) ck)"
  by (auto simp: save_daemon_state_def Let_def split: sum.splits policy_error.splits)



text \<open>
  Moving the ledger to normalised keys keeps the best records: every key of the new
  ledger is not empty and holds one of the records whose old key normalises to it, and no
  record of the old ledger with a usable key outranks the one kept for it, where records are
  compared by status, then modification time, then processing time.
\<close>

theorem ledger_migration_keeps_best:
  fixes s w graph_root
  defines "nrm \<equiv> normalize_daemon_file_key w graph_root"
    and "m \<equiv> map_of (ds_files (fst (normalize_daemon_state_file_keys (normalize_daemon_file_key w graph_root) s)))"
  shows "(\<forall>k r. m k = Some r \<longrightarrow> k \<noteq> [] \<and> (\<exists>key. (key, r) \<in> set (ds_files s) \<and> nrm key = k)) \<and>
    (\<forall>key r. (key, r) \<in> set (ds_files s) \<longrightarrow> nrm key \<noteq> [] \<longrightarrow> (\<exists>r'. m (nrm key) = Some r' \<and> file_rank r \<le> file_rank r'))"
proof -
  obtain m0 ch where "foldl (migrate_key nrm) ([], False) (ds_files s) = (m0, ch)" by force
  then have "keeps_best nrm (ds_files s) m"
    using migrate_invariant normalize_files [of nrm s] by (force simp: m_def nrm_def)
  then show ?thesis by (simp add: keeps_best_def)
qed

subsection \<open>Back-off after lock failures\<close>

text \<open>Successive failures to lock one page, at the given times.\<close>

definition backoff_run :: "string \<Rightarrow> (rat \<times> string \<times> string \<times> rat) list \<Rightarrow> daemon_state \<Rightarrow> daemon_state" where
  "backoff_run key fails s =
     foldl (\<lambda>s (m, msg, now_iso, now). record_page_lock_backoff s key m msg (map_of (ds_files s) key) now_iso now) s fails"

lemma backoff_step:
  "record_page_lock_backoff s key m msg prior now_iso now = s' \<Longrightarrow>
   (case prior of None \<Rightarrow> True | Some rec \<Rightarrow> fs_status rec \<noteq> ''processed'') \<Longrightarrow>
   \<exists>rec. map_of (ds_files s') key = Some rec \<and> fs_status rec = ''lock_backoff'' \<and>
     fs_backoff_seconds rec = Some (next_lock_backoff_seconds prior) \<and>
     fs_backoff_until rec = Some (now + next_lock_backoff_seconds prior)"
  by (auto simp: record_page_lock_backoff_def Let_def update_conv' split: option.splits)

text \<open>
  Exponential back-off with a cap. After \<open>n\<close> + 1 lock failures in a row on a page that was not
  in back-off and not processed, the page is in back-off for \<open>min (30 * 2 ^ n) 300\<close> seconds
  from the last failure, so always between 30 and 300 seconds, and the back-off is active up
  to that time and not later.
\<close>

theorem backoff_doubles_up_to_cap:
  assumes "case map_of (ds_files s) key of None \<Rightarrow> True | Some rec \<Rightarrow> fs_status rec \<notin> {''processed'', ''lock_backoff''}"
    and "length fails = n" and "b = min (30 * 2 ^ n) 300"
  shows "\<exists>rec. map_of (ds_files (backoff_run key (fails @ [(m, msg, now_iso, now)]) s)) key = Some rec \<and>
    fs_backoff_seconds rec = Some b \<and> 30 \<le> b \<and> b \<le> 300 \<and>
    (\<forall>t. lock_backoff_active t rec \<longleftrightarrow> t < now + b)"
proof -
  have "\<exists>rec. map_of (ds_files (backoff_run key (fails @ [(m, msg, now_iso, now)]) s)) key = Some rec \<and>
      fs_status rec = ''lock_backoff'' \<and> fs_backoff_seconds rec = Some b \<and> fs_backoff_until rec = Some (now + b)"
    using assms(2,3)
  proof (induction fails arbitrary: n b m msg now_iso now rule: rev_induct)
    case Nil
    have "next_lock_backoff_seconds (map_of (ds_files s) key) = 30"
      using assms(1) by (auto simp: next_lock_backoff_seconds_def LOCK_BACKOFF_INITIAL_def split: option.splits)
    then show ?case using backoff_step [OF refl, of "map_of (ds_files s) key" s key m msg now_iso now] assms(1) Nil
      by (auto simp: backoff_run_def split: option.splits)
  next
    case (snoc f fails)
    obtain m' msg' iso' now' where f: "f = (m', msg', iso', now')" by (cases f)
    let ?s = "backoff_run key (fails @ [f]) s" and ?b = "min (30 * 2 ^ (n - 1)) 300 :: rat"
    have n: "n = Suc (n - 1)" "length fails = n - 1" using snoc.prems(1) by auto
    obtain rec where rec: "map_of (ds_files ?s) key = Some rec" "fs_status rec = ''lock_backoff''" "fs_backoff_seconds rec = Some ?b"
      using snoc.IH [OF n(2) refl, of m' msg' iso' now'] f by auto
    define p :: rat where "p = 30 * 2 ^ (n - 1)"
    have "30 * 2 ^ n = 2 * p" unfolding p_def by (subst n(1)) simp
    moreover have "0 < p" by (simp add: p_def)
    ultimately have "?b \<noteq> 0" "min (?b * 2) 300 = b"
      using snoc.prems(2) unfolding p_def [symmetric] by (auto simp: min_def)
    then have "next_lock_backoff_seconds (Some rec) = b" using rec
      by (simp add: next_lock_backoff_seconds_def LOCK_BACKOFF_MAX_def Let_def)
    moreover have "backoff_run key ((fails @ [f]) @ [(m, msg, now_iso, now)]) s =
        record_page_lock_backoff ?s key m msg (Some rec) now_iso now"
      by (simp add: backoff_run_def rec(1) [unfolded backoff_run_def, simplified])
    ultimately show ?case using backoff_step [OF refl, of "Some rec" ?s key m msg now_iso now] rec(2) by auto
  qed
  moreover have "30 \<le> b" "b \<le> 300" using assms(3) by (auto simp: min_def)
  ultimately show ?thesis by (auto simp: lock_backoff_active_def)
qed

subsection \<open>The list of recent pages\<close>

lemma length_update: "length (AList.update k v al) = (if k \<in> fst ` set al then length al else length al + 1)"
  by (induction al) auto

lemma length_delete_mem:
  "distinct (map fst al) \<Longrightarrow> k \<in> fst ` set al \<Longrightarrow> length (AList.delete k al) = length al - 1"
proof (induction al)
  case (Cons e al)
  show ?case
  proof (cases "fst e = k")
    case True
    then have "k \<notin> fst ` set al" using Cons.prems(1) by auto
    then show ?thesis using True by simp
  next
    case False
    then have "k \<in> fst ` set al" using Cons.prems(2) by auto
    moreover then have "al \<noteq> []" by auto
    ultimately show ?thesis using Cons False by (cases al) auto
  qed
qed simp

lemma arg_min_list_first:
  "xs \<noteq> [] \<Longrightarrow> \<forall>x \<in> set xs. f x \<le> f y \<Longrightarrow> arg_min_list f (xs @ [y]) \<in> set xs" for f :: "'a \<Rightarrow> 'b :: linorder"
proof (induction xs rule: induct_list012)
  case (3 a b xs)
  have "arg_min_list f ((b # xs) @ [y]) \<in> set (b # xs)" by (rule "3.IH"(2)) (use 3 in auto)
  then show ?case by (auto simp: Let_def)
qed (auto simp: Let_def)

text \<open>
  The list of recently catalogued pages never exceeds thirty entries with distinct keys,
  and when its time stamps are not in the future the page just recorded is in it with its
  harvest status.
\<close>

theorem bootstrap_recent_bounded:
  assumes "distinct (map fst (ds_bootstrap_recent s))" and "length (ds_bootstrap_recent s) \<le> 30"
    and "\<forall>(p, r) \<in> set (ds_bootstrap_recent s). re_processed_at r \<le> now"
  shows "let recent = ds_bootstrap_recent (upsert_bootstrap_recent s key harvest now)
    in length recent \<le> 30 \<and> distinct (map fst recent) \<and>
       map_of recent key = Some \<lparr>re_harvest = harvest, re_processed_at = now\<rparr>"
proof -
  let ?old = "ds_bootstrap_recent s" and ?e = "\<lparr>re_harvest = harvest, re_processed_at = now\<rparr>"
  let ?new = "AList.update key ?e ?old"
  have d: "distinct (map fst ?new)" using assms(1) by (simp add: distinct_update)
  show ?thesis
  proof (cases "length ?new \<le> 30")
    case True
    then show ?thesis using d by (simp add: upsert_bootstrap_recent_def BOOTSTRAP_RECENT_MAX_def update_conv' Let_def)
  next
    case False
    then have key: "key \<notin> fst ` set ?old" and len: "length ?old = 30" using assms(2) by (auto simp: length_update split: if_splits)
    have new: "?new = ?old @ [(key, ?e)]" using key by (rule update_new)
    let ?o = "arg_min_list (\<lambda>(p, r). re_processed_at r) ?new"
    have o: "?o \<in> set ?old" unfolding new using len assms(3) by (intro arg_min_list_first) auto
    define oldest where "oldest = fst ?o"
    have ne: "key \<noteq> oldest" using o key unfolding oldest_def by (metis image_eqI)
    have mem: "oldest \<in> fst ` set ?new" using o by (simp add: new oldest_def)
    have up: "upsert_bootstrap_recent s key harvest now = s\<lparr>ds_bootstrap_recent := AList.delete oldest ?new\<rparr>"
      using False by (simp add: upsert_bootstrap_recent_def BOOTSTRAP_RECENT_MAX_def Let_def oldest_def)
    have "map_of (AList.delete oldest ?new) key = Some ?e" using ne by (simp add: delete_conv' update_conv')
    moreover have "length (AList.delete oldest ?new) = 30" using length_delete_mem [OF d mem] len by (simp add: new)
    moreover have "distinct (map fst (AList.delete oldest ?new))" using d by (simp add: delete_keys distinct_removeAll)
    ultimately show ?thesis unfolding up by (simp add: Let_def)
  qed
qed

subsection \<open>Witnesses\<close>

definition example_file :: "string \<Rightarrow> rat \<Rightarrow> file_state" where
  "example_file st m = \<lparr>fs_mtime = m, fs_processed_at = ''t'', fs_status = st, fs_error = JNull,
     fs_backoff_until = None, fs_backoff_seconds = None\<rparr>"

definition example_state :: daemon_state where
  "example_state = fresh_state\<lparr>ds_files := [(''pages/a.md'', example_file ''skipped'' 1), (''./pages/a.md'', example_file ''processed'' 0)]\<rparr>"



theorem ledger_migration_keeps_best_witness:
  "map_of (ds_files (fst (normalize_daemon_state_file_keys (normalize_daemon_file_key (example_world [] ''off'') [''g'']) example_state)))
     ''pages/a.md'' = Some (example_file ''processed'' 0)"
proof -
  let ?m = "map_of (ds_files (fst (normalize_daemon_state_file_keys (normalize_daemon_file_key (example_world [] ''off'') [''g'']) example_state)))"
  have in2: "(''./pages/a.md'', example_file ''processed'' 0) \<in> set (ds_files example_state)" by code_simp
  have n: "normalize_daemon_file_key (example_world [] ''off'') [''g''] ''./pages/a.md'' = ''pages/a.md''" by code_simp
  note best = ledger_migration_keeps_best [where s = example_state and w = "example_world [] ''off''" and graph_root = "[''g'']"]
  obtain r' where r': "?m ''pages/a.md'' = Some r'" "file_rank (example_file ''processed'' 0) \<le> file_rank r'"
    using conjunct2 [OF best, rule_format, OF in2] unfolding n by auto
  obtain key where "(key, r') \<in> set (ds_files example_state)"
    using conjunct1 [OF best, rule_format, OF r'(1)] by blast
  then have "r' \<in> {example_file ''skipped'' 1, example_file ''processed'' 0}" by (auto simp: example_state_def)
  moreover have "\<not> file_rank (example_file ''processed'' 0) \<le> file_rank (example_file ''skipped'' 1)" by code_simp
  ultimately show ?thesis using r' by auto
qed

theorem backoff_doubles_up_to_cap_witness:
  "\<exists>rec. map_of (ds_files (backoff_run ''k'' [(1, ''m'', ''i'', 100), (1, ''m'', ''i'', 200)] fresh_state)) ''k'' = Some rec \<and>
    fs_backoff_seconds rec = Some 60 \<and> lock_backoff_active 259 rec \<and> \<not> lock_backoff_active 260 rec"
  using backoff_doubles_up_to_cap [of fresh_state "''k''" "[(1, ''m'', ''i'', 100)]" 1 60 1 "''m''" "''i''" 200]
  by (auto simp: fresh_state_def)

theorem bootstrap_recent_bounded_witness:
  "map_of (ds_bootstrap_recent (upsert_bootstrap_recent fresh_state ''k'' ''llm'' ''t'')) ''k'' =
     Some \<lparr>re_harvest = ''llm'', re_processed_at = ''t''\<rparr>"
  using bootstrap_recent_bounded [of fresh_state "''t''" "''k''" "''llm''"] by (simp add: fresh_state_def Let_def)

subsection \<open>Evidence\<close>

text \<open>
  A checkpoint whose counters have the wrong type (here \<open>null\<close>) makes the load raise, although
  a good backup exists: only unreadable files fall back to the backup.
\<close>

lemma load_raises_on_null_counter:
  "snd (load_daemon_state rp fl w groot menv io late
     \<lparr>ck_primary = Holds (JObj [(''version'', JNull)]), ck_backup = Holds (to_json fresh_state), ck_tmp = Missing\<rparr>) =
   Inl (LoadConv ConvTypeError)"
  by (simp add: load_daemon_state_def read_daemon_state_payload_def finish_load_def from_json_def jget_def items_of_def)

end
