(* ===== verification/PageQueue.thy ===== *)
theory PageQueue
  imports DaemonState
begin

section \<open>The page queue of the daemon\<close>

text \<open>
  Model of \<open>src/agent/daemon_page_queue.py\<close>: which pages still wait for the daemon, the progress
  counters, and the pruning of the ledger. The current time is an argument; the sorted walk
  of the graph is the \<open>listing\<close> of \<open>GraphPaths\<close>. A page whose path leaves the graph raises. The
  percentage shown to a person is left out.
\<close>

subsection \<open>Definitions\<close>

definition GENERATED_PAGE_TITLES :: "string list" where
  "GENERATED_PAGE_TITLES = [''Matryca Master Index'', ''Matryca Graph Insights'']"

definition SEMANTIC_INDEX_HEADING :: string where
  "SEMANTIC_INDEX_HEADING = ''### Matryca Semantic Index''"

definition semantic_index_section_present :: "string \<Rightarrow> bool" where
  "semantic_index_section_present content = contains content SEMANTIC_INDEX_HEADING"

text \<open>Equal, or close within a millionth of a second.\<close>

definition mtime_matches :: "rat \<Rightarrow> rat \<Rightarrow> bool" where
  "mtime_matches stored current \<longleftrightarrow> stored = current \<or> \<bar>stored - current\<bar> \<le> 1 / 1000000"

definition read_page_content :: "world \<Rightarrow> path \<Rightarrow> path \<Rightarrow> py_exn + string" where
  "read_page_content w graph_root p =
     (case read_graph_file_text w p graph_root of
        Inl OsError \<Rightarrow> Inr []
      | Inl e \<Rightarrow> Inl e
      | Inr t \<Rightarrow> Inr t)"

definition page_is_terminal_skip :: "string \<Rightarrow> bool" where
  "page_is_terminal_skip content \<longleftrightarrow>
     strip content = [] \<or>
     find_malformed_block_refs content (compute_page_protected_line_indices content) \<noteq> []"

text \<open>The answer of the checks on a page's ledger entry, given whether it is a journal page.\<close>

definition entry_needs_work :: "bool \<Rightarrow> rat \<Rightarrow> file_state option \<Rightarrow> rat \<Rightarrow> string \<Rightarrow> bool" where
  "entry_needs_work journal now entry m text =
     (case entry of
        None \<Rightarrow> True
      | Some rec \<Rightarrow>
          if \<not> mtime_matches (fs_mtime rec) m then True
          else if journal then False
          else if fs_status rec = ''processed'' then False
          else if fs_status rec = ''error'' then False
          else if lock_backoff_active now rec then False
          else if fs_status rec = ''skipped'' then semantic_index_section_present text
          else True)"

definition page_needs_phase2_cognitive ::
  "world \<Rightarrow> path \<Rightarrow> rat \<Rightarrow> daemon_state \<Rightarrow> string option \<Rightarrow> path \<Rightarrow> py_exn + bool" where
  "page_needs_phase2_cognitive w graph_root now s content p =
     and_then (page_title_from_path w graph_root p) (\<lambda>title.
     if title \<in> set GENERATED_PAGE_TITLES then Inr False
     else and_then (case content of Some c \<Rightarrow> Inr c | None \<Rightarrow> read_page_content w graph_root p) (\<lambda>text.
     if page_is_terminal_skip text then Inr False
     else and_then (lookup_file_state w graph_root s p) (\<lambda>(key, entry).
     case read_file_mtime w p of
       None \<Rightarrow> Inl OsError
     | Some m \<Rightarrow> Inr (entry_needs_work (is_journal_page_path w graph_root p) now entry m text))))"

text \<open>The counters: total, done, pending and skipped pages outside the journals.\<close>

fun phase2_progress ::
  "world \<Rightarrow> path \<Rightarrow> rat \<Rightarrow> daemon_state \<Rightarrow> path list \<Rightarrow> nat \<times> nat \<times> nat \<times> nat \<Rightarrow> py_exn + (nat \<times> nat \<times> nat \<times> nat)" where
  "phase2_progress w graph_root now s [] acc = Inr acc"
| "phase2_progress w graph_root now s (p # ps) (t, d, n, k) =
     and_then (page_title_from_path w graph_root p) (\<lambda>title.
     if title \<in> set GENERATED_PAGE_TITLES \<or> is_journal_page_path w graph_root p
     then phase2_progress w graph_root now s ps (t, d, n, k)
     else and_then (lookup_file_state w graph_root s p) (\<lambda>(key, entry).
     let m = (case read_file_mtime w p of None \<Rightarrow> 0 | Some m \<Rightarrow> m)
     in if (case entry of None \<Rightarrow> False
            | Some rec \<Rightarrow> mtime_matches (fs_mtime rec) m \<and> fs_status rec = ''processed'')
        then phase2_progress w graph_root now s ps (t + 1, d + 1, n, k)
        else and_then (page_needs_phase2_cognitive w graph_root now s None p) (\<lambda>needs.
             if needs then phase2_progress w graph_root now s ps (t + 1, d, n + 1, k)
             else phase2_progress w graph_root now s ps (t + 1, d, n, k + 1))))"

definition compute_phase2_progress_metrics ::
  "world \<Rightarrow> path list \<Rightarrow> path \<Rightarrow> rat \<Rightarrow> daemon_state \<Rightarrow> py_exn + (nat \<times> nat \<times> nat \<times> nat)" where
  "compute_phase2_progress_metrics w listing graph_root now s =
     phase2_progress w graph_root now s (iter_alias_source_paths w listing graph_root) (0, 0, 0, 0)"

text \<open>The scan counters: processed and pending pages.\<close>

fun scan_counts :: "world \<Rightarrow> path \<Rightarrow> daemon_state \<Rightarrow> path list \<Rightarrow> nat \<times> nat \<Rightarrow> py_exn + (nat \<times> nat)" where
  "scan_counts w graph_root s [] acc = Inr acc"
| "scan_counts w graph_root s (p # ps) (d, n) =
     and_then (lookup_file_state w graph_root s p) (\<lambda>(key, entry).
     let m = (case read_file_mtime w p of None \<Rightarrow> 0 | Some m \<Rightarrow> m)
     in case entry of
          None \<Rightarrow> scan_counts w graph_root s ps (d, n + 1)
        | Some rec \<Rightarrow>
            if mtime_matches (fs_mtime rec) m
            then (if fs_status rec = ''processed'' then scan_counts w graph_root s ps (d + 1, n)
                  else if fs_status rec \<in> {''skipped'', ''error''} then scan_counts w graph_root s ps (d, n)
                  else scan_counts w graph_root s ps (d, n + 1))
            else scan_counts w graph_root s ps (d, n + 1))"

record scan_metrics =
  sm_total :: nat
  sm_processed :: nat
  sm_pending :: nat

definition compute_scan_metrics :: "world \<Rightarrow> path list \<Rightarrow> path \<Rightarrow> daemon_state \<Rightarrow> py_exn + scan_metrics" where
  "compute_scan_metrics w listing graph_root s =
     (let srcs = iter_alias_source_paths w listing graph_root
      in and_then (scan_counts w graph_root s srcs (0, 0)) (\<lambda>(d, n).
         Inr \<lparr>sm_total = length srcs, sm_processed = d, sm_pending = n\<rparr>))"

definition clear_phase1_error_backoff :: "daemon_state \<Rightarrow> daemon_state \<times> nat" where
  "clear_phase1_error_backoff s =
     (let kept = filter (\<lambda>(key, rec). fs_status rec \<noteq> ''error'') (ds_files s)
      in (s\<lparr>ds_files := kept\<rparr>, length (ds_files s) - length kept))"

text \<open>Phase 1: an unchanged settled, failed or backed-off page is passed over.\<close>

definition phase1_skips :: "rat \<Rightarrow> file_state option \<Rightarrow> rat \<Rightarrow> bool" where
  "phase1_skips now entry m =
     (case entry of
        None \<Rightarrow> False
      | Some rec \<Rightarrow> mtime_matches (fs_mtime rec) m \<and>
          (fs_status rec \<in> {''processed'', ''skipped''} \<or> fs_status rec = ''error'' \<or> lock_backoff_active now rec))"

definition page_is_pending :: "world \<Rightarrow> path \<Rightarrow> rat \<Rightarrow> bool \<Rightarrow> daemon_state \<Rightarrow> path \<Rightarrow> py_exn + bool" where
  "page_is_pending w graph_root now phase2 s p =
     and_then (page_title_from_path w graph_root p) (\<lambda>title.
     if title \<in> set GENERATED_PAGE_TITLES then Inr False
     else if phase2 then page_needs_phase2_cognitive w graph_root now s None p
     else and_then (lookup_file_state w graph_root s p) (\<lambda>(key, entry).
     case read_file_mtime w p of
       None \<Rightarrow> Inl OsError
     | Some m \<Rightarrow> Inr (\<not> phase1_skips now entry m)))"

fun pending_loop :: "world \<Rightarrow> path \<Rightarrow> rat \<Rightarrow> bool \<Rightarrow> daemon_state \<Rightarrow> path list \<Rightarrow> py_exn + path list" where
  "pending_loop w graph_root now phase2 s [] = Inr []"
| "pending_loop w graph_root now phase2 s (p # ps) =
     and_then (page_is_pending w graph_root now phase2 s p) (\<lambda>wait.
     and_then (pending_loop w graph_root now phase2 s ps) (\<lambda>rest.
     Inr (if wait then p # rest else rest)))"

definition list_pending_files ::
  "world \<Rightarrow> path list \<Rightarrow> path \<Rightarrow> rat \<Rightarrow> daemon_state \<Rightarrow> bool option \<Rightarrow> py_exn + path list" where
  "list_pending_files w listing graph_root now s bootstrap_complete =
     (let phase2 = (case bootstrap_complete of None \<Rightarrow> ds_bootstrap_complete s | Some b \<Rightarrow> b)
      in pending_loop w graph_root now phase2 s (iter_alias_source_paths w listing graph_root))"

fun live_keys :: "world \<Rightarrow> path \<Rightarrow> path list \<Rightarrow> py_exn + string list" where
  "live_keys w graph_root [] = Inr []"
| "live_keys w graph_root (p # ps) =
     and_then (graph_relative_path_key w p graph_root) (\<lambda>k.
     and_then (live_keys w graph_root ps) (\<lambda>ks. Inr (k # ks)))"

definition prune_stale_daemon_file_entries ::
  "world \<Rightarrow> path list \<Rightarrow> path \<Rightarrow> daemon_state \<Rightarrow> py_exn + (daemon_state \<times> nat)" where
  "prune_stale_daemon_file_entries w listing graph_root s =
     and_then (live_keys w graph_root (iter_alias_source_paths w listing graph_root)) (\<lambda>live.
     let kept = filter (\<lambda>(key, rec). key \<in> set live) (ds_files s)
     in Inr (s\<lparr>ds_files := kept\<rparr>, length (ds_files s) - length kept))"

subsection \<open>Results that are not errors\<close>

lemma and_then_Inr: "and_then r f = Inr y \<longleftrightarrow> (\<exists>x. r = Inr x \<and> f x = Inr y)"
  by (cases r) simp_all

lemma mtime_matches_refl [simp]: "mtime_matches m m"
  by (simp add: mtime_matches_def)

lemma missing_file_is_skipped:
  "read_file_mtime w p = None \<Longrightarrow> read_page_content w graph_root p = Inr c \<Longrightarrow> c = []"
  by (auto simp: read_page_content_def read_graph_file_text_def assert_path_within_graph_def
        read_file_mtime_def stat_file_def split: if_splits option.splits)

lemma processed_needs_no_work:
  assumes "lookup_file_state w graph_root s p = Inr (key, Some rec)"
    and "mtime_matches (fs_mtime rec) (case read_file_mtime w p of None \<Rightarrow> 0 | Some m \<Rightarrow> m)" "fs_status rec = ''processed''"
    and "page_needs_phase2_cognitive w graph_root now s None p = Inr b"
  shows "\<not> b"
proof (cases "read_file_mtime w p")
  case None
  show ?thesis
  proof
    assume b
    then obtain c where "read_page_content w graph_root p = Inr c" "\<not> page_is_terminal_skip c"
      using assms(4) by (auto simp: page_needs_phase2_cognitive_def and_then_Inr split: if_splits)
    moreover then have "c = []" using missing_file_is_skipped [OF None] by blast
    ultimately show False by (simp add: page_is_terminal_skip_def strip_def lstrip_by_def rstrip_by_def)
  qed
next
  case (Some m)
  then show ?thesis using assms
    by (auto simp: page_needs_phase2_cognitive_def and_then_Inr entry_needs_work_def split: if_splits)
qed

lemma progress_counts:
  assumes "phase2_progress w g now s ps (t, d, n, k) = Inr (t', d', n', k')"
    and "pending_loop w g now True s ps = Inr qs"
  shows "t' + d + n + k = t + d' + n' + k' \<and> n' = n + length (filter (\<lambda>q. \<not> is_journal_page_path w g q) qs)"
  using assms
proof (induction ps arbitrary: t d n k qs)
  case (Cons p ps)
  obtain title where title: "page_title_from_path w g p = Inr title"
    using Cons.prems(1) by (auto simp: and_then_Inr)
  obtain wait rest where pend: "page_is_pending w g now True s p = Inr wait" "pending_loop w g now True s ps = Inr rest"
    "qs = (if wait then p # rest else rest)"
    using Cons.prems(2) by (auto simp: and_then_Inr)
  show ?case
  proof (cases "title \<in> set GENERATED_PAGE_TITLES \<or> is_journal_page_path w g p")
    case True
    then have "phase2_progress w g now s ps (t, d, n, k) = Inr (t', d', n', k')" using Cons.prems(1) title by simp
    moreover have "wait \<Longrightarrow> is_journal_page_path w g p" using True pend(1) title by (auto simp: page_is_pending_def)
    ultimately show ?thesis using Cons.IH pend by auto
  next
    case False
    then have needs: "page_needs_phase2_cognitive w g now s None p = Inr wait" using pend(1) title by (simp add: page_is_pending_def)
    obtain key entry where l: "lookup_file_state w g s p = Inr (key, entry)"
      using Cons.prems(1) False title by (auto simp: and_then_Inr)
    let ?m = "case read_file_mtime w p of None \<Rightarrow> 0 | Some m \<Rightarrow> m"
    show ?thesis
    proof (cases "case entry of None \<Rightarrow> False | Some rec \<Rightarrow> mtime_matches (fs_mtime rec) ?m \<and> fs_status rec = ''processed''")
      case True
      then obtain rec where rec: "entry = Some rec" "mtime_matches (fs_mtime rec) ?m" "fs_status rec = ''processed''"
        by (auto split: option.splits)
      have "\<not> wait" using processed_needs_no_work [OF l [unfolded rec(1)] rec(2,3) needs] .
      moreover have "phase2_progress w g now s ps (t + 1, d + 1, n, k) = Inr (t', d', n', k')"
        using Cons.prems(1) False title l True by (simp add: Let_def)
      ultimately show ?thesis using Cons.IH [OF _ pend(2)] pend(3) by fastforce
    next
      case notdone: False
      show ?thesis
      proof (cases wait)
        case True
        then have "phase2_progress w g now s ps (t + 1, d, n + 1, k) = Inr (t', d', n', k')"
          using Cons.prems(1) False title l notdone needs by (simp add: Let_def)
        then show ?thesis using Cons.IH [OF _ pend(2)] pend(3) True False by fastforce
      next
        case nowait: False
        then have "phase2_progress w g now s ps (t + 1, d, n, k + 1) = Inr (t', d', n', k')"
          using Cons.prems(1) False title l notdone needs by (simp add: Let_def)
        then show ?thesis using Cons.IH [OF _ pend(2)] pend(3) nowait by fastforce
      qed
    qed
  qed
qed auto

subsection \<open>Properties\<close>

text \<open>
  The progress counters agree with the queue: every page outside the journals that is no
  generated page is counted exactly once as done, pending or skipped, and the number of
  pending pages is the number of queued pages outside the journals.
\<close>

theorem progress_agrees_with_queue:
  assumes "compute_phase2_progress_metrics w listing graph_root now s = Inr (total_n, done_n, pending_n, skipped_n)"
    and "list_pending_files w listing graph_root now s (Some True) = Inr queue"
  shows "total_n = done_n + pending_n + skipped_n \<and>
    pending_n = length (filter (\<lambda>p. \<not> is_journal_page_path w graph_root p) queue)"
  using progress_counts [of w graph_root now s "iter_alias_source_paths w listing graph_root" 0 0 0 0 total_n done_n pending_n skipped_n queue] assms
  by (simp add: compute_phase2_progress_metrics_def list_pending_files_def)

lemma processed_not_pending:
  assumes "lookup_file_state w g s p = Inr (key, Some rec)" "read_file_mtime w p = Some (fs_mtime rec)" "fs_status rec = ''processed''"
    and "page_is_pending w g now phase2 s0 p = Inr b0"
    and "\<exists>k e. lookup_file_state w g s0 p = Inr (k, e)"
  shows "page_is_pending w g now phase2 s p = Inr False"
  using assms
  by (auto simp: page_is_pending_def page_needs_phase2_cognitive_def and_then_Inr phase1_skips_def entry_needs_work_def
      split: if_splits option.splits)

lemma pending_same_lookup:
  "lookup_file_state w g s q = lookup_file_state w g s' q \<Longrightarrow>
   page_is_pending w g now phase2 s q = page_is_pending w g now phase2 s' q"
  by (simp add: page_is_pending_def page_needs_phase2_cognitive_def cong: if_cong)

lemma pending_loop_settle:
  assumes "pending_loop w g now phase2 s ps = Inr qs"
    and "\<forall>q \<in> set ps. q \<noteq> p \<longrightarrow> page_is_pending w g now phase2 s' q = page_is_pending w g now phase2 s q"
    and "\<forall>b. page_is_pending w g now phase2 s p = Inr b \<longrightarrow> page_is_pending w g now phase2 s' p = Inr False"
  shows "pending_loop w g now phase2 s' ps = Inr (filter (\<lambda>q. q \<noteq> p) qs)"
  using assms(1,2)
proof (induction ps arbitrary: qs)
  case (Cons q ps)
  obtain wait rest where pend: "page_is_pending w g now phase2 s q = Inr wait" "pending_loop w g now phase2 s ps = Inr rest"
    "qs = (if wait then q # rest else rest)"
    using Cons.prems(1) by (auto simp: and_then_Inr)
  have IH: "pending_loop w g now phase2 s' ps = Inr (filter (\<lambda>q. q \<noteq> p) rest)"
    using Cons.IH [OF pend(2)] Cons.prems(2) by simp
  show ?case
  proof (cases "q = p")
    case True
    then show ?thesis using assms(3) pend IH by simp
  next
    case False
    then have "page_is_pending w g now phase2 s' q = Inr wait" using Cons.prems(2) pend(1) by simp
    then show ?thesis using IH pend(3) False by simp
  qed
qed simp

text \<open>
  C17. The queue drains: once the ledger records a page as processed at its present
  modification time, listing the queue again (in either phase) gives the same queue without that page,
  as long as no other page of the graph shares its ledger key.
\<close>

theorem processed_page_leaves_queue:
  assumes "list_pending_files w listing graph_root now s phase = Inr queue"
    and "graph_relative_path_key w p graph_root = Inr key" and "read_file_mtime w p = Some (fs_mtime rec)"
    and "fs_status rec = ''processed''"
    and "\<forall>q \<in> set (iter_alias_source_paths w listing graph_root). q \<noteq> p \<longrightarrow>
      graph_relative_path_key w q graph_root \<noteq> Inr key \<and> CHR ''/'' # join ''/'' (resolved w q) \<noteq> key"
  shows "list_pending_files w listing graph_root now (s\<lparr>ds_files := AList.update key rec (ds_files s)\<rparr>) phase =
      Inr (filter (\<lambda>q. q \<noteq> p) queue)"
proof -
  let ?s = "s\<lparr>ds_files := AList.update key rec (ds_files s)\<rparr>"
  let ?ph = "case phase of None \<Rightarrow> ds_bootstrap_complete s | Some b \<Rightarrow> b"
  have l: "lookup_file_state w graph_root ?s p = Inr (key, Some rec)"
    using assms(2) by (simp add: lookup_file_state_def update_conv')
  have "\<exists>k e. lookup_file_state w graph_root s p = Inr (k, e)"
    using assms(2) by (simp add: lookup_file_state_def split: option.splits)
  then have settled: "\<forall>b. page_is_pending w graph_root now ?ph s p = Inr b \<longrightarrow> page_is_pending w graph_root now ?ph ?s p = Inr False"
    using processed_not_pending [OF l assms(3,4)] by blast
  have others: "page_is_pending w graph_root now ?ph ?s q = page_is_pending w graph_root now ?ph s q"
    if "q \<in> set (iter_alias_source_paths w listing graph_root)" "q \<noteq> p" for q
  proof (rule pending_same_lookup)
    have "graph_relative_path_key w q graph_root \<noteq> Inr key" "CHR ''/'' # join ''/'' (resolved w q) \<noteq> key"
      using assms(5) that by blast+
    then show "lookup_file_state w graph_root ?s q = lookup_file_state w graph_root s q"
      by (auto simp: lookup_file_state_def update_conv' split: sum.split option.split)
  qed
  show ?thesis
    using pending_loop_settle [OF _ _ settled] assms(1) others by (simp add: list_pending_files_def cong: option.case_cong)
qed

subsection \<open>Witnesses\<close>

definition queue_world :: world where
  "queue_world = (example_world ''- a'' ''off'')"

definition queue_listing :: "path list" where
  "queue_listing = [[''g'', ''pages'', ''A.md'']]"

theorem progress_agrees_with_queue_witness:
  "compute_phase2_progress_metrics queue_world queue_listing [''g''] 0 fresh_state = Inr (1, 0, 1, 0) \<and>
   length (filter (\<lambda>p. \<not> is_journal_page_path queue_world [''g''] p) [[''g'', ''pages'', ''A.md'']]) = 1"
proof -
  have m: "compute_phase2_progress_metrics queue_world queue_listing [''g''] 0 fresh_state = Inr (1, 0, 1, 0)" by code_simp
  have l: "list_pending_files queue_world queue_listing [''g''] 0 fresh_state (Some True) = Inr [[''g'', ''pages'', ''A.md'']]" by code_simp
  from progress_agrees_with_queue [OF m l] m show ?thesis by simp
qed

theorem processed_page_leaves_queue_witness:
  "list_pending_files queue_world queue_listing [''g''] 0
     (fresh_state\<lparr>ds_files := AList.update ''pages/A.md'' (example_file ''processed'' 1700000000) []\<rparr>) None = Inr []"
proof -
  have l: "list_pending_files queue_world queue_listing [''g''] 0 fresh_state None = Inr [[''g'', ''pages'', ''A.md'']]"
    and k: "graph_relative_path_key queue_world [''g'', ''pages'', ''A.md''] [''g''] = Inr ''pages/A.md''"
    and m: "read_file_mtime queue_world [''g'', ''pages'', ''A.md''] = Some (fs_mtime (example_file ''processed'' 1700000000))"
    and s: "fs_status (example_file ''processed'' 1700000000) = ''processed''"
    and i: "iter_alias_source_paths queue_world queue_listing [''g''] = [[''g'', ''pages'', ''A.md'']]" by code_simp+
  show ?thesis using processed_page_leaves_queue [OF l k m s] i by (simp add: fresh_state_def)
qed

end
