(* ===== verification/AliasIndex.thy ===== *)
theory AliasIndex
  imports GraphPaths "HOL-Library.AList"
begin

section \<open>The alias index\<close>

text \<open>
  Model of the index of \<open>src/graph/alias_index.py\<close>: the scan for \<open>alias::\<close> lines, building the
  index from all pages, resolving a name, and the incremental operations (removing a page,
  indexing one page again, purging stale entries) with the alias part of
  \<open>patch_generational_caches_for_paths\<close> in \<open>src/graph/generational_cache.py\<close>. A dictionary is an
  association list in insertion order. Left out: matching of mentions in free text and the
  formatting of the index for a prompt.
\<close>

subsection \<open>Keys and alias lines\<close>

definition strip_brackets :: "string \<Rightarrow> string" where
  "strip_brackets s = (let b = (\<lambda>c. c = CHR ''['' \<or> c = CHR '']'') in rstrip_by b (lstrip_by b s))"

text \<open>\<open>re.sub(r"\s+", " ", t)\<close>.\<close>

fun collapse_space :: "bool \<Rightarrow> string \<Rightarrow> string" where
  "collapse_space pending [] = []"
| "collapse_space pending (c # cs) =
     (if py_space c then (if pending then collapse_space True cs else CHR '' '' # collapse_space True cs)
      else c # collapse_space False cs)"

definition normalize_concept_key :: "string \<Rightarrow> string" where
  "normalize_concept_key v = casefold (collapse_space False (strip (strip_brackets (strip v))))"

text \<open>
  The matches of \<open>(?im)^\s*alias::\s*(.+?)\s*$\<close> in the text, given its lines split at line
  feeds. White space also crosses lines, so after an \<open>alias::\<close> with nothing behind it the payload is
  the next line that is not blank.
\<close>

definition alias_rest :: "string \<Rightarrow> string option" where
  "alias_rest line = (let t = lstrip line in if lower (take 7 t) = ''alias::'' then Some (drop 7 t) else None)"

definition blank :: "string \<Rightarrow> bool" where
  "blank l = list_all py_space l"

function alias_payloads :: "string list \<Rightarrow> string list" where
  "alias_payloads [] = []"
| "alias_payloads (l # ls) =
     (case alias_rest l of
        None \<Rightarrow> alias_payloads ls
      | Some r \<Rightarrow>
          if \<not> blank r then strip r # alias_payloads ls
          else (case dropWhile blank ls of [] \<Rightarrow> [] | n # rest \<Rightarrow> strip n # alias_payloads rest))"
  by pat_completeness auto
termination
proof (relation "measure length", goal_cases)
  case (4 l ls r n rest)
  then show ?case using length_dropWhile_le [of blank ls] by simp
qed simp_all

definition alias_segments :: "string \<Rightarrow> string list" where
  "alias_segments text = concat (map split_logseq_property_list_values (alias_payloads (split_sub [LF] text)))"

subsection \<open>The index\<close>

datatype alias_note =
    UnreadableNote path
  | CollisionNote string string string string

record alias_index =
  ai_alias_to_page :: "(string \<times> string) list"
  ai_page_to_aliases :: "(string \<times> string list) list"
  ai_page_to_relpath :: "(string \<times> string) list"
  ai_notes :: "alias_note list"

definition empty_index :: alias_index where
  "empty_index = \<lparr>ai_alias_to_page = [], ai_page_to_aliases = [], ai_page_to_relpath = [], ai_notes = []\<rparr>"

definition add_alias :: "string \<Rightarrow> alias_index \<Rightarrow> string \<Rightarrow> alias_index" where
  "add_alias title idx seg =
     (let nk = normalize_concept_key seg
      in if nk = [] then idx
         else case map_of (ai_alias_to_page idx) nk of
                None \<Rightarrow> idx\<lparr>ai_alias_to_page := ai_alias_to_page idx @ [(nk, title)]\<rparr>
              | Some existing \<Rightarrow>
                  if existing \<noteq> [] \<and> existing \<noteq> title
                  then idx\<lparr>ai_notes := ai_notes idx @ [CollisionNote seg nk existing title]\<rparr>
                  else idx)"

definition add_aliases :: "string \<Rightarrow> string list \<Rightarrow> alias_index \<Rightarrow> alias_index" where
  "add_aliases title segs idx =
     (let idx' = foldl (add_alias title) idx segs
      in if segs = [] then idx'
         else idx'\<lparr>ai_page_to_aliases := AList.update title segs (ai_page_to_aliases idx')\<rparr>)"

text \<open>The relative path, the title and the text of a page that can be read.\<close>

definition alias_page :: "world \<Rightarrow> path \<Rightarrow> path \<Rightarrow> (string \<times> string \<times> string) option" where
  "alias_page w graph_root p =
     (case read_graph_file_text w p (resolved w graph_root) of
        Inl _ \<Rightarrow> None
      | Inr text \<Rightarrow>
          (case page_title_from_path w (resolved w graph_root) p of
             Inl _ \<Rightarrow> None
           | Inr title \<Rightarrow> Some (as_posix (drop (length (resolved w graph_root)) p), title, text)))"

definition build_page :: "world \<Rightarrow> path \<Rightarrow> alias_index \<Rightarrow> path \<Rightarrow> alias_index" where
  "build_page w graph_root idx p =
     (case alias_page w graph_root p of
        None \<Rightarrow> idx\<lparr>ai_notes := ai_notes idx @ [UnreadableNote p]\<rparr>
      | Some (rel, title, text) \<Rightarrow>
          add_aliases title (alias_segments text)
            (if map_of (ai_page_to_relpath idx) title = None
             then idx\<lparr>ai_page_to_relpath := ai_page_to_relpath idx @ [(title, rel)]\<rparr> else idx))"

definition build_alias_index :: "world \<Rightarrow> path list \<Rightarrow> path \<Rightarrow> alias_index" where
  "build_alias_index w listing graph_root =
     foldl (build_page w graph_root) empty_index (iter_alias_source_paths w listing graph_root)"

definition index_aliases_from_file :: "world \<Rightarrow> path \<Rightarrow> alias_index \<Rightarrow> path \<Rightarrow> alias_index" where
  "index_aliases_from_file w graph_root idx p =
     (case alias_page w graph_root p of
        None \<Rightarrow> idx\<lparr>ai_notes := ai_notes idx @ [UnreadableNote p]\<rparr>
      | Some (rel, title, text) \<Rightarrow>
          add_aliases title (alias_segments text)
            (idx\<lparr>ai_page_to_relpath := AList.update title rel (ai_page_to_relpath idx)\<rparr>))"

definition remove_page_from_alias_index :: "alias_index \<Rightarrow> string \<Rightarrow> alias_index" where
  "remove_page_from_alias_index idx page_title =
     idx\<lparr>ai_alias_to_page := filter (\<lambda>(key, title). title \<noteq> page_title) (ai_alias_to_page idx),
         ai_page_to_aliases := AList.delete page_title (ai_page_to_aliases idx),
         ai_page_to_relpath := AList.delete page_title (ai_page_to_relpath idx)\<rparr>"

definition purge_stale_alias_entries :: "alias_index \<Rightarrow> string set \<Rightarrow> alias_index \<times> nat" where
  "purge_stale_alias_entries idx live_titles =
     (let stale = filter (\<lambda>t. t \<notin> live_titles) (map fst (ai_page_to_relpath idx));
          idx1 = foldl remove_page_from_alias_index idx stale;
          kept = filter (\<lambda>(key, title). title \<in> live_titles) (ai_alias_to_page idx1)
      in (idx1\<lparr>ai_alias_to_page := kept\<rparr>,
          length stale + (length (ai_alias_to_page idx1) - length kept)))"

text \<open>One changed path of a patch: not a file any more, or indexed again.\<close>

definition patch_alias_path :: "world \<Rightarrow> path \<Rightarrow> alias_index \<Rightarrow> path \<Rightarrow> alias_index" where
  "patch_alias_path w graph_root idx changed_path =
     (let p = resolved w changed_path
      in case relative_to p (resolved w graph_root) of
           None \<Rightarrow> idx
         | Some rel \<Rightarrow>
             (let title = page_title_from_graph_relpath (as_posix rel);
                  idx' = remove_page_from_alias_index idx title
              in if files w (resolved w p) = None then idx' else index_aliases_from_file w graph_root idx' p))"

definition patch_alias_index :: "world \<Rightarrow> path \<Rightarrow> alias_index \<Rightarrow> string list \<Rightarrow> path list \<Rightarrow> alias_index" where
  "patch_alias_index w graph_root idx removed_rels changed =
     foldl (patch_alias_path w graph_root)
       (foldl (\<lambda>idx rel. remove_page_from_alias_index idx (page_title_from_graph_relpath rel)) idx removed_rels)
       changed"

subsection \<open>Resolving a name\<close>

datatype match_kind = NoMatch | TitleMatch | AliasMatch

record resolved_entity =
  en_normalized :: string
  en_title :: "string option"
  en_relpath :: "string option"
  en_via :: match_kind
  en_aliases :: "string list"
  en_safe_to_create :: bool

definition resolve_entity :: "alias_index \<Rightarrow> string \<Rightarrow> resolved_entity" where
  "resolve_entity idx candidate =
     (let nk = normalize_concept_key candidate;
          aliases_of = (\<lambda>t. case map_of (ai_page_to_aliases idx) t of None \<Rightarrow> [] | Some a \<Rightarrow> a)
      in if nk = [] then
           \<lparr>en_normalized = nk, en_title = None, en_relpath = None, en_via = NoMatch, en_aliases = [], en_safe_to_create = False\<rparr>
         else case List.find (\<lambda>(title, rel). normalize_concept_key title = nk) (ai_page_to_relpath idx) of
           Some (title, rel) \<Rightarrow>
             \<lparr>en_normalized = nk, en_title = Some title, en_relpath = Some rel, en_via = TitleMatch,
              en_aliases = aliases_of title, en_safe_to_create = False\<rparr>
         | None \<Rightarrow>
             (case map_of (ai_alias_to_page idx) nk of
                Some p \<Rightarrow>
                  if p \<noteq> [] then
                    \<lparr>en_normalized = nk, en_title = Some p, en_relpath = map_of (ai_page_to_relpath idx) p, en_via = AliasMatch,
                     en_aliases = aliases_of p, en_safe_to_create = False\<rparr>
                  else \<lparr>en_normalized = nk, en_title = None, en_relpath = None, en_via = NoMatch, en_aliases = [], en_safe_to_create = True\<rparr>
              | None \<Rightarrow>
                  \<lparr>en_normalized = nk, en_title = None, en_relpath = None, en_via = NoMatch, en_aliases = [], en_safe_to_create = True\<rparr>))"

definition resolve_canonical_page_title :: "alias_index \<Rightarrow> string \<Rightarrow> string" where
  "resolve_canonical_page_title idx candidate =
     (case en_title (resolve_entity idx candidate) of
        Some t \<Rightarrow> if t \<noteq> [] then t else strip candidate
      | None \<Rightarrow> strip candidate)"

definition is_journal_page_title_in_index :: "alias_index \<Rightarrow> string \<Rightarrow> bool" where
  "is_journal_page_title_in_index idx title =
     (case map_of (ai_page_to_relpath idx) title of
        None \<Rightarrow> False
      | Some rel \<Rightarrow> rel \<noteq> [] \<and> startswith (slash rel) ''journals/'')"

subsection \<open>What the operations do to the maps\<close>

abbreviation claims :: "string list \<Rightarrow> string \<Rightarrow> bool" where
  "claims segs k \<equiv> k \<noteq> [] \<and> k \<in> normalize_concept_key ` set segs"

lemma add_alias_facts:
  "map_of (ai_alias_to_page (add_alias t idx seg)) k =
     (case map_of (ai_alias_to_page idx) k of Some x \<Rightarrow> Some x | None \<Rightarrow> if claims [seg] k then Some t else None)"
  "ai_page_to_aliases (add_alias t idx seg) = ai_page_to_aliases idx"
  "ai_page_to_relpath (add_alias t idx seg) = ai_page_to_relpath idx"
  by (auto simp: add_alias_def Let_def map_add_def split: option.splits)

lemma fold_add_facts:
  "map_of (ai_alias_to_page (foldl (add_alias t) idx segs)) k =
     (case map_of (ai_alias_to_page idx) k of Some x \<Rightarrow> Some x | None \<Rightarrow> if claims segs k then Some t else None)"
  "ai_page_to_aliases (foldl (add_alias t) idx segs) = ai_page_to_aliases idx"
  "ai_page_to_relpath (foldl (add_alias t) idx segs) = ai_page_to_relpath idx"
proof (induction segs arbitrary: idx)
  case (Cons seg segs)
  { case 1 show ?case using Cons(1) [of "add_alias t idx seg"] by (auto simp: add_alias_facts split: option.splits) }
  { case 2 show ?case using Cons(2) by (simp add: add_alias_facts) }
  { case 3 show ?case using Cons(3) by (simp add: add_alias_facts) }
qed (auto split: option.splits)

lemma add_aliases_facts:
  "map_of (ai_alias_to_page (add_aliases t segs idx)) k =
     (case map_of (ai_alias_to_page idx) k of Some x \<Rightarrow> Some x | None \<Rightarrow> if claims segs k then Some t else None)"
  "map_of (ai_page_to_aliases (add_aliases t segs idx)) p =
     (if p = t \<and> segs \<noteq> [] then Some segs else map_of (ai_page_to_aliases idx) p)"
  "ai_page_to_relpath (add_aliases t segs idx) = ai_page_to_relpath idx"
  by (auto simp: add_aliases_def Let_def fold_add_facts update_conv' split: option.split)

lemma map_of_filter_val: "distinct (map fst al) \<Longrightarrow> map_of (filter (\<lambda>(k, v). P v) al) k = (case map_of al k of Some v \<Rightarrow> if P v then Some v else None | None \<Rightarrow> None)"
proof (induction al)
  case (Cons e al)
  obtain a b where e: "e = (a, b)" by (cases e)
  have "k = a \<Longrightarrow> map_of al k = None" using Cons.prems by (auto simp: e map_of_eq_None_iff)
  then show ?case using Cons by (auto simp: e split: option.splits)
qed simp

subsection \<open>Soundness\<close>

text \<open>
  Every alias belongs to an indexed page, one of whose alias segments normalises to it, and
  only indexed pages have aliases.
\<close>

definition index_sound :: "alias_index \<Rightarrow> bool" where
  "index_sound idx \<longleftrightarrow> distinct (map fst (ai_alias_to_page idx)) \<and>
     (\<forall>k t. map_of (ai_alias_to_page idx) k = Some t \<longrightarrow>
        (\<exists>segs. map_of (ai_page_to_aliases idx) t = Some segs \<and> claims segs k)) \<and>
     (\<forall>t. map_of (ai_page_to_aliases idx) t \<noteq> None \<longrightarrow> map_of (ai_page_to_relpath idx) t \<noteq> None)"

lemma add_alias_distinct:
  "distinct (map fst (ai_alias_to_page idx)) \<Longrightarrow> distinct (map fst (ai_alias_to_page (add_alias t idx seg)))"
  by (auto simp: add_alias_def Let_def map_of_eq_None_iff split: option.splits)

lemma add_aliases_distinct:
  "distinct (map fst (ai_alias_to_page idx)) \<Longrightarrow> distinct (map fst (ai_alias_to_page (add_aliases t segs idx)))"
proof -
  have "distinct (map fst (ai_alias_to_page idx)) \<Longrightarrow> distinct (map fst (ai_alias_to_page (foldl (add_alias t) idx segs)))" for idx
    by (induction segs arbitrary: idx) (simp_all add: add_alias_distinct)
  then show "distinct (map fst (ai_alias_to_page idx)) \<Longrightarrow> ?thesis" by (simp add: add_aliases_def Let_def)
qed

lemma index_sound_empty: "index_sound empty_index"
  by (simp add: index_sound_def empty_index_def)

lemma index_sound_remove:
  assumes "index_sound idx"
  shows "index_sound (remove_page_from_alias_index idx t)"
proof -
  have d: "distinct (map fst (ai_alias_to_page idx))" using assms by (simp add: index_sound_def)
  then show ?thesis using assms
    by (auto simp: index_sound_def remove_page_from_alias_index_def map_of_filter_val [OF d] delete_conv' distinct_map_filter
        split: option.splits if_splits)
qed

lemma index_sound_add:
  assumes "index_sound idx" and fresh: "map_of (ai_page_to_aliases idx) t = None" and "map_of (ai_page_to_relpath idx) t \<noteq> None"
  shows "index_sound (add_aliases t segs idx)"
proof -
  have "\<exists>s. map_of (ai_page_to_aliases (add_aliases t segs idx)) x = Some s \<and> claims s k"
    if "map_of (ai_alias_to_page (add_aliases t segs idx)) k = Some x" for k x
  proof (cases "map_of (ai_alias_to_page idx) k")
    case None
    then have "x = t" "claims segs k" using that by (auto simp: add_aliases_facts split: if_splits)
    then show ?thesis by (auto simp: add_aliases_facts)
  next
    case (Some y)
    then have "map_of (ai_alias_to_page idx) k = Some x" using that by (simp add: add_aliases_facts)
    then obtain s where s: "map_of (ai_page_to_aliases idx) x = Some s" "claims s k"
      using assms(1) unfolding index_sound_def by blast
    then show ?thesis using fresh by (auto simp: add_aliases_facts)
  qed
  then show ?thesis using assms(1,3)
    by (auto simp: index_sound_def add_aliases_facts(2,3) add_aliases_distinct)
qed

definition resolve_stable :: "world \<Rightarrow> bool" where
  "resolve_stable w \<longleftrightarrow> (\<forall>p q. resolve w p = Some q \<longrightarrow> resolve w q = Some q)"

lemma resolved_resolved: "resolve_stable w \<Longrightarrow> resolved w (resolved w p) = resolved w p"
  by (auto simp: resolve_stable_def resolved_def split: option.splits)

lemma alias_page_title:
  assumes "alias_page w g p = Some (rel, title, text)" and "resolve_stable w"
  shows "title = page_title_from_graph_relpath (as_posix (drop (length (resolved w g)) (resolved w p)))"
  using assms(1) resolved_resolved [OF assms(2)]
  by (auto simp: alias_page_def page_title_from_path_def graph_relative_path_key_def assert_path_within_graph_def
      split: sum.splits if_splits)

lemma index_sound_patch_path:
  assumes "index_sound idx" and "resolve_stable w"
  shows "index_sound (patch_alias_path w g idx p)"
proof (cases "relative_to (resolved w p) (resolved w g)")
  case None
  then show ?thesis using assms(1) by (simp add: patch_alias_path_def Let_def)
next
  case (Some rel)
  let ?t = "page_title_from_graph_relpath (as_posix rel)"
  let ?idx = "remove_page_from_alias_index idx ?t"
  have s: "index_sound ?idx" by (rule index_sound_remove [OF assms(1)])
  have gone: "map_of (ai_page_to_aliases ?idx) ?t = None" by (simp add: remove_page_from_alias_index_def delete_conv')
  have "index_sound (index_aliases_from_file w g ?idx (resolved w p))"
  proof (cases "alias_page w g (resolved w p)")
    case None
    then show ?thesis using s by (simp add: index_aliases_from_file_def index_sound_def)
  next
    case (Some page)
    obtain r title tx where page: "page = (r, title, tx)" by (cases page)
    have "title = ?t" using alias_page_title [OF Some [unfolded page] assms(2)] \<open>relative_to (resolved w p) (resolved w g) = Some rel\<close>
      by (auto simp: relative_to_def resolved_resolved [OF assms(2)] split: if_splits)
    moreover have "index_sound (?idx\<lparr>ai_page_to_relpath := AList.update ?t r (ai_page_to_relpath ?idx)\<rparr>)"
      using s by (auto simp: index_sound_def update_conv')
    ultimately show ?thesis using gone
      by (simp add: index_aliases_from_file_def Some page index_sound_add update_conv')
  qed
  then show ?thesis using s Some by (simp add: patch_alias_path_def Let_def)
qed

lemma index_sound_patch:
  assumes "index_sound idx" and "resolve_stable w"
  shows "index_sound (patch_alias_index w g idx removed changed)"
proof -
  have r: "index_sound (foldl (\<lambda>idx rel. remove_page_from_alias_index idx (page_title_from_graph_relpath rel)) i rs)"
    if "index_sound i" for i rs
    using that by (induction rs arbitrary: i) (simp_all add: index_sound_remove)
  have c: "index_sound (foldl (patch_alias_path w g) i cs)" if "index_sound i" for i cs
    using that by (induction cs arbitrary: i) (simp_all add: index_sound_patch_path assms(2))
  show ?thesis by (simp add: patch_alias_index_def r c assms(1))
qed

text \<open>The build, page by page.\<close>

definition readable_pages :: "world \<Rightarrow> path \<Rightarrow> path list \<Rightarrow> (string \<times> string \<times> string) list" where
  "readable_pages w g ps = List.map_filter (alias_page w g) ps"

lemma readable_pages_simps [simp]:
  "readable_pages w g [] = []"
  "readable_pages w g (p # ps) = (case alias_page w g p of None \<Rightarrow> readable_pages w g ps | Some q \<Rightarrow> q # readable_pages w g ps)"
  by (simp_all add: readable_pages_def map_filter_simps split: option.split)

lemma build_page_None: "alias_page w g p = None \<Longrightarrow> build_page w g idx p = idx\<lparr>ai_notes := ai_notes idx @ [UnreadableNote p]\<rparr>"
  by (simp add: build_page_def)

lemma build_page_maps:
  assumes "alias_page w g p = Some (r, t, tx)"
  shows "map_of (ai_alias_to_page (build_page w g idx p)) k =
      (case map_of (ai_alias_to_page idx) k of Some x \<Rightarrow> Some x | None \<Rightarrow> if claims (alias_segments tx) k then Some t else None)"
    "map_of (ai_page_to_relpath (build_page w g idx p)) q =
      (case map_of (ai_page_to_relpath idx) q of Some x \<Rightarrow> Some x | None \<Rightarrow> if q = t then Some r else None)"
  using assms by (auto simp: build_page_def add_aliases_facts map_add_def split: option.splits)

definition page_claims :: "string \<Rightarrow> string \<times> string \<times> string \<Rightarrow> bool" where
  "page_claims k page = (case page of (rel, title, text) \<Rightarrow> claims (alias_segments text) k)"

lemma page_claims_simp: "page_claims k (r, t, tx) = claims (alias_segments tx) k"
  by (simp add: page_claims_def)

lemma index_sound_build:
  assumes "index_sound idx" and "distinct (map (\<lambda>(rel, title, tx). title) (readable_pages w g ps))"
    and "\<forall>(rel, title, tx) \<in> set (readable_pages w g ps). map_of (ai_page_to_relpath idx) title = None"
  shows "index_sound (foldl (build_page w g) idx ps)"
  using assms
proof (induction ps arbitrary: idx)
  case (Cons p ps)
  show ?case
  proof (cases "alias_page w g p")
    case None
    have "index_sound (build_page w g idx p)" using Cons.prems(1) by (simp add: build_page_None [OF None] index_sound_def)
    then show ?thesis using Cons.IH [of "build_page w g idx p"] Cons.prems(2,3) None by (simp add: build_page_None [OF None])
  next
    case (Some page)
    obtain r t tx where page: "page = (r, t, tx)" by (cases page)
    note some = Some [unfolded page]
    have new: "map_of (ai_page_to_relpath idx) t = None"
      and rest: "\<forall>(rel, title, tx) \<in> set (readable_pages w g ps). title \<noteq> t \<and> map_of (ai_page_to_relpath idx) title = None"
      and dis: "distinct (map (\<lambda>(rel, title, tx). title) (readable_pages w g ps))"
      using Cons.prems(2,3) some by (force+)
    let ?i = "idx\<lparr>ai_page_to_relpath := ai_page_to_relpath idx @ [(t, r)]\<rparr>"
    have i: "index_sound ?i" using Cons.prems(1) by (auto simp: index_sound_def map_add_def split: option.splits)
    have "map_of (ai_page_to_aliases idx) t = None" using Cons.prems(1) new by (auto simp: index_sound_def)
    then have b: "index_sound (build_page w g idx p)"
      using i new by (simp add: build_page_def some index_sound_add map_add_def)
    have "\<forall>(rel, title, tx) \<in> set (readable_pages w g ps). map_of (ai_page_to_relpath (build_page w g idx p)) title = None"
      using rest by (auto simp: build_page_maps(2) [OF some])
    then show ?thesis using Cons.IH [OF b dis] by simp
  qed
qed simp

lemma build_aliases:
  "map_of (ai_alias_to_page (foldl (build_page w g) idx ps)) k =
     (case map_of (ai_alias_to_page idx) k of
        Some t \<Rightarrow> Some t
      | None \<Rightarrow> map_option (\<lambda>(rel, title, tx). title) (List.find (page_claims k) (readable_pages w g ps)))"
proof (induction ps arbitrary: idx)
  case (Cons p ps)
  show ?case
  proof (cases "alias_page w g p")
    case None
    then show ?thesis using Cons [of "build_page w g idx p"] by (simp add: build_page_None split: option.split)
  next
    case (Some page)
    obtain r t tx where page: "page = (r, t, tx)" by (cases page)
    show ?thesis using Cons [of "build_page w g idx p"] build_page_maps(1) [OF Some [unfolded page], of idx k]
      by (simp add: Some page page_claims_simp split: option.splits if_splits)
  qed
qed (auto split: option.split)

subsection \<open>Properties\<close>

text \<open>
  The first page wins: in a freshly built index an alias key belongs to the first readable
  page, in path order, with an alias segment that normalises to the key, and keys nobody claims are absent.
\<close>

theorem alias_owner_is_first_claim:
  "map_of (ai_alias_to_page (build_alias_index w listing graph_root)) k =
     map_option (\<lambda>(rel, title, tx). title)
       (List.find (page_claims k) (readable_pages w graph_root (iter_alias_source_paths w listing graph_root)))"
  by (simp add: build_alias_index_def build_aliases empty_index_def)

text \<open>
  C18. An alias never points to a page that does not have it: after a build from pages with
  distinct titles and any sequence of incremental patches, each made in whatever state the
  graph is in then, every alias key is normalised from an alias segment the index records for its page, and that page
  has a path in the index.
\<close>

theorem alias_index_sound:
  assumes "distinct (map (\<lambda>(rel, title, tx). title) (readable_pages w graph_root (iter_alias_source_paths w listing graph_root)))"
    and "\<forall>(w', removed, changed) \<in> set patches. resolve_stable w'"
    and "idx = foldl (\<lambda>idx (w', removed, changed). patch_alias_index w' graph_root idx removed changed)
      (build_alias_index w listing graph_root) patches"
    and "map_of (ai_alias_to_page idx) k = Some t"
  shows "\<exists>segs rel. map_of (ai_page_to_aliases idx) t = Some segs \<and> k \<in> normalize_concept_key ` set segs \<and>
    map_of (ai_page_to_relpath idx) t = Some rel"
proof -
  have b: "index_sound (build_alias_index w listing graph_root)"
    unfolding build_alias_index_def
    using assms(1) by (intro index_sound_build [OF index_sound_empty]) (simp_all add: empty_index_def case_prod_unfold)
  have "index_sound (foldl (\<lambda>idx (w', removed, changed). patch_alias_index w' graph_root idx removed changed) i patches)"
    if "index_sound i" for i
    using that assms(2)
    by (induction patches arbitrary: i) (auto simp: index_sound_patch split: prod.splits)
  then have "index_sound idx" using b assms(3) by simp
  then show ?thesis using assms(4) unfolding index_sound_def by (metis option.exhaust option.distinct(1))
qed

subsection \<open>Witness and evidence\<close>

text \<open>Two pages of one graph; both claim the alias \<open>x\<close> at first.\<close>

definition two_pages :: "string \<Rightarrow> string \<Rightarrow> world" where
  "two_pages a b = (example_world [] ''off'')\<lparr>files := (\<lambda>p.
     if p = [''g'', ''pages'', ''A.md''] then Some \<lparr>body = a, mtime = 1\<rparr>
     else if p = [''g'', ''pages'', ''B.md''] then Some \<lparr>body = b, mtime = 1\<rparr> else None)\<rparr>"

definition two_listing :: "path list" where
  "two_listing = [[''g'', ''pages'', ''A.md''], [''g'', ''pages'', ''B.md'']]"

lemma two_pages_stable: "resolve_stable (two_pages a b)"
  by (simp add: resolve_stable_def two_pages_def example_world_def)

theorem alias_index_sound_witness:
  "\<exists>segs rel. map_of (ai_page_to_aliases (patch_alias_index (two_pages ''alias:: Y'' ''alias:: x'') [''g'']
       (build_alias_index (two_pages ''alias:: x'' ''alias:: x'') two_listing [''g'']) [] [[''g'', ''pages'', ''A.md'']])) ''A'' = Some segs \<and>
     ''y'' \<in> normalize_concept_key ` set segs \<and>
     map_of (ai_page_to_relpath (patch_alias_index (two_pages ''alias:: Y'' ''alias:: x'') [''g'']
       (build_alias_index (two_pages ''alias:: x'' ''alias:: x'') two_listing [''g'']) [] [[''g'', ''pages'', ''A.md'']])) ''A'' = Some rel"
proof -
  let ?w = "two_pages ''alias:: x'' ''alias:: x''" and ?w' = "two_pages ''alias:: Y'' ''alias:: x''"
  let ?idx = "foldl (\<lambda>idx (w', removed, changed). patch_alias_index w' [''g''] idx removed changed)
      (build_alias_index ?w two_listing [''g'']) [(?w', [], [[''g'', ''pages'', ''A.md'']])]"
  have d: "distinct (map (\<lambda>(rel, title, tx). title) (readable_pages ?w [''g''] (iter_alias_source_paths ?w two_listing [''g''])))"
    by code_simp
  have st: "\<forall>(w', removed, changed) \<in> set [(?w', [], [[''g'', ''pages'', ''A.md'']])]. resolve_stable w'"
    by (simp add: two_pages_stable)
  have k: "map_of (ai_alias_to_page ?idx) ''y'' = Some ''A''" by code_simp
  show ?thesis using alias_index_sound [OF d st refl k] by simp
qed

text \<open>
  An incremental patch is not a rebuild: when the page that owns a shared alias gives it up,
  the other page that claims it does not get it, so the name no longer resolves, whereas a
  rebuild resolves it.
\<close>

lemma patched_alias_is_lost:
  "resolve_canonical_page_title
     (patch_alias_index (two_pages ''nothing'' ''alias:: x'') [''g'']
       (build_alias_index (two_pages ''alias:: x'' ''alias:: x'') two_listing [''g'']) [] [[''g'', ''pages'', ''A.md'']]) ''x'' = ''x'' \<and>
   resolve_canonical_page_title (build_alias_index (two_pages ''nothing'' ''alias:: x'') two_listing [''g'']) ''x'' = ''B''"
  by code_simp

text \<open>An empty \<open>alias::\<close> line makes the line below it an alias.\<close>

lemma empty_alias_takes_next_line:
  "map fst (ai_alias_to_page (build_alias_index (two_pages ([LF] @ ''alias::'' @ [LF] @ ''tags:: book'') []) two_listing [''g''])) =
     [''tags:: book'']"
  by code_simp

end
