(* ===== verification/JsonRepair.thy ===== *)
theory JsonRepair
  imports DaemonState
begin

section \<open>Repairing the JSON of a language model\<close>

text \<open>
  Model of \<open>src/utils/json_repair.py\<close>: cutting a JSON value out of free text with a scanner that
  knows string literals, collapsing the token loops of a degenerated model, and closing
  brackets a truncated answer left open. Each regular expression of the source is a scan that
  matches at the leftmost position and takes the longest run. \<open>json.loads\<close> is the parameter
  \<open>loads\<close>, \<open>None\<close> when it raises. Validation of the value against a model class and log messages are left out.
\<close>

subsection \<open>String-aware scanning\<close>

text \<open>Inside a string literal, and after a backslash there.\<close>

type_synonym lex = "bool \<times> bool"

definition lex_step :: "lex \<Rightarrow> char \<Rightarrow> lex" where
  "lex_step l c =
     (let (in_string, escape) = l
      in if in_string then
           (if escape then (True, False) else if c = BSL then (True, True)
            else if c = DQ then (False, False) else (True, False))
         else if c = DQ then (True, False) else (False, False))"

fun scan_end :: "char \<Rightarrow> char \<Rightarrow> lex \<Rightarrow> int \<Rightarrow> nat \<Rightarrow> string \<Rightarrow> nat option" where
  "scan_end open_char close_char l depth i [] = None"
| "scan_end open_char close_char l depth i (c # cs) =
     (let l' = lex_step l c
      in if fst l \<or> c = DQ then scan_end open_char close_char l' depth (i + 1) cs
         else if c = open_char then scan_end open_char close_char l' (depth + 1) (i + 1) cs
         else if c = close_char then
           (if depth - 1 = 0 then Some i else scan_end open_char close_char l' (depth - 1) (i + 1) cs)
         else scan_end open_char close_char l' depth (i + 1) cs)"

definition scan_balanced_end :: "string \<Rightarrow> nat \<Rightarrow> char \<Rightarrow> char \<Rightarrow> nat option" where
  "scan_balanced_end text start open_char close_char = scan_end open_char close_char (False, False) 0 start (drop start text)"

definition find_balanced_object_end :: "string \<Rightarrow> nat \<Rightarrow> nat option" where
  "find_balanced_object_end text start = scan_balanced_end text start (CHR ''{'') (CHR ''}'')"

definition find_balanced_array_end :: "string \<Rightarrow> nat \<Rightarrow> nat option" where
  "find_balanced_array_end text start = scan_balanced_end text start (CHR ''['') (CHR '']'')"

fun last_close :: "char \<Rightarrow> lex \<Rightarrow> nat \<Rightarrow> nat option \<Rightarrow> string \<Rightarrow> nat option" where
  "last_close close_char l i found [] = found"
| "last_close close_char l i found (c # cs) =
     last_close close_char (lex_step l c) (i + 1)
       (if \<not> fst l \<and> c \<noteq> DQ \<and> c = close_char then Some i else found) cs"

definition last_structural_close :: "string \<Rightarrow> nat \<Rightarrow> char \<Rightarrow> nat option" where
  "last_structural_close text start close_char = last_close close_char (False, False) start None (drop start text)"

subsection \<open>Degenerate runs\<close>

text \<open>The longest run of a token, each occurrence followed by any characters of a kind.\<close>

function token_run :: "string \<Rightarrow> (char \<Rightarrow> bool) \<Rightarrow> string \<Rightarrow> nat \<times> string" where
  "token_run tok ws s =
     (if tok \<noteq> [] \<and> startswith s tok
      then let (n, rest) = token_run tok ws (dropWhile ws (drop (length tok) s)) in (n + 1, rest)
      else (0, s))"
  by pat_completeness auto
termination
proof (relation "measure (\<lambda>(tok, ws, s). length s)", goal_cases)
  case (2 tok ws s)
  then have "length tok \<le> length s" "tok \<noteq> []" by (auto simp: startswith_iff)
  then show ?case using length_dropWhile_le [of ws "drop (length tok) s"] by (cases tok) auto
qed simp

declare token_run.simps [simp del]

lemma token_run_length: "length (snd (token_run tok ws s)) \<le> length s \<and> (0 < fst (token_run tok ws s) \<longrightarrow> length (snd (token_run tok ws s)) < length s)"
proof (induction tok ws s rule: token_run.induct)
  case (1 tok ws s)
  show ?case
  proof (cases "tok \<noteq> [] \<and> startswith s tok")
    case True
    then have "length tok \<le> length s" "tok \<noteq> []" by (auto simp: startswith_iff)
    then have "length (dropWhile ws (drop (length tok) s)) < length s"
      using length_dropWhile_le [of ws "drop (length tok) s"] by (cases tok) auto
    then show ?thesis using 1 [OF True] True
      by (subst (1 2 3) token_run.simps) (auto split: prod.splits)
  next
    case False
    then have "token_run tok ws s = (0, s)" by (subst token_run.simps) auto
    then show ?thesis by simp
  qed
qed

text \<open>\<open>re.sub\<close> of runs of at least \<open>least\<close> tokens by \<open>repl\<close>.\<close>

function collapse_runs :: "string \<Rightarrow> (char \<Rightarrow> bool) \<Rightarrow> nat \<Rightarrow> string \<Rightarrow> string \<Rightarrow> string" where
  "collapse_runs tok ws least repl [] = []"
| "collapse_runs tok ws least repl (c # cs) =
     (let (n, rest) = token_run tok ws (c # cs)
      in if 0 < n \<and> least \<le> n then repl @ collapse_runs tok ws least repl rest
         else c # collapse_runs tok ws least repl cs)"
  by pat_completeness auto
termination
proof (relation "measure (\<lambda>(tok, ws, least, repl, s). length s)", goal_cases)
  case (2 tok ws least repl c cs x n rest)
  then show ?case using token_run_length [of tok ws "c # cs"] by (auto dest: sym)
qed simp_all

abbreviation no_space :: "char \<Rightarrow> bool" where "no_space \<equiv> \<lambda>_. False"

definition collapse_degenerate_literal_backslash_n_runs :: "string \<Rightarrow> string" where
  "collapse_degenerate_literal_backslash_n_runs = collapse_runs [BSL, CHR ''n''] py_space 12 []"

definition collapse_degenerate_literal_backslash_t_runs :: "string \<Rightarrow> string" where
  "collapse_degenerate_literal_backslash_t_runs = collapse_runs [BSL, CHR ''t''] no_space 16 []"

definition collapse_degenerate_literal_backslash_quote_runs :: "string \<Rightarrow> string" where
  "collapse_degenerate_literal_backslash_quote_runs = collapse_runs [BSL, DQ] no_space 32 []"

definition collapse_degenerate_whitespace_runs :: "string \<Rightarrow> string" where
  "collapse_degenerate_whitespace_runs text =
     collapse_runs [TAB] no_space 16 [TAB]
       (collapse_runs '' '' no_space 48 '' '' (collapse_runs [LF] no_space 24 [LF, LF] text))"

definition collapse_all_degenerate_llm_runs :: "string \<Rightarrow> string" where
  "collapse_all_degenerate_llm_runs text =
     collapse_degenerate_whitespace_runs
       (collapse_degenerate_literal_backslash_quote_runs
         (collapse_degenerate_literal_backslash_t_runs
           (collapse_degenerate_literal_backslash_n_runs text)))"

definition is_blank_char :: "char \<Rightarrow> bool" where
  "is_blank_char c \<longleftrightarrow> c = CHR '' '' \<or> c = TAB"

function max_consecutive_loop :: "nat \<Rightarrow> nat \<Rightarrow> string \<Rightarrow> nat" where
  "max_consecutive_loop best current [] = max best current"
| "max_consecutive_loop best current (c # cs) =
     (if startswith (c # cs) [BSL, CHR ''n'']
      then max_consecutive_loop best (current + 1) (dropWhile is_blank_char (drop 1 cs))
      else max_consecutive_loop (max best current) 0 cs)"
  by pat_completeness auto
termination
proof (relation "measure (\<lambda>(b, k, s). length s)", goal_cases)
  case (2 best current c cs)
  then show ?case using length_dropWhile_le [of is_blank_char "drop 1 cs"] by simp
qed simp_all

definition max_consecutive_literal_backslash_n :: "string \<Rightarrow> nat" where
  "max_consecutive_literal_backslash_n text = max_consecutive_loop 0 0 text"

function strip_leading_degenerate_llm_runs :: "string \<Rightarrow> string" where
  "strip_leading_degenerate_llm_runs [] = []"
| "strip_leading_degenerate_llm_runs (c # cs) =
     (if startswith (c # cs) [BSL, CHR ''n'']
      then strip_leading_degenerate_llm_runs (dropWhile is_blank_char (drop 1 cs))
      else if c \<in> {CHR '' '', TAB, CR, LF} then strip_leading_degenerate_llm_runs cs
      else c # cs)"
  by pat_completeness auto
termination
proof (relation "measure length", goal_cases)
  case (2 c cs)
  then show ?case using length_dropWhile_le [of is_blank_char "drop 1 cs"] by simp
qed simp_all

subsection \<open>Fences and extraction\<close>

text \<open>
  \<open>re.sub\<close> with \<open>^```(?:json)?\s*|\s*```$\<close> in multi-line mode: \<open>prev\<close> is the character of the
  original text before the position, a line feed at its start.
\<close>

definition fence_at :: "char \<Rightarrow> string \<Rightarrow> string option" where
  "fence_at prev s =
     (if prev = LF \<and> startswith s [TICK, TICK, TICK] then
        (let r = drop 3 s in Some (lstrip (if lower (take 4 r) = ''json'' then drop 4 r else r)))
      else (let r = lstrip s
            in if startswith r [TICK, TICK, TICK] \<and> (drop 3 r = [] \<or> hd (drop 3 r) = LF) then Some (drop 3 r) else None))"

lemma fence_at_length: "fence_at prev s = Some r \<Longrightarrow> length r < length s"
proof -
  assume f: "fence_at prev s = Some r"
  have l: "length (lstrip t) \<le> length t" for t by (simp add: lstrip_by_def length_dropWhile_le)
  show ?thesis using f l [of "drop 3 s"] l [of "drop 4 (drop 3 s)"] l [of s]
    by (auto simp: fence_at_def Let_def startswith_iff split: if_splits)
qed

function strip_fences :: "char \<Rightarrow> string \<Rightarrow> string" where
  "strip_fences prev [] = []"
| "strip_fences prev (c # cs) =
     (case fence_at prev (c # cs) of
        None \<Rightarrow> c # strip_fences c cs
      | Some rest \<Rightarrow> strip_fences (last (take (length (c # cs) - length rest) (c # cs))) rest)"
  by pat_completeness auto
termination
proof (relation "measure (\<lambda>(p, s). length s)", goal_cases)
  case (3 prev c cs rest)
  then show ?case by (fastforce dest: fence_at_length)
qed simp_all

definition strip_code_fence :: "string \<Rightarrow> string" where
  "strip_code_fence raw =
     (let text = strip raw
      in if startswith text [TICK, TICK, TICK] then strip (strip_fences LF text) else text)"

definition FALLBACK_UNBALANCED_JSON_CHARS :: nat where
  "FALLBACK_UNBALANCED_JSON_CHARS = 8192"

definition recover_unbalanced_json_slice :: "string \<Rightarrow> char \<Rightarrow> char \<Rightarrow> string" where
  "recover_unbalanced_json_slice text open_char close_char =
     (let collapsed = collapse_all_degenerate_llm_runs text
      in case find_sub [open_char] collapsed of
           None \<Rightarrow> collapsed
         | Some start \<Rightarrow>
             (case last_structural_close collapsed start close_char of
                Some close_idx \<Rightarrow> slice start (close_idx + 1) collapsed
              | None \<Rightarrow>
                  if FALLBACK_UNBALANCED_JSON_CHARS < length collapsed - start
                  then slice start (start + FALLBACK_UNBALANCED_JSON_CHARS) collapsed
                  else drop start collapsed))"

definition extract_json :: "char \<Rightarrow> char \<Rightarrow> string \<Rightarrow> string" where
  "extract_json open_char close_char raw =
     (let text = strip_code_fence raw
      in case find_sub [open_char] text of
           None \<Rightarrow> text
         | Some start \<Rightarrow>
             (case scan_balanced_end text start open_char close_char of
                Some e \<Rightarrow> slice start (e + 1) text
              | None \<Rightarrow> recover_unbalanced_json_slice (drop start text) open_char close_char))"

definition extract_json_object :: "string \<Rightarrow> string" where
  "extract_json_object = extract_json (CHR ''{'') (CHR ''}'')"

definition extract_json_array :: "string \<Rightarrow> string" where
  "extract_json_array = extract_json (CHR ''['') (CHR '']'')"

text \<open>An extractor is tried when its opener occurs, and its result taken when it starts with the opener.\<close>

definition extract_json_payload_regex :: "string \<Rightarrow> string" where
  "extract_json_payload_regex raw =
     (let text = strip_code_fence raw;
          brace = find_sub ''{'' text; bracket = find_sub ''['' text;
          obj = (if brace \<noteq> None \<and> startswith (extract_json_object text) ''{'' then Some (extract_json_object text) else None);
          arr = (if bracket \<noteq> None \<and> startswith (extract_json_array text) ''['' then Some (extract_json_array text) else None);
          prefer_array = (case bracket of None \<Rightarrow> False | Some k \<Rightarrow> (case brace of None \<Rightarrow> True | Some b \<Rightarrow> k < b))
      in if prefer_array then (case arr of Some r \<Rightarrow> r | None \<Rightarrow> (case obj of Some r \<Rightarrow> r | None \<Rightarrow> text))
         else (case obj of Some r \<Rightarrow> r | None \<Rightarrow> (case arr of Some r \<Rightarrow> r | None \<Rightarrow> text)))"

subsection \<open>Leaked escapes\<close>

text \<open>\<open>\\""\s*,\s*\\"\<close> at the start of a text: what follows it.\<close>

definition double_escaped_at :: "string \<Rightarrow> string option" where
  "double_escaped_at s =
     (if startswith s [BSL, DQ, DQ] then
        (let r = lstrip (drop 3 s)
         in if startswith r '','' then
              (let r2 = lstrip (drop 1 r) in if startswith r2 [BSL, DQ] then Some (drop 2 r2) else None)
            else None)
      else None)"

lemma lstrip_length: "length (lstrip t) \<le> length t"
  by (simp add: lstrip_by_def length_dropWhile_le)

lemma double_escaped_length: "double_escaped_at s = Some r \<Longrightarrow> length r < length s"
  using lstrip_length [of "drop 3 s"] lstrip_length [of "drop 1 (lstrip (drop 3 s))"]
  by (auto simp: double_escaped_at_def Let_def startswith_iff split: if_splits)

function fix_double_escaped :: "string \<Rightarrow> string" where
  "fix_double_escaped [] = []"
| "fix_double_escaped (c # cs) =
     (case double_escaped_at (c # cs) of
        None \<Rightarrow> c # fix_double_escaped cs
      | Some rest \<Rightarrow> [BSL, DQ, CHR '','', CHR '' '', BSL, DQ] @ fix_double_escaped rest)"
  by pat_completeness auto
termination
proof (relation "measure length", goal_cases)
  case (3 c cs rest)
  then show ?case by (fastforce dest: double_escaped_length)
qed simp_all

definition ident_char :: "char \<Rightarrow> bool" where
  "ident_char c \<longleftrightarrow> is_alpha_ascii c \<or> is_digit c \<or> c = CHR ''_''"

text \<open>The look-ahead: a key, its escaped closing quote and a colon.\<close>

definition leaked_key_ahead :: "string \<Rightarrow> bool" where
  "leaked_key_ahead s \<longleftrightarrow> s \<noteq> [] \<and> (is_alpha_ascii (hd s) \<or> hd s = CHR ''_'') \<and>
     (let r = dropWhile ident_char s
      in startswith r [BSL, DQ] \<and> startswith (lstrip (drop 2 r)) '':'')"

definition leaked_key_at :: "string \<Rightarrow> string \<Rightarrow> string option" where
  "leaked_key_at before s =
     (if before = [BSL, DQ] \<and> startswith s '','' then
        (let r = lstrip (drop 1 s)
         in if startswith r [BSL, DQ] \<and> leaked_key_ahead (drop 2 r) then Some (drop 2 r) else None)
      else None)"

lemma leaked_key_length: "leaked_key_at b s = Some r \<Longrightarrow> length r < length s"
  using lstrip_length [of "drop 1 s"] by (auto simp: leaked_key_at_def Let_def startswith_iff split: if_splits)

text \<open>\<open>before\<close> holds the last two characters of the original text.\<close>

function fix_leaked_keys :: "string \<Rightarrow> string \<Rightarrow> string" where
  "fix_leaked_keys before [] = []"
| "fix_leaked_keys before (c # cs) =
     (case leaked_key_at before (c # cs) of
        None \<Rightarrow> c # fix_leaked_keys (drop (length before - 1) before @ [c]) cs
      | Some rest \<Rightarrow> [CHR '','', CHR '' '', BSL, DQ] @ fix_leaked_keys [BSL, DQ] rest)"
  by pat_completeness auto
termination
proof (relation "measure (\<lambda>(b, s). length s)", goal_cases)
  case (3 before c cs rest)
  then show ?case by (fastforce dest: leaked_key_length)
qed simp_all

definition fix_double_escaped_quote_runs :: "string \<Rightarrow> string" where
  "fix_double_escaped_quote_runs text = fix_leaked_keys [] (fix_double_escaped text)"

text \<open>\<open>([{,]\s*)\\n\s*\\\"\<close>: the bracket or comma with its blanks, and what follows the match.\<close>

definition leaked_newline_at :: "string \<Rightarrow> (string \<times> string) option" where
  "leaked_newline_at s =
     (case s of
        [] \<Rightarrow> None
      | c # cs \<Rightarrow>
          if c = CHR ''{'' \<or> c = CHR '','' then
            (let r = lstrip cs
             in if startswith r [BSL, CHR ''n''] then
                  (let r2 = lstrip (drop 2 r)
                   in if startswith r2 [BSL, DQ] then Some (c # takeWhile py_space cs, drop 2 r2) else None)
                else None)
          else None)"

lemma leaked_newline_length: "leaked_newline_at s = Some (g, r) \<Longrightarrow> length r < length s"
  using lstrip_length [of "tl s"] lstrip_length [of "drop 2 (lstrip (tl s))"]
  by (auto simp: leaked_newline_at_def Let_def startswith_iff split: if_splits list.splits)

function fix_gemma_leaked_literal_newline_before_keys :: "string \<Rightarrow> string" where
  "fix_gemma_leaked_literal_newline_before_keys [] = []"
| "fix_gemma_leaked_literal_newline_before_keys (c # cs) =
     (case leaked_newline_at (c # cs) of
        None \<Rightarrow> c # fix_gemma_leaked_literal_newline_before_keys cs
      | Some (grp, rest) \<Rightarrow> grp @ [DQ] @ fix_gemma_leaked_literal_newline_before_keys rest)"
  by pat_completeness auto
termination
proof (relation "measure length", goal_cases)
  case (3 c cs pair grp rest)
  then show ?case by (fastforce dest: leaked_newline_length)
qed simp_all

subsection \<open>Closing brackets and the whole repair\<close>

definition strip_trailing_json_garbage :: "string \<Rightarrow> string" where
  "strip_trailing_json_garbage text =
     (let stripped = strip text
      in if stripped = [] then stripped
         else let e = (if hd stripped = CHR ''{'' then find_balanced_object_end stripped 0
                       else if hd stripped = CHR ''['' then find_balanced_array_end stripped 0 else None)
              in case e of None \<Rightarrow> stripped | Some k \<Rightarrow> take (k + 1) stripped)"

definition is_opener :: "char \<Rightarrow> bool" where
  "is_opener c \<longleftrightarrow> c = CHR ''{'' \<or> c = CHR ''[''"

definition closer_of :: "char \<Rightarrow> char" where
  "closer_of c = (if c = CHR ''{'' then CHR ''}'' else CHR '']'')"

text \<open>The stack of open brackets, the innermost first.\<close>

definition bracket_step :: "lex \<times> string \<Rightarrow> char \<Rightarrow> lex \<times> string" where
  "bracket_step st c =
     (let (l, stack) = st
      in (lex_step l c,
          if fst l \<or> c = DQ then stack
          else if is_opener c then c # stack
          else if c \<in> {CHR ''}'', CHR '']''} \<and> stack \<noteq> [] \<and> closer_of (hd stack) = c then tl stack
          else stack))"

definition bracket_state :: "string \<Rightarrow> lex \<times> string" where
  "bracket_state text = foldl bracket_step ((False, False), []) text"

definition balance_json_brackets :: "string \<Rightarrow> string" where
  "balance_json_brackets text = text @ map closer_of (snd (bracket_state text))"

definition repair_tail :: "string \<Rightarrow> string" where
  "repair_tail text =
     fix_double_escaped_quote_runs
       (fix_gemma_leaked_literal_newline_before_keys
         (collapse_degenerate_literal_backslash_quote_runs
           (collapse_degenerate_literal_backslash_t_runs
             (collapse_degenerate_literal_backslash_n_runs text))))"

definition repair_head :: "string \<Rightarrow> string" where
  "repair_head raw = collapse_all_degenerate_llm_runs (strip_leading_degenerate_llm_runs (strip_code_fence (strip raw)))"

definition sanitize_llm_completion_text :: "string \<Rightarrow> string" where
  "sanitize_llm_completion_text raw = repair_tail (extract_json_object (repair_head raw))"

definition repair_llm_json :: "string \<Rightarrow> string" where
  "repair_llm_json raw =
     balance_json_brackets (strip_trailing_json_garbage (repair_tail (extract_json_payload_regex (repair_head raw))))"

definition loads_repaired_json :: "(string \<Rightarrow> json option) \<Rightarrow> string \<Rightarrow> json option" where
  "loads_repaired_json loads raw =
     (let repaired = repair_llm_json raw
      in case loads repaired of
           Some v \<Rightarrow> Some v
         | None \<Rightarrow> loads (balance_json_brackets (strip_trailing_json_garbage repaired)))"

definition safe_parse_llm_json_dict :: "(string \<Rightarrow> json option) \<Rightarrow> string \<Rightarrow> obj" where
  "safe_parse_llm_json_dict loads raw =
     (case loads_repaired_json loads raw of Some (JObj items) \<Rightarrow> items | _ \<Rightarrow> [])"

text \<open>The cap on prose, not negative: \<open>raw\<close> is the value of \<open>MATRYCA_LLM_PROSE_COMPLETION_MAX_CHARS\<close>, \<open>12000\<close> when not set.\<close>

definition resolve_prose_max_chars :: "string \<Rightarrow> int" where
  "resolve_prose_max_chars raw =
     (case int_of_text raw of None \<Rightarrow> 12000 | Some n \<Rightarrow> max 2000 (min 32000 n))"

definition sanitize_prose_llm_completion :: "int \<Rightarrow> string \<Rightarrow> string" where
  "sanitize_prose_llm_completion cap raw =
     (let text = collapse_all_degenerate_llm_runs (strip_code_fence (strip raw))
      in if cap < int (length text)
         then rstrip (take (nat cap) text) @ [LF, LF] @ ''...[truncation: prose completion cap]'' else text)"

definition sanitize_llm_history_turn :: "int \<Rightarrow> string \<Rightarrow> string" where
  "sanitize_llm_history_turn cap content =
     (let stripped = strip content
      in if stripped = [] then content
         else if startswith stripped ''{'' then sanitize_llm_completion_text stripped
         else if startswith stripped ''['' then extract_json_array stripped
         else sanitize_prose_llm_completion cap stripped)"

subsection \<open>Balancing\<close>

lemma bracket_state_append: "bracket_state (s @ t) = foldl bracket_step (bracket_state s) t"
  by (simp add: bracket_state_def)

lemma bracket_stack_openers: "set (snd (bracket_state t)) \<subseteq> {CHR ''{'', CHR ''[''}"
proof (induction t rule: rev_induct)
  case (snoc c t)
  obtain l st where s: "bracket_state t = (l, st)" by (cases "bracket_state t")
  then have st: "set st \<subseteq> {CHR ''{'', CHR ''[''}" using snoc by simp
  have "set (tl st) \<subseteq> set st" by (cases st) auto
  then show ?case using st by (auto simp: bracket_state_append s bracket_step_def is_opener_def)
qed (simp add: bracket_state_def)

lemma close_stack:
  "set st \<subseteq> {CHR ''{'', CHR ''[''} \<Longrightarrow>
   foldl bracket_step ((False, False), st) (map closer_of st) = ((False, False), [])"
proof (induction st)
  case (Cons c st)
  then have c: "c = CHR ''{'' \<or> c = CHR ''[''" by simp
  then have "bracket_step ((False, False), c # st) (closer_of c) = ((False, False), st)"
    by (auto simp: bracket_step_def closer_of_def is_opener_def lex_step_def)
  then show ?case using Cons by simp
qed simp

lemma lex_outside: "fst l = False \<Longrightarrow> fst (bracket_state t) = l \<Longrightarrow> l = (False, False)"
proof (induction t arbitrary: l rule: rev_induct)
  case (snoc c t)
  obtain l' st where s: "bracket_state t = (l', st)" by (cases "bracket_state t")
  show ?case using snoc.prems by (auto simp: bracket_state_append s bracket_step_def lex_step_def split: if_splits prod.splits)
qed (simp add: bracket_state_def)

text \<open>
  Balancing a truncated JSON text closes it: the result has the text as a prefix, followed by
  closing brackets only; when the text does not end inside a string literal, scanning the
  result leaves no bracket open and no string open, and balancing it again changes nothing.
\<close>

theorem balance_closes_brackets:
  assumes "\<not> fst (fst (bracket_state t))"
  shows "bracket_state (balance_json_brackets t) = ((False, False), []) \<and>
    balance_json_brackets (balance_json_brackets t) = balance_json_brackets t \<and>
    (\<exists>closers. balance_json_brackets t = t @ closers \<and> set closers \<subseteq> {CHR ''}'', CHR '']''} \<and>
      length closers = length (snd (bracket_state t)))"
proof -
  let ?st = "snd (bracket_state t)"
  have "fst (bracket_state t) = (False, False)" using lex_outside [OF _ refl] assms by auto
  then have b: "bracket_state t = ((False, False), ?st)" by (metis prod.collapse)
  have e: "bracket_state (balance_json_brackets t) = ((False, False), [])"
    using close_stack [OF bracket_stack_openers, of t] b
    by (simp add: balance_json_brackets_def bracket_state_append)
  have "balance_json_brackets (balance_json_brackets t) = balance_json_brackets t"
    unfolding balance_json_brackets_def [of "balance_json_brackets t"] by (simp add: e)
  moreover have "set (map closer_of ?st) \<subseteq> {CHR ''}'', CHR '']''}" by (auto simp: closer_of_def)
  ultimately show ?thesis using e unfolding balance_json_brackets_def [of t] by auto
qed

theorem balance_closes_brackets_witness:
  "balance_json_brackets ''{a:[1,{b'' = ''{a:[1,{b}]}'' \<and>
   bracket_state (balance_json_brackets ''{a:[1,{b'') = ((False, False), [])"
proof -
  have o: "\<not> fst (fst (bracket_state ''{a:[1,{b''))" by code_simp
  have "balance_json_brackets ''{a:[1,{b'' = ''{a:[1,{b}]}''" by code_simp
  with balance_closes_brackets [OF o] show ?thesis by simp
qed

text \<open>A text cut inside a string literal is not closed: the brackets land in the string.\<close>

lemma balance_inside_string:
  "bracket_state (balance_json_brackets ([CHR ''{''] @ [DQ] @ ''a'')) = ((True, False), ''{'')"
  by code_simp

subsection \<open>Clean JSON is left alone\<close>

lemma token_run_zero: "\<not> startswith s tok \<Longrightarrow> token_run tok ws s = (0, s)"
  by (subst token_run.simps) simp

lemma collapse_runs_absent:
  "tok \<noteq> [] \<Longrightarrow> hd tok \<notin> set s \<Longrightarrow> collapse_runs tok ws least repl s = s"
proof (induction s)
  case (Cons c cs)
  then have "\<not> startswith (c # cs) tok" by (auto simp: startswith_iff Cons_eq_append_conv)
  then show ?case using Cons by (simp add: token_run_zero)
qed simp

lemma fixes_absent:
  assumes "BSL \<notin> set s"
  shows "fix_double_escaped s = s" "fix_leaked_keys b s = s" "fix_gemma_leaked_literal_newline_before_keys s = s"
proof -
  have sub: "BSL \<notin> set t" if "suffix t s" for t using that assms by (auto simp: suffix_def)
  have no: "\<not> startswith t (BSL # r)" if "BSL \<notin> set t" for t r using that by (auto simp: startswith_iff)
  have ls: "BSL \<notin> set t \<Longrightarrow> BSL \<notin> set (lstrip t)" for t by (auto simp: lstrip_by_def dest: set_dropWhileD)
  show "fix_double_escaped s = s"
    using assms by (induction s) (simp_all add: double_escaped_at_def no)
  show "fix_leaked_keys b s = s" using assms
  proof (induction s arbitrary: b)
    case (Cons c cs)
    have "\<not> startswith (lstrip cs) (BSL # r)" for r using Cons.prems no ls by simp
    then show ?case using Cons by (simp add: leaked_key_at_def)
  qed simp
  show "fix_gemma_leaked_literal_newline_before_keys s = s" using assms
  proof (induction s)
    case (Cons c cs)
    have "\<not> startswith (lstrip cs) (BSL # r)" for r using Cons.prems no ls by simp
    then show ?case using Cons by (simp add: leaked_newline_at_def)
  qed simp
qed

lemma space_run: "token_run [a] no_space s = (length (takeWhile (\<lambda>c. c = a) s), dropWhile (\<lambda>c. c = a) s)"
proof (induction s)
  case Nil
  then show ?case by (simp add: token_run_zero startswith_def)
next
  case (Cons c s)
  have d: "dropWhile no_space t = t" for t :: string by (induction t) auto
  show ?case
  proof (cases "c = a")
    case True
    then show ?thesis using Cons by (subst token_run.simps) (simp add: startswith_def d)
  qed (simp add: token_run_zero startswith_def)
qed

lemma collapse_short_runs:
  "\<not> contains s (replicate least a) \<Longrightarrow> collapse_runs [a] no_space least repl s = s"
proof (induction s)
  case (Cons c s)
  have nc: "\<not> contains s (replicate least a)" "\<not> startswith (c # s) (replicate least a)"
    using Cons.prems by (auto simp: contains_def split: if_splits)
  have "\<not> least \<le> length (takeWhile (\<lambda>x. x = a) (c # s))"
  proof
    assume l: "least \<le> length (takeWhile (\<lambda>x. x = a) (c # s))"
    let ?t = "takeWhile (\<lambda>x. x = a) (c # s)"
    have "?t = replicate (length ?t) a" by (intro replicate_eqI [symmetric, THEN sym]) (auto dest: set_takeWhileD split: if_splits)
    then have "?t = replicate least a @ replicate (length ?t - least) a" using l by (metis replicate_add le_add_diff_inverse)
    then have "startswith ?t (replicate least a)" by (metis startswith_append)
    moreover have "c # s = ?t @ dropWhile (\<lambda>x. x = a) (c # s)" by simp
    ultimately have "startswith (c # s) (replicate least a)" by (metis append.assoc startswith_iff)
    then show False using nc(2) by simp
  qed
  then show ?case using Cons.IH [OF nc(1)] by (simp add: space_run del: takeWhile.simps dropWhile.simps)
qed simp

definition clean_json :: "string \<Rightarrow> bool" where
  "clean_json v \<longleftrightarrow> set v \<inter> {BSL, LF, TAB} = {} \<and> \<not> contains v (replicate 48 (CHR '' '')) \<and>
     ((\<exists>r. v = CHR ''{'' # r) \<and> find_balanced_object_end v 0 = Some (length v - 1) \<or>
      (\<exists>r. v = CHR ''['' # r) \<and> find_balanced_array_end v 0 = Some (length v - 1)) \<and>
     bracket_state v = ((False, False), [])"

lemma scan_end_char: "scan_end oc cc l d i s = Some k \<Longrightarrow> i \<le> k \<and> k < i + length s \<and> s ! (k - i) = cc"
proof (induction s arbitrary: l d i)
  case (Cons c s)
  have step: "i \<le> k \<and> k < i + length (c # s) \<and> (c # s) ! (k - i) = cc" if "scan_end oc cc l' d' (i + 1) s = Some k" for l' d'
    using Cons.IH [OF that] by (auto simp: nth_Cons split: nat.split) (metis Suc_diff_Suc Suc_le_lessD old.nat.inject)
  show ?case using Cons.prems step by (auto simp: Let_def split: if_splits)
qed simp

lemma clean_facts:
  assumes "clean_json v"
  shows "strip v = v" "strip_code_fence v = v" "strip_leading_degenerate_llm_runs v = v"
    "collapse_all_degenerate_llm_runs v = v" "repair_tail v = v" "balance_json_brackets v = v"
    "strip_trailing_json_garbage v = v" "extract_json_payload_regex v = v"
proof -
  have cl: "BSL \<notin> set v" "LF \<notin> set v" "TAB \<notin> set v" using assms by (auto simp: clean_json_def)
  obtain c r where v: "v = c # r" and c: "c = CHR ''{'' \<or> c = CHR ''[''" using assms by (auto simp: clean_json_def)
  define cc where "cc = closer_of c"
  have e: "scan_balanced_end v 0 c cc = Some (length v - 1)" and cc: "cc \<in> {CHR ''}'', CHR '']''}"
    and fo: "c = CHR ''{'' \<longrightarrow> find_balanced_object_end v 0 = Some (length v - 1)"
    and fa: "c = CHR ''['' \<longrightarrow> find_balanced_array_end v 0 = Some (length v - 1)"
    using assms v by (auto simp: cc_def closer_of_def clean_json_def find_balanced_object_end_def find_balanced_array_end_def)
  have "v ! (length v - 1) = cc" using scan_end_char [of c cc "(False, False)" 0 0 v] e
    by (simp only: scan_balanced_end_def drop0 diff_zero)
  moreover have "v \<noteq> []" by (simp add: v)
  ultimately have "last v = cc" using last_conv_nth [of v] by simp
  then have lst: "\<not> py_space (last v)" using cc by (auto simp: py_space_def code_of_def)
  have hd: "\<not> py_space c" using c by (auto simp: py_space_def code_of_def)
  show s: "strip v = v" using hd lst by (intro strip_id) (simp add: v)
  show f: "strip_code_fence v = v" using c by (auto simp: strip_code_fence_def s) (auto simp: v startswith_def)
  show "strip_leading_degenerate_llm_runs v = v" using c by (auto simp: v startswith_def)
  have sp: "collapse_runs '' '' no_space 48 '' '' v = v"
    using assms by (intro collapse_short_runs) (simp add: clean_json_def)
  show "collapse_all_degenerate_llm_runs v = v"
    using cl by (simp add: collapse_all_degenerate_llm_runs_def collapse_degenerate_whitespace_runs_def sp collapse_runs_absent
        collapse_degenerate_literal_backslash_n_runs_def collapse_degenerate_literal_backslash_t_runs_def
        collapse_degenerate_literal_backslash_quote_runs_def)
  show "repair_tail v = v"
    using cl by (simp add: repair_tail_def fixes_absent fix_double_escaped_quote_runs_def collapse_runs_absent
        collapse_degenerate_literal_backslash_n_runs_def collapse_degenerate_literal_backslash_t_runs_def
        collapse_degenerate_literal_backslash_quote_runs_def)
  show "balance_json_brackets v = v" using assms by (simp add: clean_json_def balance_json_brackets_def)
  show "strip_trailing_json_garbage v = v"
    using c fo fa by (auto simp: strip_trailing_json_garbage_def s Let_def) (auto simp: v)
  have ex: "extract_json c cc v = v" using e by (simp add: extract_json_def f Let_def) (simp add: v startswith_def slice_def)
  have first: "find_sub [c] v = Some 0" "startswith v [c]" "\<And>x. x \<noteq> c \<Longrightarrow> find_sub [x] v \<noteq> Some 0"
    by (simp_all add: v startswith_def)
  show "extract_json_payload_regex v = v"
  proof (cases "c = CHR ''{''")
    case True
    then have "extract_json_object v = v" using ex by (simp add: extract_json_object_def cc_def closer_of_def)
    then show ?thesis using first True by (auto simp: extract_json_payload_regex_def f Let_def split: option.split)
  next
    case False
    then have c: "c = CHR ''[''" using c by simp
    then have "extract_json_array v = v" using ex by (simp add: extract_json_array_def cc_def closer_of_def)
    moreover have "find_sub ''{'' v \<noteq> Some 0" using first(3) c by simp
    ultimately show ?thesis using first c by (auto simp: extract_json_payload_regex_def f Let_def split: option.split)
  qed
qed



end
