(* ===== verification/Locks.thy ===== *)
theory Locks
  imports Safety "HOL-Library.AList"
begin

section \<open>Page locks\<close>

text \<open>
  Model of \<open>src/graph/page_write_lock.py\<close> and of the sidecar lock in \<open>src/utils/platform_lock.py\<close> as a
  state machine. Many threads of several processes hold \<open>page_rmw_lock\<close> on pages at once: each
  step of the model is one action of one thread between two points where another thread may
  run. A page has an in-process reentrant lock, found in a bounded registry of its process,
  and a sidecar file on which the thread takes an exclusive \<open>flock\<close>; nested use in one thread
  is counted. A sidecar path names a file (an inode), which a sweep may unlink while a thread
  has it open. Each thread has a stack of the locks it is acquiring or holding. Waiting and
  retrying is a step that does not happen yet; giving up is a step of its own. The write
  guard at the entry of each function is in theory \<open>Safety\<close>.
\<close>

subsection \<open>State\<close>

text \<open>A thread, with the process whose registry it uses.\<close>

datatype thread = Thread (process_of: nat) (thread_id: nat)

text \<open>How a critical section is held: nested, by the \<open>flock\<close> on an inode, or in process only.\<close>

datatype hold = Nested | Flocked nat | InProcess

datatype phase =
    Looked nat
  | Holding nat
  | Opened nat nat
  | Inside nat hold

type_synonym frame = "string \<times> phase"

record lock_world =
  lw_registry :: "nat \<Rightarrow> (string \<times> nat) list"
  lw_owner :: "nat \<Rightarrow> (thread \<times> nat) option"
  lw_next_lock :: nat
  lw_sidecar :: "string \<Rightarrow> nat option"
  lw_flock :: "nat \<Rightarrow> thread option"
  lw_next_inode :: nat
  lw_depth :: "thread \<Rightarrow> string \<Rightarrow> nat"
  lw_frames :: "thread \<Rightarrow> frame list"

text \<open>The platform: \<open>fcntl\<close> exists, degradation is allowed, and \<open>RLock\<close> has \<open>locked()\<close>.\<close>

record platform =
  pf_fcntl :: bool
  pf_degrade :: bool
  pf_rlock_probe :: bool

definition initial_locks :: lock_world where
  "initial_locks = \<lparr>lw_registry = (\<lambda>_. []), lw_owner = (\<lambda>_. None), lw_next_lock = 0, lw_sidecar = (\<lambda>_. None),
     lw_flock = (\<lambda>_. None), lw_next_inode = 0, lw_depth = (\<lambda>_ _. 0), lw_frames = (\<lambda>_. [])\<rparr>"

definition MAX_PAGE_LOCK_REGISTRY :: int where
  "MAX_PAGE_LOCK_REGISTRY = 4096"

subsection \<open>The registry\<close>

definition lock_is_held :: "platform \<Rightarrow> lock_world \<Rightarrow> nat \<Rightarrow> bool" where
  "lock_is_held pf w lid \<longleftrightarrow> pf_rlock_probe pf \<and> lw_owner w lid \<noteq> None"

text \<open>\<open>acquire(blocking=False)\<close> succeeds on a free lock and on one the same thread holds.\<close>

definition can_acquire :: "lock_world \<Rightarrow> thread \<Rightarrow> nat \<Rightarrow> bool" where
  "can_acquire w t lid \<longleftrightarrow> (case lw_owner w lid of None \<Rightarrow> True | Some (t', n) \<Rightarrow> t' = t)"

fun evict_unlocked :: "platform \<Rightarrow> lock_world \<Rightarrow> thread \<Rightarrow> (string \<times> nat) list \<Rightarrow> (string \<times> nat) list" where
  "evict_unlocked pf w t [] = []"
| "evict_unlocked pf w t ((k, lid) # reg) =
     (if \<not> lock_is_held pf w lid \<and> can_acquire w t lid then reg
      else (k, lid) # evict_unlocked pf w t reg)"

text \<open>\<open>_lock_for_key\<close> runs under the registry guard, so it is one step.\<close>

definition lock_for_key :: "platform \<Rightarrow> thread \<Rightarrow> string \<Rightarrow> lock_world \<Rightarrow> nat \<times> lock_world" where
  "lock_for_key pf t k w =
     (let reg = lw_registry w (process_of t)
      in case map_of reg k of
           Some lid \<Rightarrow> (lid, w\<lparr>lw_registry := (lw_registry w)(process_of t := AList.delete k reg @ [(k, lid)])\<rparr>)
         | None \<Rightarrow>
             (let reg' = (if MAX_PAGE_LOCK_REGISTRY \<le> int (length reg) then evict_unlocked pf w t reg else reg);
                  lid = lw_next_lock w
              in (lid, w\<lparr>lw_registry := (lw_registry w)(process_of t := reg' @ [(k, lid)]), lw_next_lock := lid + 1\<rparr>)))"

subsection \<open>Steps of one thread\<close>

definition push_frame :: "thread \<Rightarrow> frame \<Rightarrow> lock_world \<Rightarrow> lock_world" where
  "push_frame t f w = w\<lparr>lw_frames := (lw_frames w)(t := f # lw_frames w t)\<rparr>"

definition set_phase :: "thread \<Rightarrow> phase \<Rightarrow> lock_world \<Rightarrow> lock_world" where
  "set_phase t ph w =
     (case lw_frames w t of [] \<Rightarrow> w | (k, _) # fs \<Rightarrow> w\<lparr>lw_frames := (lw_frames w)(t := (k, ph) # fs)\<rparr>)"

definition pop_frame :: "thread \<Rightarrow> lock_world \<Rightarrow> lock_world" where
  "pop_frame t w = w\<lparr>lw_frames := (lw_frames w)(t := tl (lw_frames w t))\<rparr>"

definition set_depth :: "thread \<Rightarrow> string \<Rightarrow> nat \<Rightarrow> lock_world \<Rightarrow> lock_world" where
  "set_depth t k n w = w\<lparr>lw_depth := (lw_depth w)(t := (lw_depth w t)(k := n))\<rparr>"

text \<open>A thread calls the lock function when it is outside every lock or inside its innermost one.\<close>

definition at_work :: "frame list \<Rightarrow> bool" where
  "at_work fs \<longleftrightarrow> (case fs of [] \<Rightarrow> True | (k, Inside lid h) # rest \<Rightarrow> True | _ \<Rightarrow> False)"

definition begin_lock :: "platform \<Rightarrow> thread \<Rightarrow> string \<Rightarrow> lock_world \<Rightarrow> lock_world option" where
  "begin_lock pf t k w =
     (if at_work (lw_frames w t)
      then let (lid, w1) = lock_for_key pf t k w in Some (push_frame t (k, Looked lid) w1) else None)"

definition acquire_thread_lock :: "thread \<Rightarrow> lock_world \<Rightarrow> lock_world option" where
  "acquire_thread_lock t w =
     (case lw_frames w t of
        (k, Looked lid) # fs \<Rightarrow>
          if can_acquire w t lid
          then let n = (case lw_owner w lid of None \<Rightarrow> 0 | Some (t', n) \<Rightarrow> n)
               in Some (set_phase t (Holding lid) (w\<lparr>lw_owner := (lw_owner w)(lid \<mapsto> (t, n + 1))\<rparr>))
          else None
      | _ \<Rightarrow> None)"

text \<open>The bounded retries ran out: the caller gets \<open>PageLockUnavailableError\<close>.\<close>

definition give_up :: "thread \<Rightarrow> lock_world \<Rightarrow> lock_world option" where
  "give_up t w = (case lw_frames w t of (k, Looked lid) # fs \<Rightarrow> Some (pop_frame t w) | _ \<Rightarrow> None)"

definition release_thread_lock :: "thread \<Rightarrow> nat \<Rightarrow> lock_world \<Rightarrow> lock_world" where
  "release_thread_lock t lid w =
     (case lw_owner w lid of
        Some (t', n) \<Rightarrow>
          if t' = t then w\<lparr>lw_owner := (lw_owner w)(lid := (if n \<le> 1 then None else Some (t, n - 1)))\<rparr> else w
      | None \<Rightarrow> w)"

text \<open>The start of \<open>cross_process_sidecar_lock\<close>: nested, without \<open>fcntl\<close>, or the sidecar is opened.\<close>

definition enter_sidecar :: "platform \<Rightarrow> thread \<Rightarrow> lock_world \<Rightarrow> lock_world option" where
  "enter_sidecar pf t w =
     (case lw_frames w t of
        (k, Holding lid) # fs \<Rightarrow>
          if 0 < lw_depth w t k then Some (set_depth t k (lw_depth w t k + 1) (set_phase t (Inside lid Nested) w))
          else if \<not> pf_fcntl pf then Some (set_depth t k 1 (set_phase t (Inside lid InProcess) w))
          else (case lw_sidecar w k of
                  Some i \<Rightarrow> Some (set_phase t (Opened lid i) w)
                | None \<Rightarrow>
                    (let i = lw_next_inode w
                     in Some (set_phase t (Opened lid i)
                          (w\<lparr>lw_sidecar := (lw_sidecar w)(k \<mapsto> i), lw_next_inode := i + 1\<rparr>))))
      | _ \<Rightarrow> None)"

definition take_flock :: "thread \<Rightarrow> lock_world \<Rightarrow> lock_world option" where
  "take_flock t w =
     (case lw_frames w t of
        (k, Opened lid i) # fs \<Rightarrow>
          if lw_flock w i = None
          then Some (set_depth t k 1 (set_phase t (Inside lid (Flocked i)) (w\<lparr>lw_flock := (lw_flock w)(i \<mapsto> t)\<rparr>)))
          else None
      | _ \<Rightarrow> None)"

text \<open>
  \<open>flock\<close> fails with an \<open>OSError\<close>: the thread goes on with the in-process lock when
  degradation is allowed, and raises otherwise.
\<close>

definition flock_unsupported :: "platform \<Rightarrow> thread \<Rightarrow> lock_world \<Rightarrow> lock_world option" where
  "flock_unsupported pf t w =
     (case lw_frames w t of
        (k, Opened lid i) # fs \<Rightarrow>
          if pf_degrade pf then Some (set_depth t k 1 (set_phase t (Inside lid InProcess) w))
          else Some (pop_frame t (release_thread_lock t lid w))
      | _ \<Rightarrow> None)"

definition leave_lock :: "thread \<Rightarrow> lock_world \<Rightarrow> lock_world option" where
  "leave_lock t w =
     (case lw_frames w t of
        (k, Inside lid h) # fs \<Rightarrow>
          Some (pop_frame t (release_thread_lock t lid
            (case h of
               Nested \<Rightarrow> set_depth t k (lw_depth w t k - 1) w
             | InProcess \<Rightarrow> set_depth t k 0 w
             | Flocked i \<Rightarrow> set_depth t k 0 (w\<lparr>lw_flock := (lw_flock w)(i := None)\<rparr>))))
      | _ \<Rightarrow> None)"

text \<open>\<open>sweep_matryca_lock_sidecars\<close> unlinks the sidecars it finds, whoever has them open.\<close>

definition sweep_lock_sidecars :: "string list \<Rightarrow> lock_world \<Rightarrow> lock_world" where
  "sweep_lock_sidecars ks w = w\<lparr>lw_sidecar := (\<lambda>k. if k \<in> set ks then None else lw_sidecar w k)\<rparr>"

subsection \<open>The machine\<close>

datatype lock_action =
    Begin string
  | AcquireThread
  | GiveUp
  | EnterSidecar
  | TakeFlock
  | FlockUnsupported
  | Leave

fun lock_act :: "platform \<Rightarrow> thread \<Rightarrow> lock_action \<Rightarrow> lock_world \<Rightarrow> lock_world option" where
  "lock_act pf t (Begin k) w = begin_lock pf t k w"
| "lock_act pf t AcquireThread w = acquire_thread_lock t w"
| "lock_act pf t GiveUp w = give_up t w"
| "lock_act pf t EnterSidecar w = enter_sidecar pf t w"
| "lock_act pf t TakeFlock w = take_flock t w"
| "lock_act pf t FlockUnsupported w = flock_unsupported pf t w"
| "lock_act pf t Leave w = leave_lock t w"

text \<open>The states a run of thread actions reaches; \<open>sweeps\<close> says whether sweeps may happen too.\<close>

inductive reach :: "platform \<Rightarrow> bool \<Rightarrow> lock_world \<Rightarrow> bool" for pf sweeps where
  reach_init: "reach pf sweeps initial_locks"
| reach_act: "reach pf sweeps w \<Longrightarrow> lock_act pf t a w = Some w' \<Longrightarrow> reach pf sweeps w'"
| reach_sweep: "reach pf sweeps w \<Longrightarrow> sweeps \<Longrightarrow> reach pf sweeps (sweep_lock_sidecars ks w)"

definition inside :: "lock_world \<Rightarrow> thread \<Rightarrow> string \<Rightarrow> bool" where
  "inside w t k \<longleftrightarrow> (\<exists>lid h. (k, Inside lid h) \<in> set (lw_frames w t))"

text \<open>A run written down as a list of actions, for evaluation.\<close>

fun run_locks :: "platform \<Rightarrow> (thread \<times> lock_action) list \<Rightarrow> lock_world \<Rightarrow> lock_world option" where
  "run_locks pf [] w = Some w"
| "run_locks pf ((t, a) # rest) w = Option.bind (lock_act pf t a w) (run_locks pf rest)"

lemma run_locks_reach: "run_locks pf acts w = Some w' \<Longrightarrow> reach pf sweeps w \<Longrightarrow> reach pf sweeps w'"
proof (induction acts arbitrary: w)
  case (Cons x acts)
  obtain t a where x: "x = (t, a)" by (cases x)
  with Cons.prems obtain w1 where "lock_act pf t a w = Some w1" "run_locks pf acts w1 = Some w'"
    by (auto split: bind_splits)
  with Cons show ?case using reach_act by blast
qed simp

subsection \<open>The stack discipline\<close>

text \<open>How many critical sections of a page a stack of frames is inside of.\<close>

fun depth_in :: "frame list \<Rightarrow> string \<Rightarrow> nat" where
  "depth_in [] k = 0"
| "depth_in ((k', Inside lid h) # fs) k = (if k' = k then depth_in fs k + 1 else depth_in fs k)"
| "depth_in ((k', _) # fs) k = depth_in fs k"

text \<open>
  A section is nested exactly when an enclosing one of the same page exists, so the sections
  entered by \<open>flock\<close> or in process only are outermost. Only the innermost frame acquires.
\<close>

fun stack_ok :: "frame list \<Rightarrow> bool" where
  "stack_ok [] \<longleftrightarrow> True"
| "stack_ok ((k, ph) # fs) \<longleftrightarrow> stack_ok fs \<and> at_work fs \<and>
     (case ph of
        Inside lid h \<Rightarrow> (h = Nested) = (0 < depth_in fs k)
      | Opened lid i \<Rightarrow> depth_in fs k = 0
      | _ \<Rightarrow> True)"

definition depth_agrees :: "lock_world \<Rightarrow> bool" where
  "depth_agrees w \<longleftrightarrow> (\<forall>t. stack_ok (lw_frames w t) \<and> (\<forall>k. lw_depth w t k = depth_in (lw_frames w t) k))"

lemmas lock_step_defs = push_frame_def set_phase_def pop_frame_def set_depth_def release_thread_lock_def

lemma lock_for_key_keeps [simp]:
  "lw_frames (snd (lock_for_key pf t k w)) = lw_frames w"
  "lw_depth (snd (lock_for_key pf t k w)) = lw_depth w"
  "lw_flock (snd (lock_for_key pf t k w)) = lw_flock w"
  "lw_sidecar (snd (lock_for_key pf t k w)) = lw_sidecar w"
  "lw_next_inode (snd (lock_for_key pf t k w)) = lw_next_inode w"
  "lw_owner (snd (lock_for_key pf t k w)) = lw_owner w"
  by (simp_all add: lock_for_key_def Let_def split: option.split)

lemma release_thread_lock_keeps [simp]:
  "lw_frames (release_thread_lock t lid w) = lw_frames w"
  "lw_depth (release_thread_lock t lid w) = lw_depth w"
  "lw_flock (release_thread_lock t lid w) = lw_flock w"
  "lw_sidecar (release_thread_lock t lid w) = lw_sidecar w"
  "lw_next_inode (release_thread_lock t lid w) = lw_next_inode w"
  by (simp_all add: release_thread_lock_def split: option.split)


lemma at_work_inside: "at_work ((k, ph) # fs) \<longleftrightarrow> (\<exists>lid h. ph = Inside lid h)"
  by (auto simp: at_work_def split: phase.splits)

lemma depth_in_push: "depth_in ((k', ph) # fs) k =
    depth_in fs k + (if k' = k \<and> (\<exists>lid h. ph = Inside lid h) then 1 else 0)"
  by (cases ph) simp_all

lemma depth_agreesI:
  assumes "depth_agrees w" "\<And>t'. t' \<noteq> t \<Longrightarrow> lw_frames w' t' = lw_frames w t'"
    "\<And>t'. t' \<noteq> t \<Longrightarrow> lw_depth w' t' = lw_depth w t'"
    "stack_ok (lw_frames w' t)" "\<And>k. lw_depth w' t k = depth_in (lw_frames w' t) k"
  shows "depth_agrees w'"
  using assms unfolding depth_agrees_def by metis

lemma depth_agreesD:
  assumes "depth_agrees w"
  shows "stack_ok (lw_frames w t)" "lw_depth w t k = depth_in (lw_frames w t) k"
  using assms unfolding depth_agrees_def by blast+

text \<open>What each action does, read off the definitions once.\<close>

inductive lock_effect :: "platform \<Rightarrow> thread \<Rightarrow> lock_world \<Rightarrow> lock_world \<Rightarrow> bool" for pf t w where
  eff_begin: "at_work (lw_frames w t) \<Longrightarrow> lock_for_key pf t k w = (lid, w1) \<Longrightarrow>
    lock_effect pf t w (push_frame t (k, Looked lid) w1)"
| eff_acquire: "lw_frames w t = (k, Looked lid) # fs \<Longrightarrow> can_acquire w t lid \<Longrightarrow>
    lock_effect pf t w (set_phase t (Holding lid)
      (w\<lparr>lw_owner := (lw_owner w)(lid \<mapsto> (t, Suc (case lw_owner w lid of None \<Rightarrow> 0 | Some (t', n) \<Rightarrow> n)))\<rparr>))"
| eff_give_up: "lw_frames w t = (k, Looked lid) # fs \<Longrightarrow> lock_effect pf t w (pop_frame t w)"
| eff_nested: "lw_frames w t = (k, Holding lid) # fs \<Longrightarrow> 0 < lw_depth w t k \<Longrightarrow>
    lock_effect pf t w (set_depth t k (Suc (lw_depth w t k)) (set_phase t (Inside lid Nested) w))"
| eff_no_fcntl: "lw_frames w t = (k, Holding lid) # fs \<Longrightarrow> lw_depth w t k = 0 \<Longrightarrow> \<not> pf_fcntl pf \<Longrightarrow>
    lock_effect pf t w (set_depth t k (Suc 0) (set_phase t (Inside lid InProcess) w))"
| eff_open: "lw_frames w t = (k, Holding lid) # fs \<Longrightarrow> lw_depth w t k = 0 \<Longrightarrow> pf_fcntl pf \<Longrightarrow>
    lw_sidecar w k = Some i \<Longrightarrow> lock_effect pf t w (set_phase t (Opened lid i) w)"
| eff_create: "lw_frames w t = (k, Holding lid) # fs \<Longrightarrow> lw_depth w t k = 0 \<Longrightarrow> pf_fcntl pf \<Longrightarrow>
    lw_sidecar w k = None \<Longrightarrow> lock_effect pf t w (set_phase t (Opened lid (lw_next_inode w))
      (w\<lparr>lw_sidecar := (lw_sidecar w)(k \<mapsto> lw_next_inode w), lw_next_inode := Suc (lw_next_inode w)\<rparr>))"
| eff_flock: "lw_frames w t = (k, Opened lid i) # fs \<Longrightarrow> lw_flock w i = None \<Longrightarrow>
    lock_effect pf t w (set_depth t k (Suc 0) (set_phase t (Inside lid (Flocked i)) (w\<lparr>lw_flock := (lw_flock w)(i \<mapsto> t)\<rparr>)))"
| eff_degrade: "lw_frames w t = (k, Opened lid i) # fs \<Longrightarrow> pf_degrade pf \<Longrightarrow>
    lock_effect pf t w (set_depth t k (Suc 0) (set_phase t (Inside lid InProcess) w))"
| eff_unavailable: "lw_frames w t = (k, Opened lid i) # fs \<Longrightarrow> \<not> pf_degrade pf \<Longrightarrow>
    lock_effect pf t w (pop_frame t (release_thread_lock t lid w))"
| eff_leave: "lw_frames w t = (k, Inside lid h) # fs \<Longrightarrow>
    lock_effect pf t w (pop_frame t (release_thread_lock t lid
      (case h of
         Nested \<Rightarrow> set_depth t k (lw_depth w t k - 1) w
       | InProcess \<Rightarrow> set_depth t k 0 w
       | Flocked i \<Rightarrow> set_depth t k 0 (w\<lparr>lw_flock := (lw_flock w)(i := None)\<rparr>))))"

lemma lock_act_effect:
  assumes "lock_act pf t a w = Some w'"
  shows "lock_effect pf t w w'"
proof (cases a)
  case (Begin k)
  with assms show ?thesis
    by (auto simp: begin_lock_def split: if_splits prod.splits intro: eff_begin)
next
  case AcquireThread
  with assms show ?thesis
    by (auto simp: acquire_thread_lock_def Let_def split: if_splits list.splits prod.splits phase.splits
        intro: eff_acquire)
next
  case GiveUp
  with assms show ?thesis
    by (auto simp: give_up_def split: list.splits prod.splits phase.splits intro: eff_give_up)
next
  case EnterSidecar
  with assms show ?thesis
    by (auto simp: enter_sidecar_def Let_def split: if_splits list.splits prod.splits phase.splits option.splits
        intro: eff_nested eff_no_fcntl eff_open eff_create)
next
  case TakeFlock
  with assms show ?thesis
    by (auto simp: take_flock_def split: if_splits list.splits prod.splits phase.splits intro: eff_flock)
next
  case FlockUnsupported
  with assms show ?thesis
    by (auto simp: flock_unsupported_def split: if_splits list.splits prod.splits phase.splits
        intro: eff_degrade eff_unavailable)
next
  case Leave
  with assms show ?thesis
    by (auto simp: leave_lock_def split: list.splits prod.splits phase.splits intro: eff_leave)
qed

lemma depth_agrees_act:
  assumes "lock_act pf t a w = Some w'" "depth_agrees w"
  shows "depth_agrees w'"
proof -
  note inv = depth_agreesD[OF assms(2), of t]
  from lock_act_effect[OF assms(1)] show ?thesis
  proof cases
    case (eff_begin k lid w1)
    then have "lw_frames w1 = lw_frames w" "lw_depth w1 = lw_depth w"
      using lock_for_key_keeps[of pf t k w] by simp_all
    with eff_begin inv show ?thesis
      by (intro depth_agreesI[OF assms(2), of t]) (auto simp: lock_step_defs)
  next
    case (eff_leave k lid h fs)
    with inv show ?thesis
      by (intro depth_agreesI[OF assms(2), of t])
        (auto simp: pop_frame_def set_depth_def depth_in_push split: hold.splits)
  qed (intro depth_agreesI[OF assms(2), of t];
       use inv in \<open>auto simp: pop_frame_def set_depth_def set_phase_def at_work_inside depth_in_push split: if_splits\<close>)+
qed

lemma reach_depth_agrees: "reach pf sweeps w \<Longrightarrow> depth_agrees w"
proof (induction rule: reach.induct)
  case reach_init
  show ?case by (simp add: depth_agrees_def initial_locks_def)
next
  case (reach_act w t a w')
  then show ?case using depth_agrees_act by blast
next
  case (reach_sweep w ks)
  then show ?case by (simp add: depth_agrees_def sweep_lock_sidecars_def)
qed

subsection \<open>Inodes and the flocks on them\<close>

fun inode_of :: "phase \<Rightarrow> nat option" where
  "inode_of (Opened lid i) = Some i"
| "inode_of (Inside lid (Flocked i)) = Some i"
| "inode_of ph = None"

definition names_inode :: "lock_world \<Rightarrow> nat \<Rightarrow> string \<Rightarrow> bool" where
  "names_inode w i k \<longleftrightarrow> lw_sidecar w k = Some i \<or> (\<exists>t ph. (k, ph) \<in> set (lw_frames w t) \<and> inode_of ph = Some i)"

definition inodes_ok :: "lock_world \<Rightarrow> bool" where
  "inodes_ok w \<longleftrightarrow> (\<forall>i k. names_inode w i k \<longrightarrow> i < lw_next_inode w \<and> (\<forall>k'. names_inode w i k' \<longrightarrow> k' = k))"

definition flocks_ok :: "lock_world \<Rightarrow> bool" where
  "flocks_ok w \<longleftrightarrow> (\<forall>i t. lw_flock w i = Some t \<longleftrightarrow> (\<exists>k lid. (k, Inside lid (Flocked i)) \<in> set (lw_frames w t)))"

lemma inodes_ok_mono:
  assumes "inodes_ok w" "lw_next_inode w \<le> lw_next_inode w'"
    "\<And>i k. names_inode w' i k \<Longrightarrow> names_inode w i k"
  shows "inodes_ok w'"
  using assms unfolding inodes_ok_def by (metis order_less_le_trans)

lemma inodes_ok_fresh:
  assumes "inodes_ok w" "lw_next_inode w' = Suc (lw_next_inode w)"
    "\<And>i k. names_inode w' i k \<Longrightarrow> names_inode w i k \<or> i = lw_next_inode w \<and> k = k0"
  shows "inodes_ok w'"
  using assms unfolding inodes_ok_def by (metis less_SucI less_Suc_eq nat_neq_iff)

text \<open>A phase in the innermost frame names only inodes the page's sidecar or an old frame named.\<close>

definition same_inodes :: "thread \<Rightarrow> lock_world \<Rightarrow> lock_world \<Rightarrow> bool" where
  "same_inodes t w w' \<longleftrightarrow> (\<forall>k ph i. (k, ph) \<in> set (lw_frames w' t) \<longrightarrow> inode_of ph = Some i \<longrightarrow>
     lw_sidecar w k = Some i \<or> (\<exists>ph'. (k, ph') \<in> set (lw_frames w t) \<and> inode_of ph' = Some i))"

lemma names_inode_frames:
  assumes "lw_sidecar w' = lw_sidecar w" "\<And>t'. t' \<noteq> t \<Longrightarrow> lw_frames w' t' = lw_frames w t'" "same_inodes t w w'"
  shows "names_inode w' i k \<Longrightarrow> names_inode w i k"
  using assms unfolding names_inode_def same_inodes_def by metis

lemma inodes_ok_same:
  assumes "inodes_ok w" "lw_sidecar w' = lw_sidecar w" "lw_next_inode w' = lw_next_inode w"
    "\<And>t'. t' \<noteq> t \<Longrightarrow> lw_frames w' t' = lw_frames w t'" "same_inodes t w w'"
  shows "inodes_ok w'"
  using names_inode_frames[OF assms(2,4,5)] assms(3) by (intro inodes_ok_mono[OF assms(1)]) auto

lemma inodes_ok_act:
  assumes "lock_act pf t a w = Some w'" "inodes_ok w"
  shows "inodes_ok w'"
  using lock_act_effect[OF assms(1)]
proof cases
  case (eff_begin k lid w1)
  then have "lw_frames w1 = lw_frames w" "lw_sidecar w1 = lw_sidecar w" "lw_next_inode w1 = lw_next_inode w"
    using lock_for_key_keeps[of pf t k w] by simp_all
  with eff_begin show ?thesis
    by (intro inodes_ok_same[OF assms(2), of _ t]) (auto simp: push_frame_def same_inodes_def)
next
  case (eff_create k lid fs)
  have tail: "\<exists>t ph. (k', ph) \<in> set (lw_frames w t) \<and> inode_of ph = Some i"
    if "(k', ph) \<in> set fs" "inode_of ph = Some i" for k' ph i
    using that eff_create(2) by (intro exI[of _ t] exI[of _ ph]) simp
  from eff_create show ?thesis
    by (intro inodes_ok_fresh[OF assms(2), where ?k0.0 = k])
      (auto simp: set_phase_def names_inode_def split: if_splits dest: tail)
next
  case (eff_leave k lid h fs)
  then show ?thesis
    by (intro inodes_ok_same[OF assms(2), of _ t])
      (auto simp: pop_frame_def set_depth_def same_inodes_def split: hold.splits)
qed (rule inodes_ok_same[OF assms(2), of _ t];
     auto simp: pop_frame_def set_depth_def set_phase_def same_inodes_def split: if_splits)+

lemma depth_in_pos: "0 < depth_in fs k \<longleftrightarrow> (\<exists>lid h. (k, Inside lid h) \<in> set fs)"
  by (induction fs k rule: depth_in.induct) auto

lemma flocks_okI:
  assumes "flocks_ok w" "\<And>t'. t' \<noteq> t \<Longrightarrow> lw_frames w' t' = lw_frames w t'" "lw_flock w' = lw_flock w"
    "\<And>k lid i. (k, Inside lid (Flocked i)) \<in> set (lw_frames w' t) \<longleftrightarrow> (k, Inside lid (Flocked i)) \<in> set (lw_frames w t)"
  shows "flocks_ok w'"
  using assms unfolding flocks_ok_def by metis

lemma flocks_ok_leave:
  assumes "flocks_ok w" "inodes_ok w" "depth_agrees w" "lw_frames w t = (k, Inside lid (Flocked i)) # fs"
    "lw_frames w' = (lw_frames w)(t := fs)" "lw_flock w' = (lw_flock w)(i := None)"
  shows "flocks_ok w'"
proof -
  have mine: "lw_flock w i = Some t"
    using assms(1,4) unfolding flocks_ok_def by (metis list.set_intros(1))
  have gone: "(k', Inside lid' (Flocked i)) \<notin> set (lw_frames w' t')" for k' lid' t'
  proof
    assume in': "(k', Inside lid' (Flocked i)) \<in> set (lw_frames w' t')"
    then have in_w: "(k', Inside lid' (Flocked i)) \<in> set (lw_frames w t')"
      using assms(4,5) by (auto split: if_splits)
    then have "t' = t"
      using assms(1) mine unfolding flocks_ok_def by (metis option.inject)
    with in' have fs: "(k', Inside lid' (Flocked i)) \<in> set fs"
      using assms(5) by simp
    have "names_inode w i k" "names_inode w i k'"
      unfolding names_inode_def using assms(4) in_w by (metis inode_of.simps(2) list.set_intros(1))+
    then have "k' = k"
      using assms(2) by (auto simp: inodes_ok_def)
    with fs have "0 < depth_in fs k"
      by (auto simp: depth_in_pos)
    then show False
      using depth_agreesD(1)[OF assms(3), of t] assms(4) by simp
  qed
  show ?thesis
    unfolding flocks_ok_def
  proof (intro allI)
    fix j t'
    show "lw_flock w' j = Some t' \<longleftrightarrow> (\<exists>k lid. (k, Inside lid (Flocked j)) \<in> set (lw_frames w' t'))"
    proof (cases "j = i")
      case True
      then show ?thesis using gone assms(6) by auto
    next
      case False
      then have "(\<exists>k lid. (k, Inside lid (Flocked j)) \<in> set (lw_frames w' t')) \<longleftrightarrow>
          (\<exists>k lid. (k, Inside lid (Flocked j)) \<in> set (lw_frames w t'))"
        using assms(4,5) by auto
      with False assms(1,6) show ?thesis
        unfolding flocks_ok_def by auto
    qed
  qed
qed

lemma flocks_ok_act:
  assumes "lock_act pf t a w = Some w'" "flocks_ok w" "inodes_ok w" "depth_agrees w"
  shows "flocks_ok w'"
  using lock_act_effect[OF assms(1)]
proof cases
  case (eff_begin k lid w1)
  then have "lw_frames w1 = lw_frames w" "lw_flock w1 = lw_flock w"
    using lock_for_key_keeps[of pf t k w] by simp_all
  with eff_begin show ?thesis
    by (intro flocks_okI[OF assms(2), of t]) (auto simp: push_frame_def)
next
  case (eff_flock k lid i fs)
  have frames: "lw_frames w' = (lw_frames w)(t := (k, Inside lid (Flocked i)) # fs)"
    and flock: "lw_flock w' = (lw_flock w)(i \<mapsto> t)"
    using eff_flock by (simp_all add: set_phase_def set_depth_def)
  have none: "(k', Inside lid' (Flocked i)) \<notin> set (lw_frames w t')" for k' lid' t'
    using assms(2) eff_flock(3) unfolding flocks_ok_def by (metis option.distinct(1))
  show ?thesis
    unfolding flocks_ok_def frames flock using assms(2) none eff_flock(2)
    by (auto simp: flocks_ok_def split: if_splits)
next
  case (eff_leave k lid h fs)
  show ?thesis
  proof (cases h)
    case (Flocked i)
    with eff_leave show ?thesis
      by (intro flocks_ok_leave[OF assms(2-4), of t k lid i fs]) (simp_all add: pop_frame_def set_depth_def)
  qed (use eff_leave in \<open>auto intro!: flocks_okI[OF assms(2), of t] simp: pop_frame_def set_depth_def\<close>)
qed (rule flocks_okI[OF assms(2), of t]; auto simp: pop_frame_def set_depth_def set_phase_def split: if_splits)+

lemma reach_inodes_ok: "reach pf sweeps w \<Longrightarrow> inodes_ok w"
proof (induction rule: reach.induct)
  case reach_init
  show ?case by (simp add: inodes_ok_def names_inode_def initial_locks_def)
next
  case (reach_act w t a w')
  then show ?case using inodes_ok_act by blast
next
  case (reach_sweep w ks)
  then show ?case
    by (elim inodes_ok_mono) (auto simp: sweep_lock_sidecars_def names_inode_def split: if_splits)
qed

lemma reach_flocks_ok: "reach pf sweeps w \<Longrightarrow> flocks_ok w"
proof (induction rule: reach.induct)
  case reach_init
  show ?case by (simp add: flocks_ok_def initial_locks_def)
next
  case (reach_act w t a w')
  then show ?case using flocks_ok_act reach_inodes_ok reach_depth_agrees by blast
next
  case (reach_sweep w ks)
  then show ?case by (simp add: flocks_ok_def sweep_lock_sidecars_def)
qed

subsection \<open>Exclusion\<close>

text \<open>With a working \<open>flock\<close> and no sweep, every inode in use is still the one at its page's sidecar path.\<close>

definition frame_kept :: "lock_world \<Rightarrow> frame \<Rightarrow> bool" where
  "frame_kept w f \<longleftrightarrow> (\<forall>i. inode_of (snd f) = Some i \<longrightarrow> lw_sidecar w (fst f) = Some i) \<and>
     (\<forall>lid. snd f \<noteq> Inside lid InProcess)"

definition sidecars_kept :: "lock_world \<Rightarrow> bool" where
  "sidecars_kept w \<longleftrightarrow> (\<forall>t. list_all (frame_kept w) (lw_frames w t))"

lemma frame_kept_sidecar:
  "lw_sidecar w' = lw_sidecar w \<Longrightarrow> frame_kept w' = frame_kept w"
  by (auto simp: frame_kept_def fun_eq_iff)

lemma sidecars_kept_same:
  assumes "sidecars_kept w" "lw_sidecar w' = lw_sidecar w"
    "\<And>t'. t' \<noteq> t \<Longrightarrow> lw_frames w' t' = lw_frames w t'" "list_all (frame_kept w) (lw_frames w' t)"
  shows "sidecars_kept w'"
  using assms frame_kept_sidecar[OF assms(2)] unfolding sidecars_kept_def by metis

lemma sidecars_keptD: "sidecars_kept w \<Longrightarrow> lw_frames w t = fs \<Longrightarrow> list_all (frame_kept w) fs"
  by (auto simp: sidecars_kept_def)

lemma sidecars_kept_act:
  assumes "lock_act pf t a w = Some w'" "sidecars_kept w" "pf_fcntl pf" "\<not> pf_degrade pf"
  shows "sidecars_kept w'"
  using lock_act_effect[OF assms(1)]
proof cases
  case (eff_begin k lid w1)
  then have "lw_frames w1 = lw_frames w" "lw_sidecar w1 = lw_sidecar w"
    using lock_for_key_keeps[of pf t k w] by simp_all
  with eff_begin sidecars_keptD[OF assms(2) refl, of t] show ?thesis
    by (intro sidecars_kept_same[OF assms(2), of _ t]) (auto simp: push_frame_def frame_kept_def)
next
  case (eff_create k lid fs)
  have "frame_kept w f \<Longrightarrow> frame_kept w' f" for f
    using eff_create by (auto simp: frame_kept_def set_phase_def)
  then have mono: "list_all (frame_kept w) gs \<Longrightarrow> list_all (frame_kept w') gs" for gs
    by (simp add: list_all_iff)
  have frames: "lw_frames w' = (lw_frames w)(t := (k, Opened lid (lw_next_inode w)) # fs)"
    using eff_create by (simp add: set_phase_def)
  have new: "frame_kept w' (k, Opened lid (lw_next_inode w))"
    using eff_create by (simp add: set_phase_def frame_kept_def)
  have "list_all (frame_kept w) fs"
    using sidecars_keptD[OF assms(2) eff_create(2)] by simp
  then show ?thesis
    using mono new sidecars_keptD[OF assms(2) refl] by (auto simp: sidecars_kept_def frames)
next
  case (eff_leave k lid h fs)
  with sidecars_keptD[OF assms(2) eff_leave(2)] show ?thesis
    by (intro sidecars_kept_same[OF assms(2), of _ t])
      (auto simp: pop_frame_def set_depth_def split: hold.splits)
qed (rule sidecars_kept_same[OF assms(2), of _ t];
     use assms(3,4) sidecars_keptD[OF assms(2), of t] in
       \<open>fastforce simp: pop_frame_def set_depth_def set_phase_def frame_kept_def\<close>)+

lemma reach_sidecars_kept:
  assumes "pf_fcntl pf" "\<not> pf_degrade pf"
  shows "reach pf sweeps w \<Longrightarrow> \<not> sweeps \<Longrightarrow> sidecars_kept w"
proof (induction rule: reach.induct)
  case reach_init
  show ?case by (simp add: sidecars_kept_def initial_locks_def)
next
  case (reach_act w t a w')
  then show ?case using sidecars_kept_act assms by blast
qed simp

lemma outermost_section: "stack_ok fs \<Longrightarrow> 0 < depth_in fs k \<Longrightarrow>
    \<exists>lid h. (k, Inside lid h) \<in> set fs \<and> h \<noteq> Nested"
  by (induction fs k rule: depth_in.induct) (auto split: if_splits)

lemma inside_flocked:
  assumes "reach pf sweeps w" "sidecars_kept w" "inside w t k"
  obtains i where "lw_sidecar w k = Some i" "lw_flock w i = Some t"
proof -
  have "0 < depth_in (lw_frames w t) k"
    using assms(3) by (simp add: inside_def depth_in_pos)
  then obtain lid h where frame: "(k, Inside lid h) \<in> set (lw_frames w t)" "h \<noteq> Nested"
    using outermost_section depth_agreesD(1)[OF reach_depth_agrees[OF assms(1)]] by metis
  then have kept: "frame_kept w (k, Inside lid h)"
    using assms(2) by (auto simp: sidecars_kept_def list_all_iff)
  with frame(2) obtain i where h: "h = Flocked i"
    by (cases h) (auto simp: frame_kept_def)
  moreover have "lw_flock w i = Some t"
    using reach_flocks_ok[OF assms(1)] frame(1) h unfolding flocks_ok_def by blast
  ultimately show ?thesis
    using kept that by (auto simp: frame_kept_def)
qed

lemmas lock_run_defs = begin_lock_def acquire_thread_lock_def enter_sidecar_def take_flock_def leave_lock_def
  lock_for_key_def can_acquire_def at_work_def lock_step_defs MAX_PAGE_LOCK_REGISTRY_def sweep_lock_sidecars_def

lemma map_bind_eq_Some: "map_option f (Option.bind x g) = Some y \<Longrightarrow> \<exists>a b. x = Some a \<and> g a = Some b \<and> f b = y"
  by (auto split: bind_splits)

text \<open>
  C20. Page locks exclude. Where \<open>flock\<close> works and degradation is off, no run of any number of
  threads of any number of processes, with nested locking, giving up and registry eviction
  anywhere, puts two threads inside \<open>page_rmw_lock\<close> of the same page, as long as nothing
  unlinks sidecar files meanwhile.
\<close>

theorem page_lock_excludes:
  assumes "reach pf False w" "pf_fcntl pf" "\<not> pf_degrade pf" "inside w t k" "inside w t' k"
  shows "t = t'"
proof -
  have kept: "sidecars_kept w"
    using reach_sidecars_kept[OF assms(2,3,1)] by simp
  obtain i j where "lw_sidecar w k = Some i" "lw_flock w i = Some t" "lw_sidecar w k = Some j" "lw_flock w j = Some t'"
    using inside_flocked[OF assms(1) kept assms(4)] inside_flocked[OF assms(1) kept assms(5)] by metis
  then show ?thesis by simp
qed

lemma page_lock_excludes_witness:
  "\<exists>w. run_locks \<lparr>pf_fcntl = True, pf_degrade = False, pf_rlock_probe = True\<rparr>
      [(Thread 0 0, Begin ''p''), (Thread 1 0, Begin ''p''), (Thread 0 0, AcquireThread), (Thread 1 0, AcquireThread),
       (Thread 0 0, EnterSidecar), (Thread 1 0, EnterSidecar), (Thread 0 0, TakeFlock), (Thread 0 0, Begin ''p''),
       (Thread 0 0, AcquireThread), (Thread 0 0, EnterSidecar)] initial_locks = Some w \<and>
    inside w (Thread 0 0) ''p'' \<and> lw_depth w (Thread 0 0) ''p'' = 2 \<and>
    lock_act \<lparr>pf_fcntl = True, pf_degrade = False, pf_rlock_probe = True\<rparr> (Thread 1 0) TakeFlock w = None \<and>
    (\<forall>t. inside w t ''p'' \<longrightarrow> t = Thread 0 0)"
proof -
  let ?pf = "\<lparr>pf_fcntl = True, pf_degrade = False, pf_rlock_probe = True\<rparr>"
  let ?acts = "[(Thread 0 0, Begin ''p''), (Thread 1 0, Begin ''p''), (Thread 0 0, AcquireThread), (Thread 1 0, AcquireThread),
       (Thread 0 0, EnterSidecar), (Thread 1 0, EnterSidecar), (Thread 0 0, TakeFlock), (Thread 0 0, Begin ''p''),
       (Thread 0 0, AcquireThread), (Thread 0 0, EnterSidecar)]"
  have run: "map_option (\<lambda>w. (depth_in (lw_frames w (Thread 0 0)) ''p'', lw_depth w (Thread 0 0) ''p'',
      Option.is_none (take_flock (Thread 1 0) w))) (run_locks ?pf ?acts initial_locks) = Some (2, 2, True)"
    by (simp add: lock_run_defs initial_locks_def Let_def)
  then obtain w where w: "run_locks ?pf ?acts initial_locks = Some w"
    by blast
  have facts: "inside w (Thread 0 0) ''p''" "lw_depth w (Thread 0 0) ''p'' = 2" "take_flock (Thread 1 0) w = None"
    using run unfolding w by (simp_all add: inside_def Option.is_none_def flip: depth_in_pos)
  moreover have "t = Thread 0 0" if "inside w t ''p''" for t
    by (rule page_lock_excludes[OF run_locks_reach[OF w reach_init] _ _ that facts(1)]) simp_all
  ultimately show ?thesis
    unfolding lock_act.simps using w by blast
qed

text \<open>A sweep between two openings of the sidecar lets a second process in.\<close>

lemma sweep_breaks_exclusion:
  "\<exists>w. reach \<lparr>pf_fcntl = True, pf_degrade = False, pf_rlock_probe = True\<rparr> True w \<and>
     inside w (Thread 0 0) ''p'' \<and> inside w (Thread 1 0) ''p''"
proof -
  let ?pf = "\<lparr>pf_fcntl = True, pf_degrade = False, pf_rlock_probe = True\<rparr>"
  let ?enter = "\<lambda>t. [(t, Begin ''p''), (t, AcquireThread), (t, EnterSidecar), (t, TakeFlock)]"
  let ?sweep = "sweep_lock_sidecars [''p'']"
  have run: "map_option (\<lambda>w. (depth_in (lw_frames w (Thread 0 0)) ''p'', depth_in (lw_frames w (Thread 1 0)) ''p''))
      (Option.bind (run_locks ?pf (?enter (Thread 0 0)) initial_locks)
        (run_locks ?pf (?enter (Thread 1 0)) \<circ> ?sweep)) = Some (1, 1)"
    by (simp add: lock_run_defs initial_locks_def Let_def)
  then obtain w1 w2 where w1: "run_locks ?pf (?enter (Thread 0 0)) initial_locks = Some w1"
      and w2: "run_locks ?pf (?enter (Thread 1 0)) (?sweep w1) = Some w2"
      and both: "depth_in (lw_frames w2 (Thread 0 0)) ''p'' = 1" "depth_in (lw_frames w2 (Thread 1 0)) ''p'' = 1"
    using map_bind_eq_Some[OF run] unfolding prod.inject comp_apply by blast
  have "reach ?pf True w2"
    by (rule run_locks_reach[OF w2 reach_sweep[OF run_locks_reach[OF w1 reach_init]]]) simp
  then show ?thesis
    using both by (intro exI[of _ w2]) (simp add: inside_def flip: depth_in_pos)
qed

subsection \<open>Nothing stays locked\<close>

text \<open>The in-process lock a frame holds, and how often a stack holds one.\<close>

fun lock_of :: "phase \<Rightarrow> nat option" where
  "lock_of (Looked lid) = None"
| "lock_of (Holding lid) = Some lid"
| "lock_of (Opened lid i) = Some lid"
| "lock_of (Inside lid h) = Some lid"

fun holds :: "frame list \<Rightarrow> nat \<Rightarrow> nat" where
  "holds [] lid = 0"
| "holds ((k, ph) # fs) lid = (if lock_of ph = Some lid then Suc (holds fs lid) else holds fs lid)"

definition owned :: "lock_world \<Rightarrow> thread \<Rightarrow> nat \<Rightarrow> nat" where
  "owned w t lid = (case lw_owner w lid of Some (t', n) \<Rightarrow> (if t' = t then n else 0) | None \<Rightarrow> 0)"

definition owners_ok :: "lock_world \<Rightarrow> bool" where
  "owners_ok w \<longleftrightarrow> (\<forall>t lid. holds (lw_frames w t) lid = owned w t lid) \<and> (\<forall>lid t. lw_owner w lid \<noteq> Some (t, 0))"

lemma owned_acquire:
  assumes "can_acquire w t lid"
    "lw_owner w' = (lw_owner w)(lid \<mapsto> (t, Suc (case lw_owner w lid of None \<Rightarrow> 0 | Some (t', n) \<Rightarrow> n)))"
  shows "owned w' t' lid' = (if t' = t \<and> lid' = lid then Suc (owned w t lid) else owned w t' lid')"
  using assms by (auto simp: owned_def can_acquire_def split: option.splits)

lemma owned_release:
  "owned (release_thread_lock t lid w) t' lid' =
     (if t' = t \<and> lid' = lid then owned w t lid - 1 else owned w t' lid')"
  by (auto simp: owned_def release_thread_lock_def split: option.splits)

lemma release_keeps_positive:
  "\<forall>lid t. lw_owner w lid \<noteq> Some (t, 0) \<Longrightarrow> lw_owner (release_thread_lock t lid w) lid' \<noteq> Some (t', 0)"
  by (auto simp: release_thread_lock_def split: option.splits)

lemma owners_okI:
  assumes "owners_ok w" "\<And>t'. t' \<noteq> t \<Longrightarrow> lw_frames w' t' = lw_frames w t'" "lw_owner w' = lw_owner w"
    "\<And>lid. holds (lw_frames w' t) lid = holds (lw_frames w t) lid"
  shows "owners_ok w'"
  using assms unfolding owners_ok_def owned_def by metis

lemma owners_ok_released:
  assumes "owners_ok w" "lw_frames w t = (k, ph) # fs" "lock_of ph = Some lid"
    "lw_owner w' = lw_owner (release_thread_lock t lid w)" "lw_frames w' = (lw_frames w)(t := fs)"
  shows "owners_ok w'"
proof -
  have "owned w' t' lid' = (if t' = t \<and> lid' = lid then owned w t lid - 1 else owned w t' lid')" for t' lid'
    using owned_release[of t lid w t' lid'] assms(4) by (simp add: owned_def)
  moreover have "holds (lw_frames w t') lid' = owned w t' lid'" for t' lid'
    using assms(1) by (simp add: owners_ok_def)
  moreover have "holds (lw_frames w t) lid' = (if lid' = lid then Suc (holds fs lid') else holds fs lid')" for lid'
    using assms(2,3) by simp
  ultimately show ?thesis
    using assms(1,4,5) release_keeps_positive[of w t lid] unfolding owners_ok_def
    by (metis diff_Suc_1 fun_upd_other fun_upd_same)
qed

lemma owners_ok_act:
  assumes "lock_act pf t a w = Some w'" "owners_ok w"
  shows "owners_ok w'"
  using lock_act_effect[OF assms(1)]
proof cases
  case (eff_begin k lid w1)
  then have "lw_frames w1 = lw_frames w" "lw_owner w1 = lw_owner w"
    using lock_for_key_keeps[of pf t k w] by simp_all
  with eff_begin show ?thesis
    by (intro owners_okI[OF assms(2), of t]) (auto simp: push_frame_def)
next
  case (eff_acquire k lid fs)
  have owner: "lw_owner w' = (lw_owner w)(lid \<mapsto> (t, Suc (case lw_owner w lid of None \<Rightarrow> 0 | Some (t', n) \<Rightarrow> n)))"
    and frames: "lw_frames w' = (lw_frames w)(t := (k, Holding lid) # fs)"
    using eff_acquire by (simp_all add: set_phase_def)
  have "holds (lw_frames w' t') lid' = owned w' t' lid'" for t' lid'
    using assms(2) eff_acquire(2) unfolding owned_acquire[OF eff_acquire(3) owner] owners_ok_def
    by (cases "t' = t") (auto simp: frames split: if_splits dest: spec[of _ t])
  then show ?thesis
    using assms(2) owner unfolding owners_ok_def by auto
next
  case (eff_unavailable k lid i fs)
  then show ?thesis
    by (intro owners_ok_released[OF assms(2), of t k "Opened lid i" fs lid]) (simp_all add: pop_frame_def)
next
  case (eff_leave k lid h fs)
  then show ?thesis
    by (intro owners_ok_released[OF assms(2), of t k "Inside lid h" fs lid])
      (simp_all add: pop_frame_def set_depth_def release_thread_lock_def split: hold.splits option.splits)
qed (rule owners_okI[OF assms(2), of t]; auto simp: pop_frame_def set_depth_def set_phase_def split: if_splits)+

lemma reach_owners_ok: "reach pf sweeps w \<Longrightarrow> owners_ok w"
proof (induction rule: reach.induct)
  case reach_init
  show ?case by (simp add: owners_ok_def owned_def initial_locks_def)
next
  case (reach_act w t a w')
  then show ?case using owners_ok_act by blast
next
  case (reach_sweep w ks)
  then show ?case by (simp add: owners_ok_def owned_def sweep_lock_sidecars_def)
qed

text \<open>What a thread that is alone finds: no lock and no \<open>flock\<close> of another thread.\<close>

lemma alone_can_acquire:
  assumes "reach pf sweeps w" "\<And>t'. t' \<noteq> t \<Longrightarrow> lw_frames w t' = []"
  shows "can_acquire w t lid"
proof (cases "lw_owner w lid")
  case (Some o')
  obtain t' n where o': "o' = (t', n)" by (cases o')
  have "owned w t' lid = n" "n \<noteq> 0"
    using reach_owners_ok[OF assms(1)] Some o' by (auto simp: owned_def owners_ok_def intro: gr0I)
  then have "holds (lw_frames w t') lid \<noteq> 0"
    using reach_owners_ok[OF assms(1)] by (simp add: owners_ok_def)
  then have "t' = t"
    using assms(2)[of t'] by (cases "t' = t") auto
  then show ?thesis
    using Some o' by (simp add: can_acquire_def)
qed (simp add: can_acquire_def)

lemma alone_can_flock:
  assumes "reach pf sweeps w" "\<And>t'. t' \<noteq> t \<Longrightarrow> lw_frames w t' = []" "lw_frames w t = (k, Opened lid i) # fs"
  shows "lw_flock w i = None"
proof (rule ccontr)
  assume "lw_flock w i \<noteq> None"
  then obtain t' where "lw_flock w i = Some t'" by blast
  then obtain k' lid' where in': "(k', Inside lid' (Flocked i)) \<in> set (lw_frames w t')"
    using reach_flocks_ok[OF assms(1)] unfolding flocks_ok_def by blast
  then have t': "t' = t"
    using assms(2)[of t'] by (cases "t' = t") auto
  have "names_inode w i k'" "names_inode w i k"
    using in' assms(3) unfolding names_inode_def t' by (metis inode_of.simps list.set_intros(1))+
  then have "k' = k"
    using reach_inodes_ok[OF assms(1)] by (auto simp: inodes_ok_def)
  then have "0 < depth_in fs k"
    using in' assms(3) by (auto simp: t' depth_in_pos)
  then show False
    using depth_agreesD(1)[OF reach_depth_agrees[OF assms(1)], of t] assms(3) by simp
qed

lemma begin_alone:
  assumes "at_work (lw_frames w t)"
  obtains w' lid where "lock_act pf t (Begin k) w = Some w'"
    "lw_frames w' = (lw_frames w)(t := (k, Looked lid) # lw_frames w t)"
proof -
  obtain lid w1 where look: "lock_for_key pf t k w = (lid, w1)"
    by (cases "lock_for_key pf t k w")
  then have "lw_frames w1 = lw_frames w"
    using lock_for_key_keeps(1)[of pf t k w] by simp
  with look assms that[of "push_frame t (k, Looked lid) w1" lid] show ?thesis
    by (simp add: begin_lock_def push_frame_def)
qed

lemma acquire_alone:
  assumes "lw_frames w t = (k, Looked lid) # fs" "can_acquire w t lid"
  obtains w' where "lock_act pf t AcquireThread w = Some w'"
    "lw_frames w' = (lw_frames w)(t := (k, Holding lid) # fs)"
  using assms that by (simp add: acquire_thread_lock_def Let_def set_phase_def)

lemma sidecar_alone:
  assumes "lw_frames w t = (k, Holding lid) # fs"
  obtains w' ph where "lock_act pf t EnterSidecar w = Some w'"
    "lw_frames w' = (lw_frames w)(t := (k, ph) # fs)" "(\<exists>h. ph = Inside lid h) \<or> (\<exists>i. ph = Opened lid i)"
proof -
  consider "0 < lw_depth w t k" | "lw_depth w t k = 0" "\<not> pf_fcntl pf"
    | "lw_depth w t k = 0" "pf_fcntl pf" "lw_sidecar w k = None"
    | i where "lw_depth w t k = 0" "pf_fcntl pf" "lw_sidecar w k = Some i"
    by fastforce
  then have "\<exists>w' ph. lock_act pf t EnterSidecar w = Some w' \<and> lw_frames w' = (lw_frames w)(t := (k, ph) # fs) \<and>
      ((\<exists>h. ph = Inside lid h) \<or> (\<exists>i. ph = Opened lid i))"
    by cases (auto simp: assms enter_sidecar_def Let_def set_phase_def set_depth_def)
  then show ?thesis using that by blast
qed

lemma flock_alone:
  assumes "lw_frames w t = (k, Opened lid i) # fs" "lw_flock w i = None"
  obtains w' where "lock_act pf t TakeFlock w = Some w'"
    "lw_frames w' = (lw_frames w)(t := (k, Inside lid (Flocked i)) # fs)"
  using assms that by (simp add: take_flock_def set_phase_def set_depth_def)

text \<open>
  Locks are not leaked. After any run of any threads - nested sections, failed
  acquisitions, registry evictions and sweeps included - a thread that no other thread now
  competes with gets into the section of any page by its own next three or four actions,
  whether it already is inside that page or not. So no lock, \<open>flock\<close> or depth count stays
  behind when a section ends or an acquisition fails, and nesting never blocks itself.
\<close>

theorem free_lock_enters:
  assumes "reach pf sweeps w" "\<And>t'. t' \<noteq> t \<Longrightarrow> lw_frames w t' = []" "at_work (lw_frames w t)"
  shows "\<exists>acts w' lid h. length acts \<le> 4 \<and> run_locks pf (map (Pair t) acts) w = Some w' \<and>
    lw_frames w' t = (k, Inside lid h) # lw_frames w t"
proof -
  obtain w1 lid where s1: "lock_act pf t (Begin k) w = Some w1"
    and f1: "lw_frames w1 = (lw_frames w)(t := (k, Looked lid) # lw_frames w t)"
    using begin_alone[OF assms(3)] by metis
  have r1: "reach pf sweeps w1" using assms(1) s1 by (rule reach_act)
  have "can_acquire w1 t lid"
    using r1 by (rule alone_can_acquire) (simp add: f1 assms(2))
  then obtain w2 where s2: "lock_act pf t AcquireThread w1 = Some w2"
    and f2: "lw_frames w2 = (lw_frames w)(t := (k, Holding lid) # lw_frames w t)"
    using acquire_alone[of w1 t k lid] f1 by (metis fun_upd_same fun_upd_upd)
  have r2: "reach pf sweeps w2" using r1 s2 by (rule reach_act)
  obtain w3 ph where s3: "lock_act pf t EnterSidecar w2 = Some w3"
    and f3: "lw_frames w3 = (lw_frames w)(t := (k, ph) # lw_frames w t)"
    and ph: "(\<exists>h. ph = Inside lid h) \<or> (\<exists>i. ph = Opened lid i)"
    using sidecar_alone[of w2 t k lid] f2 by (metis fun_upd_same fun_upd_upd)
  from ph show ?thesis
  proof (elim disjE exE)
    fix h assume "ph = Inside lid h"
    with s1 s2 s3 f3 show ?thesis
      by (intro exI[of _ "[Begin k, AcquireThread, EnterSidecar]"] exI[of _ w3]) simp
  next
    fix i assume ph: "ph = Opened lid i"
    have "reach pf sweeps w3" using r2 s3 by (rule reach_act)
    then have "lw_flock w3 i = None"
      by (rule alone_can_flock[where t = t]) (simp_all add: f3 ph assms(2))
    then obtain w4 where "lock_act pf t TakeFlock w3 = Some w4"
      "lw_frames w4 = (lw_frames w)(t := (k, Inside lid (Flocked i)) # lw_frames w t)"
      using flock_alone[of w3 t k lid i] f3 ph by (metis fun_upd_same fun_upd_upd)
    with s1 s2 s3 show ?thesis
      by (intro exI[of _ "[Begin k, AcquireThread, EnterSidecar, TakeFlock]"] exI[of _ w4]) simp
  qed
qed

lemma free_lock_enters_witness:
  "\<exists>acts w' lid h. length acts \<le> 4 \<and>
     run_locks \<lparr>pf_fcntl = True, pf_degrade = False, pf_rlock_probe = True\<rparr> (map (Pair (Thread 0 0)) acts) initial_locks = Some w' \<and>
     lw_frames w' (Thread 0 0) = [(''p'', Inside lid h)]"
proof -
  have "lw_frames initial_locks t = []" for t
    by (simp add: initial_locks_def)
  then show ?thesis
    using free_lock_enters[where t = "Thread 0 0" and k = "''p''" and sweeps = False,
        OF reach_init[of "\<lparr>pf_fcntl = True, pf_degrade = False, pf_rlock_probe = True\<rparr>"]]
    by (simp add: at_work_def)
qed

text \<open>
  Without \<open>fcntl\<close> only the registry keeps two threads of a process apart, and an eviction between
  a thread's lookup and its acquisition gives the next thread another lock.
\<close>

lemma eviction_splits_page_lock:
  assumes "lw_registry w p = (k, lid) # reg" "MAX_PAGE_LOCK_REGISTRY \<le> int (length reg) + 1"
    "lw_owner w lid = None" "lid < lw_next_lock w" "k' \<notin> fst ` set reg" "k \<notin> fst ` set reg" "k' \<noteq> k"
  shows "fst (lock_for_key pf (Thread p a) k w) = lid"
    "lid < fst (lock_for_key pf (Thread p c) k (snd (lock_for_key pf (Thread p b) k' w)))"
proof -
  have none: "map_of reg k' = None" "map_of reg k = None"
    using assms(5,6) by (simp_all add: map_of_eq_None_iff)
  show "fst (lock_for_key pf (Thread p a) k w) = lid"
    using assms(1) by (simp add: lock_for_key_def Let_def)
  have "lw_registry (snd (lock_for_key pf (Thread p b) k' w)) p = reg @ [(k', lw_next_lock w)]"
    "lw_next_lock (snd (lock_for_key pf (Thread p b) k' w)) = lw_next_lock w + 1"
    using assms none by (simp_all add: lock_for_key_def Let_def lock_is_held_def can_acquire_def)
  then show "lid < fst (lock_for_key pf (Thread p c) k (snd (lock_for_key pf (Thread p b) k' w)))"
    using assms(4,7) none by (simp add: lock_for_key_def Let_def map_add_def split: option.split)
qed

end
