(* ===== verification/Backlinks.thy ===== *)
theory Backlinks
  imports PropEdit Reparent AliasIndex
begin

section \<open>Wikilinks and backlink sections\<close>

text \<open>
  Model of \<open>src/agent/plumber_modules/backlink_backpropagator.py\<close>: after a correction added a
  link to a page, a section with the context is inserted into, or updated in, the linked page.
  The pages under \<open>pages/\<close> are given by their titles in the order of the walk (\<open>titles\<close>), the
  cached alias index by \<open>idx\<close>. The arrow of a generated summary is written as its UTF-8 bytes.
  Each page is one locked read and conditional write; the calls that patch the caches after it
  are recorded as the list of modified pages.
\<close>

subsection \<open>Wikilinks\<close>

text \<open>\<open>\[\[([^\]#|]+)(?:\|[^\]]+)?\]\]\<close> at the start of a text: the target and the length of the match.\<close>

definition wikilink_at :: "string \<Rightarrow> (string \<times> nat) option" where
  "wikilink_at s =
     (if \<not> startswith s ''[['' then None
      else let target = takeWhile (\<lambda>c. c \<notin> {CHR '']'', CHR ''#'', CHR ''|''}) (drop 2 s);
               r = drop (2 + length target) s
           in if target = [] then None
              else if startswith r '']]'' then Some (target, length target + 4)
              else if startswith r ''|'' then
                (let label = takeWhile (\<lambda>c. c \<noteq> CHR '']'') (tl r)
                 in if label \<noteq> [] \<and> startswith (drop (length label) (tl r)) '']]''
                    then Some (target, length target + length label + 5) else None)
              else None)"

lemma wikilink_at_length: "wikilink_at s = Some (t, n) \<Longrightarrow> 0 < n"
  by (auto simp: wikilink_at_def Let_def split: if_splits)

text \<open>\<open>finditer\<close>: the targets as written.\<close>

function wikilink_targets :: "string \<Rightarrow> string list" where
  "wikilink_targets [] = []"
| "wikilink_targets (c # s) =
     (case wikilink_at (c # s) of
        None \<Rightarrow> wikilink_targets s
      | Some (t, n) \<Rightarrow> t # wikilink_targets (drop n (c # s)))"
  by pat_completeness auto
termination
proof (relation "measure length", goal_cases)
  case (3 c s p t n)
  then have "0 < n" using wikilink_at_length [of "c # s" t n] by simp
  then show ?case by simp
qed simp_all

definition resolve_existing_page_title :: "string list \<Rightarrow> alias_index \<Rightarrow> string \<Rightarrow> string option" where
  "resolve_existing_page_title titles idx title =
     (case List.find (\<lambda>t. casefold t = casefold title) titles of
        Some t \<Rightarrow> Some t
      | None \<Rightarrow>
          (case en_title (resolve_entity idx title) of
             Some t \<Rightarrow> if t \<noteq> [] then Some t else None
           | None \<Rightarrow> None))"

definition page_file_exists :: "string list \<Rightarrow> alias_index \<Rightarrow> string \<Rightarrow> bool" where
  "page_file_exists titles idx title \<longleftrightarrow> resolve_existing_page_title titles idx title \<noteq> None"

definition resolve_page_path :: "world \<Rightarrow> path \<Rightarrow> string \<Rightarrow> path option" where
  "resolve_page_path w graph_root title =
     (case graph_safe_page_path w graph_root title of Inl _ \<Rightarrow> None | Inr p \<Rightarrow> Some p)"

subsection \<open>Corrections\<close>

datatype lint_type = AutoWikilink | TagHygiene | AnomalyWarning

fun lint_name :: "lint_type \<Rightarrow> string" where
  "lint_name AutoWikilink = ''auto_wikilink''"
| "lint_name TagHygiene = ''tag_hygiene''"
| "lint_name AnomalyWarning = ''anomaly_warning''"

record correction =
  co_uuid :: string
  co_original :: string
  co_corrected :: string
  co_lint :: lint_type
  co_reason :: string

fun add_links :: "alias_index option \<Rightarrow> string list \<Rightarrow> string list \<Rightarrow> string list \<Rightarrow> string list" where
  "add_links idx orig [] added = added"
| "add_links idx orig (m # ms) added =
     (let target = strip m
      in if target = [] \<or> target \<in> set orig then add_links idx orig ms added
         else let target = (case idx of None \<Rightarrow> target | Some i \<Rightarrow> resolve_canonical_page_title i target)
              in add_links idx orig ms (if target \<notin> set orig \<and> target \<notin> set added then added @ [target] else added))"

definition new_wikilinks :: "alias_index option \<Rightarrow> string \<Rightarrow> string \<Rightarrow> string list" where
  "new_wikilinks idx original corrected =
     add_links idx (map strip (wikilink_targets original)) (wikilink_targets corrected) []"

definition arrow :: string where
  "arrow = [CHR 0xE2, CHR 0x86, CHR 0x92]"

definition summary_from_correction :: "correction \<Rightarrow> string \<Rightarrow> string" where
  "summary_from_correction c source_title =
     (if strip (co_reason c) \<noteq> [] then strip (co_reason c)
      else ''[['' @ source_title @ '']] mentions this concept via auto_wikilink ('' @ take 80 (co_original c) @
        '' '' @ arrow @ '' '' @ take 80 (co_corrected c) @ '')'')"

subsection \<open>Sections\<close>

definition BACKLINK_HEADING :: string where
  "BACKLINK_HEADING = ''### Matryca Backlink Context''"

definition format_backlink_section :: "string \<Rightarrow> string \<Rightarrow> string \<Rightarrow> string \<Rightarrow> string" where
  "format_backlink_section source_title target_title summary block_uuid =
     [LF] @ ''- '' @ BACKLINK_HEADING @ [LF] @
     ''- referenced-from:: [['' @ source_title @ '']]'' @ [LF] @
     ''- referenced-to:: [['' @ target_title @ '']]'' @ [LF] @
     ''- source-block-uuid:: '' @ block_uuid @ [LF] @
     ''- context-summary:: '' @ strip summary @ [LF] @
     ''- matryca-backprop:: true'' @ [LF]"

definition normalize_section_heading :: "string \<Rightarrow> string" where
  "normalize_section_heading line =
     (let b = strip (strip_lf line) in if startswith b ''- '' then strip (drop 2 b) else b)"

text \<open>The text after \<open>^\s*(?:-\s+)?<key>\s*\<close>, for the three patterns of a section line.\<close>

definition section_field :: "string \<Rightarrow> string \<Rightarrow> string option" where
  "section_field key line =
     (let r = lstrip line;
          r1 = (if r \<noteq> [] \<and> hd r = CHR ''-'' \<and> tl r \<noteq> [] \<and> py_space (hd (tl r)) then lstrip (tl r) else r)
      in if startswith r1 key then Some (lstrip (drop (length key) r1)) else None)"

definition ref_from :: "string \<Rightarrow> string option" where
  "ref_from line =
     (case section_field ''referenced-from::'' line of
        None \<Rightarrow> None
      | Some v \<Rightarrow>
          (let t = takeWhile (\<lambda>c. c \<noteq> CHR '']'') (drop 2 v); r = drop (2 + length t) v
           in if startswith v ''[['' \<and> t \<noteq> [] \<and> startswith r '']]'' \<and> list_all py_space (drop 2 r)
              then Some t else None))"

definition source_block :: "string \<Rightarrow> string option" where
  "source_block line =
     (case section_field ''source-block-uuid::'' line of
        None \<Rightarrow> None
      | Some v \<Rightarrow>
          (let u = takeWhile (\<lambda>c. \<not> py_space c) v
           in if u \<noteq> [] \<and> list_all py_space (drop (length u) v) then Some u else None))"

definition context_summary :: "string \<Rightarrow> string option" where
  "context_summary line =
     (case section_field ''context-summary::'' line of
        None \<Rightarrow> None
      | Some v \<Rightarrow> if LF \<in> set v then None else Some v)"

definition section_matches :: "text_lines \<Rightarrow> string \<Rightarrow> string \<Rightarrow> bool" where
  "section_matches section_lines source_title block_uuid =
     (let source_ok = list_ex (\<lambda>l. map_option strip (ref_from (strip_lf l)) = Some source_title) section_lines;
          uuid_ok = list_ex (\<lambda>l. map_option strip (source_block (strip_lf l)) = Some block_uuid) section_lines
      in if source_ok \<and> uuid_ok then True
         else source_ok \<and> \<not> list_ex (\<lambda>l. source_block (strip_lf l) \<noteq> None) section_lines)"

definition summary_line :: "string \<Rightarrow> string" where
  "summary_line summary = ''- context-summary:: '' @ strip summary @ [LF]"

definition update_section_summary :: "text_lines \<Rightarrow> string \<Rightarrow> text_lines" where
  "update_section_summary section_lines summary =
     map (\<lambda>l. if context_summary (strip_lf l) \<noteq> None then summary_line summary
              else if endswith l [LF] then l else l @ [LF]) section_lines @
     (if list_ex (\<lambda>l. context_summary (strip_lf l) \<noteq> None) section_lines then [] else [summary_line summary])"

text \<open>A section ends at the next heading of the third level that is not a backlink heading.\<close>

definition ends_section :: "string \<Rightarrow> bool" where
  "ends_section line =
     (let h = normalize_section_heading line in startswith h ''### '' \<and> h \<noteq> BACKLINK_HEADING)"

definition scan_backlink_section :: "text_lines \<Rightarrow> text_lines \<times> text_lines" where
  "scan_backlink_section lines =
     (takeWhile (\<lambda>l. \<not> ends_section l) lines, dropWhile (\<lambda>l. \<not> ends_section l) lines)"

definition existing_summary :: "text_lines \<Rightarrow> string" where
  "existing_summary section_body =
     (case List.map_filter (\<lambda>l. context_summary (strip_lf l)) section_body of [] \<Rightarrow> [] | v # _ \<Rightarrow> strip v)"

function upsert_loop :: "string \<Rightarrow> string \<Rightarrow> string \<Rightarrow> text_lines \<Rightarrow> text_lines \<times> bool" where
  "upsert_loop source_title summary block_uuid [] = ([], False)"
| "upsert_loop source_title summary block_uuid (l # ls) =
     (if normalize_section_heading l \<noteq> BACKLINK_HEADING
      then let (out, m) = upsert_loop source_title summary block_uuid ls in (l # out, m)
      else let (section_body, rest) = scan_backlink_section ls;
               (out, m) = upsert_loop source_title summary block_uuid rest
           in if section_matches section_body source_title block_uuid \<and>
                 existing_summary section_body \<noteq> strip summary
              then (l # update_section_summary section_body summary @ out, True)
              else (l # section_body @ out, m))"
  by pat_completeness auto
termination
  by (relation "measure (\<lambda>(_, _, _, ls). length ls)")
    (auto simp: scan_backlink_section_def length_dropWhile_le le_imp_less_Suc)

definition backlink_present :: "string \<Rightarrow> string \<Rightarrow> string \<Rightarrow> bool" where
  "backlink_present content source_title block_uuid \<longleftrightarrow>
     contains content (''referenced-from:: [['' @ source_title @ '']]'') \<and>
     contains content (''source-block-uuid:: '' @ block_uuid)"

definition upsert_backlink_in_content :: "string \<Rightarrow> string \<Rightarrow> string \<Rightarrow> string \<Rightarrow> string \<Rightarrow> string \<times> bool" where
  "upsert_backlink_in_content content source_title target_title summary block_uuid =
     (let (output, modified) = upsert_loop source_title summary block_uuid (splitlines_keep content)
      in if modified then (concat output, True)
         else if backlink_present content source_title block_uuid then (content, False)
         else (strip_lf content @ format_backlink_section source_title target_title summary block_uuid, True))"

subsection \<open>The pass over the corrections\<close>

text \<open>One target page: its lock, read, conditional write. \<open>True\<close>: the page was modified.\<close>

definition backprop_page ::
  "path \<Rightarrow> string \<Rightarrow> correction \<Rightarrow> string \<Rightarrow> path \<Rightarrow> interference \<Rightarrow> world \<Rightarrow> world \<times> (py_exn + bool)" where
  "backprop_page graph_root source_title c target target_path il w =
     (case page_rmw_lock target_path (il_lock il) w of
        Inl e \<Rightarrow> (w, Inl e)
      | Inr w1 \<Rightarrow>
          (case read_graph_file_text w1 target_path graph_root of
             Inl e \<Rightarrow> (w1, Inl e)
           | Inr prev \<Rightarrow>
               if strip prev = [] then (w1, Inr False)
               else let w2 = apply_edits (il_copy il) w1
                    in case read_file_mtime_ns w2 target_path of
                         None \<Rightarrow> (w2, Inr False)
                       | Some baseline_mtime \<Rightarrow>
                           (let (new_text, changed) = upsert_backlink_in_content prev source_title target
                                  (summary_from_correction c source_title) (co_uuid c)
                            in if \<not> changed then (w2, Inr False)
                               else atomic_write_bytes_if_unchanged target_path new_text graph_root
                                      (IntBase baseline_mtime) True None (apply_edits (il_write il) w2))))"

fun backprop_targets ::
  "path \<Rightarrow> string list \<Rightarrow> alias_index \<Rightarrow> string \<Rightarrow> correction \<Rightarrow> (nat \<Rightarrow> interference) \<Rightarrow> nat \<Rightarrow> string list \<Rightarrow>
     world \<Rightarrow> world \<times> (py_exn + string list)" where
  "backprop_targets graph_root titles idx source_title c il n [] w = (w, Inr [])"
| "backprop_targets graph_root titles idx source_title c il n (target # targets) w =
     (if target = source_title \<or> \<not> page_file_exists titles idx target
      then backprop_targets graph_root titles idx source_title c il (Suc n) targets w
      else case resolve_page_path w graph_root target of
             None \<Rightarrow> backprop_targets graph_root titles idx source_title c il (Suc n) targets w
           | Some target_path \<Rightarrow>
               (case backprop_page graph_root source_title c target target_path (il n) w of
                  (w1, Inl e) \<Rightarrow> (w1, Inl e)
                | (w1, Inr modified) \<Rightarrow>
                    (case backprop_targets graph_root titles idx source_title c il (Suc n) targets w1 of
                       (w2, Inl e) \<Rightarrow> (w2, Inl e)
                     | (w2, Inr pages) \<Rightarrow> (w2, Inr (if modified then target # pages else pages)))))"

text \<open>\<open>detail.split(":", 2)[1]\<close> of the details of applied wikilink corrections.\<close>

definition applied_uuid :: "string \<Rightarrow> string" where
  "applied_uuid detail = (case split_sub '':'' detail of _ # u # _ \<Rightarrow> u | _ \<Rightarrow> [])"

definition applied_uuids :: "string list \<Rightarrow> string list" where
  "applied_uuids details = map applied_uuid (filter (\<lambda>d. startswith d ''auto_wikilink:'') details)"

fun backprop_corrections ::
  "path \<Rightarrow> string list \<Rightarrow> alias_index \<Rightarrow> alias_index option \<Rightarrow> string \<Rightarrow> string list \<Rightarrow> (nat \<Rightarrow> nat \<Rightarrow> interference) \<Rightarrow>
     nat \<Rightarrow> correction list \<Rightarrow> world \<Rightarrow> world \<times> (py_exn + string list)" where
  "backprop_corrections graph_root titles idx alias source_title uuids il k [] w = (w, Inr [])"
| "backprop_corrections graph_root titles idx alias source_title uuids il k (c # cs) w =
     (if co_lint c \<noteq> AutoWikilink \<or> co_uuid c \<notin> set uuids
      then backprop_corrections graph_root titles idx alias source_title uuids il (Suc k) cs w
      else case backprop_targets graph_root titles idx source_title c (il k) 0
                  (new_wikilinks alias (co_original c) (co_corrected c)) w of
             (w1, Inl e) \<Rightarrow> (w1, Inl e)
           | (w1, Inr pages) \<Rightarrow>
               (case backprop_corrections graph_root titles idx alias source_title uuids il (Suc k) cs w1 of
                  (w2, Inl e) \<Rightarrow> (w2, Inl e)
                | (w2, Inr pages2) \<Rightarrow> (w2, Inr (pages @ pages2))))"

definition run_backlink_backpropagator ::
  "path \<Rightarrow> string list \<Rightarrow> alias_index \<Rightarrow> alias_index option \<Rightarrow> string \<Rightarrow> correction list \<Rightarrow> string list \<Rightarrow>
     (nat \<Rightarrow> nat \<Rightarrow> interference) \<Rightarrow> world \<Rightarrow> world \<times> (py_exn + string list)" where
  "run_backlink_backpropagator graph_root titles idx alias source_title corrections applied_details il w =
     (if applied_uuids applied_details = [] then (w, Inr [])
      else backprop_corrections graph_root titles idx alias source_title (applied_uuids applied_details) il 0 corrections w)"

subsection \<open>Lists of lines that end with a line feed\<close>

definition lf_line :: "string \<Rightarrow> bool" where
  "lf_line x \<longleftrightarrow> (\<exists>l. no_break l \<and> x = l @ [LF])"

fun lf_lines :: "text_lines \<Rightarrow> bool" where
  "lf_lines [] \<longleftrightarrow> True"
| "lf_lines [x] \<longleftrightarrow> lf_line x \<or> no_break x \<and> x \<noteq> []"
| "lf_lines (x # y # xs) \<longleftrightarrow> lf_line x \<and> lf_lines (y # xs)"

lemma no_break_LF: "no_break l \<Longrightarrow> LF \<notin> set l"
  by (auto simp: no_break_def list_all_iff)

lemma strip_lf_no_break: "no_break l \<Longrightarrow> strip_lf l = l"
proof -
  assume "no_break l"
  then have "l = [] \<or> last l \<noteq> LF" using no_break_LF [of l] by (metis last_in_set)
  then show ?thesis unfolding strip_lf_def by (rule rstrip_by_id)
qed

lemma strip_lf_line [simp]: "strip_lf (l @ [LF]) = strip_lf l"
  by (simp add: strip_lf_def rstrip_by_snoc)

lemma lf_lines_append: "lf_lines (xs @ ys) \<longleftrightarrow> (if ys = [] then lf_lines xs else list_all lf_line xs \<and> lf_lines ys)"
  by (induction xs rule: lf_lines.induct) (cases ys, auto)+

lemma lf_lines_all: "list_all lf_line xs \<Longrightarrow> lf_lines xs"
  using lf_lines_append [of xs "[]"] by (induction xs rule: lf_lines.induct) auto

lemma splitlines_concat: "lf_lines xs \<Longrightarrow> splitlines (concat xs) = map strip_lf xs"
proof (induction xs rule: lf_lines.induct)
  case (2 x)
  then consider l where "no_break l" "x = l @ [LF]" | "no_break x" "x \<noteq> []"
    by (auto simp: lf_line_def)
  then show ?case
  proof cases
    case 1
    then show ?thesis using splitlines_line [OF 1(1), of "[]"] strip_lf_no_break [OF 1(1)] by simp
  next
    case 2
    then have "py_lines x = [(x, [])]" using py_lines_no_break [of x "[]"] by simp
    then show ?thesis using strip_lf_no_break [OF 2(1)] by (simp add: splitlines_def)
  qed
next
  case (3 x y xs)
  then obtain l where "no_break l" "x = l @ [LF]" by (auto simp: lf_line_def)
  with 3 show ?case by (simp add: splitlines_line strip_lf_no_break)
qed simp

text \<open>The lines of a text without other line breaks than line feeds.\<close>

lemma lf_lines_splitlines_keep:
  assumes "\<forall>c \<in> set s. line_break c \<longrightarrow> c = LF"
  shows "lf_lines (splitlines_keep s)"
proof -
  have "lf_lines (map (\<lambda>(l, e). l @ e) ps)" if "line_pairs ps" "\<forall>c \<in> set (text_of ps). line_break c \<longrightarrow> c = LF" for ps
    using that
  proof (induction ps rule: line_pairs.induct)
    case (2 l e)
    then show ?case by (auto simp: terminator_def lf_line_def)
  next
    case (3 l e p ps)
    have "e = [LF]" using 3(2,3) by (auto simp: terminator_def)
    then have "lf_line (l @ e)" using 3(2) by (auto simp: lf_line_def)
    moreover have "lf_lines (map (\<lambda>(l, e). l @ e) (p # ps))"
      using 3 by simp
    ultimately show ?case by (cases p) simp
  qed simp
  from this [OF line_pairs_py_lines, of s] show ?thesis
    using assms by (simp add: splitlines_keep_def)
qed

subsection \<open>What an update keeps\<close>

text \<open>A line that is neither blank nor a context summary.\<close>

definition kept_line :: "string \<Rightarrow> bool" where
  "kept_line l \<longleftrightarrow> l \<noteq> [] \<and> context_summary l = None"

lemma lstrip_no_space: "\<not> py_space c \<Longrightarrow> lstrip (c # s) = c # s"
  by (simp add: lstrip_by_def)

lemma context_summary_line: "no_break (strip summary) \<Longrightarrow> context_summary (strip_lf (summary_line summary)) = Some (lstrip (strip summary))"
proof -
  assume nb: "no_break (strip summary)"
  have "strip_lf (summary_line summary) = ''- context-summary:: '' @ strip summary"
    using nb strip_lf_no_break [of "''- context-summary:: '' @ strip summary"] strip_lf_line [of "''- context-summary:: '' @ strip summary"]
    by (simp add: summary_line_def line_break_def)
  moreover have "LF \<notin> set (lstrip (strip summary))"
    using no_break_LF [OF nb] by (auto simp: lstrip_by_def dest: set_dropWhileD)
  ultimately show ?thesis
    by (simp add: context_summary_def section_field_def lstrip_no_space py_space_def code_of_def startswith_def lstrip_by_def)
qed

lemma update_keeps:
  assumes "no_break (strip summary)"
  shows "filter kept_line (map strip_lf (update_section_summary ls summary)) = filter kept_line (map strip_lf ls)"
  using context_summary_line [OF assms]
  by (induction ls) (auto simp: update_section_summary_def kept_line_def)

lemma lf_line_summary: "no_break (strip summary) \<Longrightarrow> lf_line (summary_line summary)"
  unfolding lf_line_def summary_line_def
  by (intro exI [of _ "''- context-summary:: '' @ strip summary"]) (simp add: line_break_def)

lemma update_lf:
  assumes "no_break (strip summary)" and "lf_lines ls"
  shows "list_all lf_line (update_section_summary ls summary)"
proof -
  have "lf_line l \<or> no_break l" if "l \<in> set ls" for l
    using assms(2) that by (induction ls rule: lf_lines.induct) auto
  then have line: "lf_line (if endswith l [LF] then l else l @ [LF])" if "l \<in> set ls" for l
  proof (cases "lf_line l")
    case False
    with that \<open>\<And>l. l \<in> set ls \<Longrightarrow> lf_line l \<or> no_break l\<close> have "no_break l" by blast
    moreover then have "\<not> endswith l [LF]"
      using no_break_LF [of l] by (metis endswith_last last_in_set)
    ultimately show ?thesis by (auto simp: lf_line_def)
  qed (auto simp: lf_line_def)
  then show ?thesis
    using lf_line_summary [OF assms(1)]
    unfolding update_section_summary_def list_all_iff by (auto dest: line split: if_splits)
qed

lemma upsert_loop_keeps:
  assumes "no_break (strip summary)" and "upsert_loop src summary u ls = (out, m)" and "lf_lines ls"
  shows "filter kept_line (map strip_lf out) = filter kept_line (map strip_lf ls) \<and>
    lf_lines out \<and> (out = [] \<longleftrightarrow> ls = []) \<and> (\<not> m \<longrightarrow> out = ls)"
  using assms
proof (induction src summary u ls arbitrary: out m rule: upsert_loop.induct)
  case (2 src summary u l ls)
  show ?case
  proof (cases "normalize_section_heading l = BACKLINK_HEADING")
    case False
    obtain out1 m1 where rec: "upsert_loop src summary u ls = (out1, m1)" by (cases "upsert_loop src summary u ls")
    have lf: "lf_lines ls" using 2(5) by (cases ls) auto
    have "out = l # out1" "m = m1" using 2(4) False rec by simp_all
    moreover have "lf_lines (l # out1)"
      using 2(1) [OF False 2(3) rec lf] 2(5) by (cases ls; cases out1) auto
    ultimately show ?thesis using 2(1) [OF False 2(3) rec lf] by simp
  next
    case True
    obtain sb rest where sc: "scan_backlink_section ls = (sb, rest)" by (cases "scan_backlink_section ls")
    then have ls: "ls = sb @ rest" by (auto simp: scan_backlink_section_def)
    obtain out1 m1 where rec: "upsert_loop src summary u rest = (out1, m1)" by (cases "upsert_loop src summary u rest")
    have lfs: "lf_lines ls" using 2(5) by (cases ls) auto
    then have lf: "lf_lines sb" "lf_lines rest" "rest \<noteq> [] \<longrightarrow> list_all lf_line sb"
      using lf_lines_all by (auto simp: ls lf_lines_append split: if_splits)
    have ih: "filter kept_line (map strip_lf out1) = filter kept_line (map strip_lf rest) \<and>
        lf_lines out1 \<and> (out1 = [] \<longleftrightarrow> rest = []) \<and> (\<not> m1 \<longrightarrow> out1 = rest)"
      using 2(2) True sc rec 2(3) lf(2) by simp
    show ?thesis
    proof (cases "section_matches sb src u \<and> existing_summary sb \<noteq> strip summary")
      case upd: True
      then have out: "out = l # update_section_summary sb summary @ out1" "m"
        using 2(4) True sc rec by simp_all
      have "sb \<noteq> []" using upd by (auto simp: section_matches_def)
      then have "lf_line l" using 2(5) ls by (cases sb) auto
      then have "lf_lines ((l # update_section_summary sb summary) @ out1)"
        using ih lf_lines_all update_lf [OF 2(3) lf(1)] by (simp add: lf_lines_append del: append_Cons)
      then show ?thesis using ih out update_keeps [OF 2(3)] by (simp add: ls)
    next
      case False
      then have out: "out = l # sb @ out1" "m = m1"
        using 2(4) True sc rec by auto
      have "lf_lines ((l # sb) @ rest)" using 2(5) ls by simp
      then have "lf_lines ((l # sb) @ out1)"
        using ih unfolding lf_lines_append by (auto split: if_splits)
      then show ?thesis using ih out by (simp add: ls)
    qed
  qed
qed simp

lemma splitlines_add_LF:
  assumes "\<forall>c \<in> set s. line_break c \<longrightarrow> c = LF"
  shows "filter kept_line (splitlines (strip_lf s @ [LF])) = filter kept_line (splitlines s)"
proof -
  let ?k = "filter kept_line"
  have empty: "?k (splitlines t) = []" if "list_all (\<lambda>c. c = LF) t" for t
    using that splitlines_line [of "[]"] by (induction t) (auto simp: kept_line_def)
  obtain t where t: "s = strip_lf s @ t" "list_all (\<lambda>c. c = LF) t"
    unfolding strip_lf_def using rstrip_by_decomp by blast
  have cut: "?k (splitlines (strip_lf s @ t)) = ?k (splitlines (strip_lf s))"
    if "?k (splitlines (strip_lf s @ [LF])) = ?k (splitlines (strip_lf s))"
  proof (cases t)
    case (Cons c t')
    then have "?k (splitlines (strip_lf s @ t)) = ?k (splitlines (strip_lf s @ [LF])) @ ?k (splitlines t')"
      using t(2) splitlines_cut [of "strip_lf s" t'] by simp
    then show ?thesis using that empty [of t'] t(2) Cons by simp
  qed simp
  have "?k (splitlines (strip_lf s @ [LF])) = ?k (splitlines (strip_lf s))"
  proof (cases "strip_lf s = []")
    case True
    then show ?thesis using empty [of "[LF]"] by simp
  next
    case False
    let ?xs = "splitlines_keep (strip_lf s)"
    have "\<forall>c \<in> set (strip_lf s). line_break c \<longrightarrow> c = LF"
      using assms t(1) by (metis UnI1 set_append)
    then have lf: "lf_lines ?xs" by (rule lf_lines_splitlines_keep)
    have ne: "?xs \<noteq> []" using False by simp
    then obtain ys y where xs: "?xs = ys @ [y]" by (metis rev_exhaust)
    have "last (strip_lf s) \<noteq> LF"
      using False rstrip_by_last [of "\<lambda>c. c = LF" s] by (simp add: strip_lf_def)
    moreover have "strip_lf s = concat ys @ y"
      using concat_splitlines_keep [of "strip_lf s"] xs by (metis concat.simps concat_append append.right_neutral)
    moreover have lf': "lf_lines (ys @ [y])" using lf xs by simp
    ultimately have "no_break y" "y \<noteq> []"
      unfolding lf_lines_append by (auto simp: lf_line_def)
    then have "lf_lines (ys @ [y @ [LF]])"
      using lf' unfolding lf_lines_append by (auto simp: lf_line_def)
    moreover have "strip_lf s @ [LF] = concat (ys @ [y @ [LF]])"
      using \<open>strip_lf s = concat ys @ y\<close> by simp
    ultimately have "splitlines (strip_lf s @ [LF]) = map strip_lf (ys @ [y])"
      using splitlines_concat [of "ys @ [y @ [LF]]"] by simp
    moreover have "splitlines (strip_lf s) = map strip_lf ?xs"
      using splitlines_concat [OF lf] by simp
    ultimately show ?thesis by (simp add: xs)
  qed
  with cut t(1) show ?thesis by simp
qed



text \<open>
  The section scan runs over the headings of the sections that follow, so refreshing one
  summary overwrites the summaries of other sources.
\<close>

definition two_sections :: string where
  "two_sections = ''- a'' @ format_backlink_section ''A'' ''T'' ''one'' ''u1'' @ format_backlink_section ''B'' ''T'' ''two'' ''u2''"

lemma upsert_overwrites_other_summary:
  "upsert_backlink_in_content two_sections ''A'' ''T'' ''new'' ''u1'' =
     (''- a'' @ format_backlink_section ''A'' ''T'' ''new'' ''u1'' @ format_backlink_section ''B'' ''T'' ''new'' ''u2'', True)"
  "snd (upsert_backlink_in_content two_sections ''B'' ''T'' ''two'' ''u2'')"
  by code_simp+

subsection \<open>Upserting twice\<close>

lemma strip_infix: "\<exists>a b. s = a @ strip s @ b"
proof -
  obtain t where "lstrip s = strip s @ t"
    unfolding strip_def using rstrip_by_decomp by blast
  then show ?thesis using lstrip_by_decomp [of s py_space] by metis
qed

lemma heading_infix: "\<exists>a b. line = a @ normalize_section_heading line @ b"
proof -
  obtain t where t: "line = strip_lf line @ t"
    using strip_lf_decomp [of line] by metis
  obtain a b where ab: "strip_lf line = a @ strip (strip_lf line) @ b"
    using strip_infix by blast
  obtain c d where cd: "drop 2 (strip (strip_lf line)) = c @ strip (drop 2 (strip (strip_lf line))) @ d"
    using strip_infix by blast
  show ?thesis
  proof (cases "startswith (strip (strip_lf line)) ''- ''")
    case True
    then have "strip (strip_lf line) = ''- '' @ drop 2 (strip (strip_lf line))"
      by (auto simp: startswith_iff)
    then have "line = (a @ ''- '' @ c) @ strip (drop 2 (strip (strip_lf line))) @ d @ b @ t"
      using t ab cd by (metis append.assoc)
    then show ?thesis using True unfolding normalize_section_heading_def Let_def by (metis (full_types))
  next
    case False
    then have "normalize_section_heading line = strip (strip_lf line)"
      by (simp add: normalize_section_heading_def)
    then show ?thesis using t ab by (metis append.assoc)
  qed
qed

lemma no_heading_lines:
  assumes "\<not> contains (concat ls) BACKLINK_HEADING" and "l \<in> set ls"
  shows "normalize_section_heading l \<noteq> BACKLINK_HEADING"
proof
  assume h: "normalize_section_heading l = BACKLINK_HEADING"
  obtain a b where "l = a @ BACKLINK_HEADING @ b" using heading_infix [of l] h by auto
  moreover obtain xs ys where "ls = xs @ l # ys" using assms(2) by (meson split_list)
  ultimately have "concat ls = (concat xs @ a) @ BACKLINK_HEADING @ (b @ concat ys)" by simp
  then show False using assms(1) contains_iff by blast
qed

lemma upsert_loop_no_heading:
  "\<forall>l \<in> set ls. normalize_section_heading l \<noteq> BACKLINK_HEADING \<Longrightarrow>
     upsert_loop src summary u (ls @ ms) = map_prod (\<lambda>out. ls @ out) id (upsert_loop src summary u ms)"
  by (induction ls) (auto simp: map_prod_def split: prod.splits)

lemma rstrip_by_keep: "rstrip_by p s \<noteq> [] \<Longrightarrow> rstrip_by p (a # s) = a # rstrip_by p s"
proof -
  assume ne: "rstrip_by p s \<noteq> []"
  obtain t where t: "s = rstrip_by p s @ t" "list_all p t" using rstrip_by_decomp by blast
  then have "a # s = (a # rstrip_by p s) @ t" by simp
  then have "rstrip_by p (a # s) = rstrip_by p (a # rstrip_by p s)"
    using rstrip_by_append_all [OF t(2)] by metis
  also have "\<dots> = a # rstrip_by p s"
    using ne rstrip_by_last [OF ne] by (intro rstrip_by_id) auto
  finally show ?thesis .
qed

lemma dash_heading: "\<not> py_space c \<Longrightarrow> no_break x \<Longrightarrow> \<exists>y. normalize_section_heading (''- '' @ c # x @ [LF]) = c # y"
proof -
  assume c: "\<not> py_space c" and x: "no_break x"
  have nb: "no_break (''- '' @ c # x)"
    using c x line_break_space by (auto simp: line_break_def)
  have lf: "strip_lf (''- '' @ c # x @ [LF]) = ''- '' @ c # x"
    using strip_lf_line [of "''- '' @ c # x"] strip_lf_no_break [OF nb] by simp
  have d: "\<not> py_space (CHR ''-'')" by (simp add: py_space_def code_of_def)
  have cx: "rstrip (c # x) = c # rstrip x" using c by (simp add: rstrip_by_Cons)
  have "rstrip (CHR '' '' # c # x) = CHR '' '' # rstrip (c # x)"
    using cx by (simp add: rstrip_by_keep)
  then have "strip (''- '' @ c # x) = ''- '' @ rstrip (c # x)"
    using d by (simp add: strip_def lstrip_by_def rstrip_by_Cons)
  moreover have "strip (rstrip (c # x)) = c # rstrip x"
    using c by (simp add: strip_def lstrip_by_def rstrip_by_Cons)
  ultimately show ?thesis
    unfolding normalize_section_heading_def lf Let_def by (simp add: startswith_def)
qed

text \<open>The body of a section written by the formatter.\<close>

definition section_body :: "string \<Rightarrow> string \<Rightarrow> string \<Rightarrow> string \<Rightarrow> text_lines" where
  "section_body src tgt summary u =
     [''- referenced-from:: [['' @ src @ '']]'' @ [LF], ''- referenced-to:: [['' @ tgt @ '']]'' @ [LF],
      ''- source-block-uuid:: '' @ u @ [LF], ''- context-summary:: '' @ strip summary @ [LF],
      ''- matryca-backprop:: true'' @ [LF]]"

lemma splitlines_keep_concat: "list_all lf_line xs \<Longrightarrow> splitlines_keep (concat xs) = xs"
  by (induction xs) (auto simp: lf_line_def splitlines_keep_line)

lemma lf_lineI: "no_break l \<Longrightarrow> lf_line (l @ [LF])"
  by (auto simp: lf_line_def)

lemma format_section_lines:
  assumes "no_break src" "no_break tgt" "no_break (strip summary)" "no_break u"
  shows "format_backlink_section src tgt summary u = LF # concat ((''- '' @ BACKLINK_HEADING @ [LF]) # section_body src tgt summary u)"
    and "list_all lf_line ((''- '' @ BACKLINK_HEADING @ [LF]) # section_body src tgt summary u)"
proof -
  show "format_backlink_section src tgt summary u = LF # concat ((''- '' @ BACKLINK_HEADING @ [LF]) # section_body src tgt summary u)"
    by (simp add: format_backlink_section_def section_body_def)
  show "list_all lf_line ((''- '' @ BACKLINK_HEADING @ [LF]) # section_body src tgt summary u)"
    using assms lf_lineI [of "''- '' @ BACKLINK_HEADING"] lf_lineI [of "''- matryca-backprop:: true''"]
      lf_lineI [of "''- referenced-from:: [['' @ src @ '']]''"] lf_lineI [of "''- referenced-to:: [['' @ tgt @ '']]''"]
      lf_lineI [of "''- source-block-uuid:: '' @ u"] lf_lineI [of "''- context-summary:: '' @ strip summary"]
    by (simp add: section_body_def BACKLINK_HEADING_def line_break_def)
qed

lemma dash_not_section: "\<not> py_space c \<Longrightarrow> c \<noteq> CHR ''#'' \<Longrightarrow> no_break x \<Longrightarrow> \<not> ends_section (''- '' @ c # x @ [LF])"
  using dash_heading [of c x] by (auto simp: ends_section_def startswith_def)

lemma section_body_props:
  assumes "no_break src" "no_break tgt" "no_break (strip summary)" "no_break u"
  shows "list_all (\<lambda>l. \<not> ends_section l) (section_body src tgt summary u)"
    and "existing_summary (section_body src tgt summary u) = strip summary"
proof -
  have d: "\<not> ends_section (''- '' @ c # x @ [LF])" if "\<not> py_space c" "c \<noteq> CHR ''#''" "no_break x" for c x
    using that by (rule dash_not_section)
  show "list_all (\<lambda>l. \<not> ends_section l) (section_body src tgt summary u)"
    using assms d [of "CHR ''r''" "''eferenced-from:: [['' @ src @ '']]''"] d [of "CHR ''r''" "''eferenced-to:: [['' @ tgt @ '']]''"]
      d [of "CHR ''s''" "''ource-block-uuid:: '' @ u"] d [of "CHR ''c''" "''ontext-summary:: '' @ strip summary"]
      d [of "CHR ''m''" "''atryca-backprop:: true''"]
    by (simp add: section_body_def line_break_def py_space_def code_of_def)
  have none: "context_summary (''- '' @ c # x) = None" if "\<not> py_space c" "c \<noteq> CHR ''c''" for c x
    using that by (simp add: context_summary_def section_field_def lstrip_by_def startswith_def py_space_def code_of_def)
  have lf: "strip_lf (x @ [LF]) = x" if "no_break x" for x
    using that by (simp add: strip_lf_no_break)
  have "context_summary (strip_lf (''- referenced-from:: [['' @ src @ '']]'' @ [LF])) = None"
    "context_summary (strip_lf (''- referenced-to:: [['' @ tgt @ '']]'' @ [LF])) = None"
    "context_summary (strip_lf (''- source-block-uuid:: '' @ u @ [LF])) = None"
    using assms none [of "CHR ''r''"] none [of "CHR ''s''"] lf [of "''- referenced-from:: [['' @ src @ '']]''"]
      lf [of "''- referenced-to:: [['' @ tgt @ '']]''"] lf [of "''- source-block-uuid:: '' @ u"]
    by (simp_all add: line_break_def py_space_def code_of_def)
  then show "existing_summary (section_body src tgt summary u) = strip summary"
    using context_summary_line [OF assms(3)] lstrip_by_id [of "strip summary" py_space] strip_hd [of summary]
    by (cases "strip summary = []") (simp_all add: existing_summary_def section_body_def List.map_filter_simps summary_line_def)
qed

text \<open>
  Upserting a backlink twice is upserting it once: on a page without a backlink section, the
  second upsert of the same backlink leaves the page as the first one made it.
\<close>

theorem backlink_upsert_idempotent:
  assumes "\<not> contains content BACKLINK_HEADING"
    and "no_break src" "no_break tgt" "no_break (strip summary)" "no_break u"
    and "upsert_backlink_in_content content src tgt summary u = (new, changed)"
  shows "upsert_backlink_in_content new src tgt summary u = (new, False)"
proof -
  let ?body = "section_body src tgt summary u" and ?head = "''- '' @ BACKLINK_HEADING @ [LF]"
  have "\<forall>l \<in> set (splitlines_keep content). normalize_section_heading l \<noteq> BACKLINK_HEADING"
    using no_heading_lines [of "splitlines_keep content"] assms(1) by simp
  then have "upsert_loop src summary u (splitlines_keep content) = (splitlines_keep content, False)"
    using upsert_loop_no_heading [of "splitlines_keep content" src summary u "[]"] by simp
  then consider (present) "new = content" "backlink_present content src u"
    | (added) "new = strip_lf content @ LF # concat (?head # ?body)"
    using assms(6) format_section_lines(1) [OF assms(2-5)]
    by (auto simp: upsert_backlink_in_content_def split: if_splits)
  then show ?thesis
  proof cases
    case present
    then show ?thesis
      using \<open>upsert_loop src summary u (splitlines_keep content) = _\<close> by (simp add: upsert_backlink_in_content_def)
  next
    case added
    let ?front = "splitlines_keep (strip_lf content @ [LF])"
    have lines: "splitlines_keep new = ?front @ ?head # ?body"
      using splitlines_keep_cut [of "strip_lf content" "concat (?head # ?body)"]
        splitlines_keep_concat [OF format_section_lines(2) [OF assms(2-5)]] by (simp only: added)
    have "\<not> contains (strip_lf content @ [LF]) BACKLINK_HEADING"
    proof
      assume "contains (strip_lf content @ [LF]) BACKLINK_HEADING"
      then obtain a b where ab: "strip_lf content @ [LF] = a @ BACKLINK_HEADING @ b"
        by (auto simp: contains_iff)
      have "b \<noteq> []"
      proof
        assume "b = []"
        then have "last (strip_lf content @ [LF]) = CHR ''t''" unfolding ab by (simp add: BACKLINK_HEADING_def)
        then show False by simp
      qed
      then have "strip_lf content = a @ BACKLINK_HEADING @ butlast b"
        using ab by (metis append.assoc butlast_append butlast_snoc append_is_Nil_conv)
      then have "contains content BACKLINK_HEADING"
        using strip_lf_decomp [of content] by (metis append.assoc contains_iff)
      then show False using assms(1) by blast
    qed
    then have front: "\<forall>l \<in> set ?front. normalize_section_heading l \<noteq> BACKLINK_HEADING"
      using no_heading_lines [of ?front] by simp
    have head: "normalize_section_heading ?head = BACKLINK_HEADING" by code_simp
    have "scan_backlink_section ?body = (?body, [])"
      using section_body_props(1) [OF assms(2-5)] by (simp add: scan_backlink_section_def list_all_iff)
    then have "upsert_loop src summary u (?head # ?body) = (?head # ?body, False)"
      using head section_body_props(2) [OF assms(2-5)] by simp
    then have "upsert_loop src summary u (splitlines_keep new) = (splitlines_keep new, False)"
      using upsert_loop_no_heading [OF front, of src summary u "?head # ?body"] unfolding lines by simp
    moreover have "backlink_present new src u"
    proof -
      have "contains new (''referenced-from:: [['' @ src @ '']]'')"
        unfolding contains_iff added section_body_def
        by (intro exI [of _ "strip_lf content @ LF # ?head @ ''- ''"] exI [of _ "LF # concat (tl ?body)"])
          (simp add: section_body_def)
      moreover have "contains new (''source-block-uuid:: '' @ u)"
        unfolding contains_iff added section_body_def
        by (intro exI [of _ "strip_lf content @ LF # ?head @ concat (take 2 ?body) @ ''- ''"] exI [of _ "LF # concat (drop 3 ?body)"])
          (simp add: section_body_def)
      ultimately show ?thesis by (simp only: backlink_present_def)
    qed
    ultimately show ?thesis by (simp add: upsert_backlink_in_content_def)
  qed
qed

lemma backlink_upsert_idempotent_witness:
  "upsert_backlink_in_content (''- a'' @ format_backlink_section ''S'' ''T'' ''x'' ''u1'') ''S'' ''T'' ''x'' ''u1'' =
     (''- a'' @ format_backlink_section ''S'' ''T'' ''x'' ''u1'', False)"
  by (rule backlink_upsert_idempotent [of "''- a''" _ _ _ _ _ True]) code_simp+

text \<open>
  The baseline is taken after the text was read, so an edit of the page that lands between the
  two is overwritten although the write is conditional.
\<close>

definition seed_correction :: correction where
  "seed_correction = \<lparr>co_uuid = ''u1'', co_original = ''A'', co_corrected = ''[[A]]'', co_lint = AutoWikilink, co_reason = ''r''\<rparr>"

lemma backprop_loses_edit:
  "(case backprop_page [''g''] ''S'' seed_correction ''A'' [''g'', ''pages'', ''A.md'']
      \<lparr>il_lock = Some [], il_copy = [([''g'', ''pages'', ''A.md''], ''- edit'')], il_write = []\<rparr> (example_world ''- old'' '''') of
      (w', Inr modified) \<Rightarrow> modified \<and>
        map_option body (files w' [''g'', ''pages'', ''A.md'']) = Some (''- old'' @ format_backlink_section ''S'' ''A'' ''r'' ''u1'')
    | _ \<Rightarrow> False)"
  by code_simp

end
