(* ===== verification/SemanticWrite.thy ===== *)
theory SemanticWrite
  imports Backlinks PageQueue
begin

section \<open>Semantic writes of the daemon\<close>

text \<open>
  Model of \<open>src/agent/daemon_semantic_write.py\<close>: the answer of a language model about a page
  becomes lint corrections of single bullets and a semantic index section at the end of the
  page, in one locked read, validation and conditional write; links that corrections added are
  then propagated by theory \<open>Backlinks\<close>. The time stamp of the section is the argument
  \<open>stamp\<close>. The typographic characters of the source (arrow, ellipsis, dash) are written as their UTF-8
  bytes. What another program does to the page while the handler runs is the argument \<open>il\<close>
  (waiting for the lock, between the read and the check of the baseline, before the write).
\<close>

subsection \<open>Lines and bullets\<close>

definition STRUCTURAL_LINT_HEADING :: string where
  "STRUCTURAL_LINT_HEADING = ''### Matryca Structural Lint''"

definition structural_lint_section_present :: "string \<Rightarrow> bool" where
  "structural_lint_section_present content \<longleftrightarrow> contains content STRUCTURAL_LINT_HEADING"

definition normalize_block_text :: "string \<Rightarrow> string" where
  "normalize_block_text t = collapse_space False (strip t)"

text \<open>\<open>^(\s*)[-*+]\s+(.*)$\<close> on the line without its line feeds: the indent and the text.\<close>

definition lint_bullet :: "string \<Rightarrow> (string \<times> string) option" where
  "lint_bullet line =
     (case bullet_match (strip_lf line) of
        None \<Rightarrow> None
      | Some (ws, _, rest) \<Rightarrow> if LF \<in> set rest then None else Some (ws, rest))"

definition bullet_inline_text :: "string \<Rightarrow> string" where
  "bullet_inline_text line = (case lint_bullet line of None \<Rightarrow> [] | Some (_, rest) \<Rightarrow> rest)"

definition set_bullet_inline_text :: "string \<Rightarrow> string \<Rightarrow> string" where
  "set_bullet_inline_text line new_text =
     (case lint_bullet line of
        None \<Rightarrow> line
      | Some (ws, _) \<Rightarrow> ws @ ''- '' @ new_text @ (if endswith line [LF] then [LF] else []))"

definition plumber_line :: "string \<Rightarrow> bool" where
  "plumber_line line \<longleftrightarrow> startswith (lower (lstrip line)) ''matryca-plumber::''"

definition stamp_matryca_plumber_property :: "text_lines \<Rightarrow> nat \<Rightarrow> nat \<Rightarrow> text_lines" where
  "stamp_matryca_plumber_property lines bullet_idx block_end =
     (let stripped = strip_lines_for_match lines;
          insert_at = block_property_insert_index stripped bullet_idx block_end
      in if list_ex (\<lambda>i. plumber_line (stripped ! i)) [bullet_idx + 1..<insert_at] then lines
         else let base_ws = (case lint_bullet (stripped ! bullet_idx) of None \<Rightarrow> [] | Some (ws, _) \<Rightarrow> ws);
                  indent = base_ws @ bullet_indent_unit stripped bullet_idx
              in list_insert insert_at (indent @ ''matryca-plumber:: true'' @ [LF]) lines)"

subsection \<open>The block catalogue of the prompt\<close>

definition em_dash :: string where
  "em_dash = [CHR 0xE2, CHR 0x80, CHR 0x94]"

definition catalog_entry :: "text_lines \<Rightarrow> nat \<Rightarrow> string option" where
  "catalog_entry lines idx =
     (if is_id_line (lines ! idx)
      then let block_uuid = strip (drop 4 (lstrip (lines ! idx)));
               bullet_text = (case first_index (\<lambda>j. lint_bullet (lines ! j) \<noteq> None) (rev [0..<idx]) of
                 None \<Rightarrow> [] | Some j \<Rightarrow> bullet_inline_text (lines ! j))
           in Some (''- block_uuid: '' @ block_uuid @ [LF] @ ''  original_text: '' @ bullet_text)
      else None)"

text \<open>The notice, with the two numbers in it as texts.\<close>

definition catalog_notice :: "(nat \<Rightarrow> string) \<Rightarrow> nat \<Rightarrow> nat \<Rightarrow> string" where
  "catalog_notice str_of max_chars omitted =
     ''(block catalog truncated at '' @ str_of max_chars @ '' chars; '' @ str_of omitted @
     '' block(s) omitted '' @ em_dash @ '' omit uncatalogued semantic_corrections)''"

fun fit_entries :: "(nat \<Rightarrow> string) \<Rightarrow> nat \<Rightarrow> nat \<Rightarrow> string list \<Rightarrow> nat \<Rightarrow> string list \<Rightarrow> string list" where
  "fit_entries str_of max_chars n_entries included used [] = included"
| "fit_entries str_of max_chars n_entries included used (entry # entries) =
     (let add_len = length entry + (if included \<noteq> [] then 1 else 0)
      in if included \<noteq> [] \<and> max_chars < used + add_len
         then included @ [catalog_notice str_of max_chars (n_entries - length included)]
         else if included = [] \<and> max_chars < length entry
         then [take max_chars entry, catalog_notice str_of max_chars (n_entries - 1)]
         else fit_entries str_of max_chars n_entries (included @ [entry]) (used + add_len) entries)"

definition enumerate_blocks_for_prompt :: "(nat \<Rightarrow> string) \<Rightarrow> string \<Rightarrow> nat \<Rightarrow> string" where
  "enumerate_blocks_for_prompt str_of content max_chars =
     (let lines = splitlines content;
          entries = List.map_filter (catalog_entry lines) [0..<length lines]
      in if entries = [] then ''(no blocks with id:: found '' @ em_dash @ '' omit semantic_corrections)''
         else join [LF] (fit_entries str_of max_chars (length entries) [] 0 entries))"

subsection \<open>Links and the alias index\<close>

text \<open>\<open>re.sub(r"\[\[([^\]]+)\]\]", r"\1", text)\<close>.\<close>

function strip_wikilink_brackets :: "string \<Rightarrow> string" where
  "strip_wikilink_brackets [] = []"
| "strip_wikilink_brackets (c # s) =
     (let t = takeWhile (\<lambda>c. c \<noteq> CHR '']'') (drop 1 s)
      in if startswith (c # s) ''[['' \<and> t \<noteq> [] \<and> startswith (drop (1 + length t) s) '']]''
         then t @ strip_wikilink_brackets (drop (3 + length t) s)
         else c # strip_wikilink_brackets s)"
  by pat_completeness auto
termination by (relation "measure length") auto

function rewrite_wikilinks :: "alias_index \<Rightarrow> string \<Rightarrow> string" where
  "rewrite_wikilinks idx [] = []"
| "rewrite_wikilinks idx (c # s) =
     (case wikilink_at (c # s) of
        None \<Rightarrow> c # rewrite_wikilinks idx s
      | Some (t, n) \<Rightarrow>
          (let canonical = resolve_canonical_page_title idx (strip t)
           in (if canonical \<noteq> strip t then ''[['' @ canonical @ '']]'' else take n (c # s)) @
              rewrite_wikilinks idx (drop n (c # s))))"
  by pat_completeness auto
termination
proof (relation "measure (\<lambda>(_, s). length s)", goal_cases)
  case (3 idx c s p t n)
  then have "0 < n" using wikilink_at_length [of "c # s" t n] by simp
  then show ?case by simp
qed simp_all

definition rewrite_wikilinks_with_alias_index :: "string \<Rightarrow> alias_index option \<Rightarrow> string" where
  "rewrite_wikilinks_with_alias_index txt alias_idx =
     (case alias_idx of None \<Rightarrow> txt | Some idx \<Rightarrow> rewrite_wikilinks idx txt)"

record cross_ref =
  cr_concept :: string
  cr_relation :: string
  cr_target :: string

record index_result =
  ix_summary :: string
  ix_cross_references :: "cross_ref list"
  ix_suggested_tags :: "string list"
  ix_moc_pointers :: "string list"
  ix_corrections :: "correction list"

definition normalize_index_result_aliases :: "index_result \<Rightarrow> alias_index option \<Rightarrow> index_result" where
  "normalize_index_result_aliases result alias_idx =
     (case alias_idx of
        None \<Rightarrow> result
      | Some idx \<Rightarrow>
          result\<lparr>ix_cross_references := map (\<lambda>r.
              if startswith (cr_target r) ''[[''
              then let inner = strip_brackets (cr_target r); canonical = resolve_canonical_page_title idx inner
                   in if canonical \<noteq> inner then r\<lparr>cr_target := ''[['' @ canonical @ '']]''\<rparr> else r
              else r) (ix_cross_references result),
            ix_moc_pointers := map (\<lambda>p.
              if startswith p ''[['' then ''[['' @ resolve_canonical_page_title idx (strip_brackets p) @ '']]'' else p)
              (ix_moc_pointers result),
            ix_corrections := map (\<lambda>c. c\<lparr>co_corrected := rewrite_wikilinks_with_alias_index (co_corrected c) (Some idx)\<rparr>)
              (ix_corrections result)\<rparr>)"

subsection \<open>Corrections of bullets\<close>

text \<open>\<open>re.sub(r"#\S+", "", text)\<close>.\<close>

function drop_tags :: "string \<Rightarrow> string" where
  "drop_tags [] = []"
| "drop_tags (c # s) =
     (if c = CHR ''#'' \<and> s \<noteq> [] \<and> \<not> py_space (hd s) then drop_tags (dropWhile (\<lambda>c. \<not> py_space c) s)
      else c # drop_tags s)"
  by pat_completeness auto
termination by (relation "measure length") (auto simp: length_dropWhile_le le_imp_less_Suc)

definition is_safe_additive_correction :: "string \<Rightarrow> string \<Rightarrow> lint_type \<Rightarrow> bool" where
  "is_safe_additive_correction original corrected lint \<longleftrightarrow>
     (case lint of
        AnomalyWarning \<Rightarrow> normalize_block_text original = normalize_block_text corrected
      | AutoWikilink \<Rightarrow> normalize_block_text original = normalize_block_text (strip_wikilink_brackets corrected)
      | TagHygiene \<Rightarrow>
          strip (drop_tags (normalize_block_text original)) = strip (drop_tags (strip_wikilink_brackets corrected)) \<and>
          length (normalize_block_text original) \<le> length (normalize_block_text corrected))"

datatype skip_reason =
    UuidNotFound string
  | ProtectedFence string
  | OriginalMismatch string
  | AnomalyOnly string
  | UnsafeCorrection string
  | NoChange string
  | IdOrphaned string
  | PropertyLost string
  | EmptyPageBody
  | L0Safety safety_reason

definition direct_block_property_lines :: "text_lines \<Rightarrow> nat \<Rightarrow> nat \<Rightarrow> text_lines" where
  "direct_block_property_lines lines bullet_idx block_end =
     filter (\<lambda>l. lint_bullet l = None \<and> (parse_logseq_property_line l \<noteq> None \<or> is_id_line l))
       (map (\<lambda>i. strip_lf (lines ! i)) [bullet_idx + 1..<min block_end (length lines)])"

type_synonym pending = "nat \<times> nat \<times> correction"

fun collect_pending :: "text_lines \<Rightarrow> nat set \<Rightarrow> correction list \<Rightarrow> pending list \<times> skip_reason list" where
  "collect_pending stripped protected [] = ([], [])"
| "collect_pending stripped protected (c # cs) =
     (let (pending, skips) = collect_pending stripped protected cs
      in case locate_block_by_uuid stripped (co_uuid c) of
           None \<Rightarrow> (pending, UuidNotFound (co_uuid c) # skips)
         | Some (bullet_idx, id_idx, block_end) \<Rightarrow>
             if bullet_idx \<in> protected \<or> list_ex (\<lambda>i. i \<in> protected) [bullet_idx..<block_end]
             then (pending, ProtectedFence (co_uuid c) # skips)
             else ((bullet_idx, block_end, c) # pending, skips))"

text \<open>One correction: the lines after it, and why it was skipped or its detail.\<close>

definition correct_one :: "pending \<Rightarrow> text_lines \<Rightarrow> text_lines \<times> (skip_reason + string)" where
  "correct_one p lines =
     (let (bullet_idx, block_end, c) = p; u = co_uuid c; current = bullet_inline_text (lines ! bullet_idx)
      in if normalize_block_text current \<noteq> normalize_block_text (co_original c) then (lines, Inl (OriginalMismatch u))
         else if co_lint c = AnomalyWarning then (lines, Inl (AnomalyOnly u))
         else if \<not> is_safe_additive_correction (co_original c) (co_corrected c) (co_lint c)
           then (lines, Inl (UnsafeCorrection u))
         else if normalize_block_text current = normalize_block_text (co_corrected c) then (lines, Inl (NoChange u))
         else let snapshot = direct_block_property_lines lines bullet_idx block_end;
                  new_lines = lines[bullet_idx := set_bullet_inline_text (lines ! bullet_idx) (co_corrected c)]
              in case locate_block_by_uuid (map strip_lf new_lines) u of
                   None \<Rightarrow> (lines, Inl (IdOrphaned u))
                 | Some (_, _, new_block_end) \<Rightarrow>
                     if \<not> set snapshot \<subseteq> set (direct_block_property_lines new_lines bullet_idx new_block_end)
                     then (lines, Inl (PropertyLost u))
                     else (stamp_matryca_plumber_property new_lines bullet_idx block_end,
                           Inr (lint_name (co_lint c) @ '':'' @ u @ '':'' @ co_reason c)))"

fun correct_all :: "pending list \<Rightarrow> text_lines \<Rightarrow> text_lines \<times> skip_reason list \<times> string list" where
  "correct_all [] lines = (lines, [], [])"
| "correct_all (p # ps) lines =
     (let (lines1, r) = correct_one p lines; (lines2, skips, details) = correct_all ps lines1
      in case r of Inl s \<Rightarrow> (lines2, s # skips, details) | Inr d \<Rightarrow> (lines2, skips, d # details))"

record correction_outcome =
  oc_applied :: nat
  oc_skipped :: nat
  oc_skip_reasons :: "skip_reason list"
  oc_details :: "string list"
  oc_write_aborted :: bool
  oc_links_backpropagated :: nat

definition no_outcome :: correction_outcome where
  "no_outcome = \<lparr>oc_applied = 0, oc_skipped = 0, oc_skip_reasons = [], oc_details = [], oc_write_aborted = False,
     oc_links_backpropagated = 0\<rparr>"

text \<open>\<open>sorted(..., reverse=True)\<close> is stable: equal keys keep their order.\<close>

definition apply_semantic_corrections_to_lines :: "text_lines \<Rightarrow> correction list \<Rightarrow> text_lines \<times> correction_outcome" where
  "apply_semantic_corrections_to_lines lines corrections =
     (if corrections = [] then (lines, no_outcome)
      else let (pending, skips) = collect_pending (map strip_lf lines)
                 (compute_page_protected_line_indices (concat lines)) corrections;
               (new_lines, more_skips, details) = correct_all (sort_key (\<lambda>(b, _). - int b) pending) lines
           in (new_lines, no_outcome\<lparr>oc_applied := length details, oc_skipped := length skips + length more_skips,
                 oc_skip_reasons := skips @ more_skips, oc_details := details\<rparr>))"

subsection \<open>The index section\<close>

definition ellipsis :: string where
  "ellipsis = [CHR 0xE2, CHR 0x80, CHR 0xA6]"

definition as_link :: "string \<Rightarrow> string" where
  "as_link t = ''[['' @ strip_brackets t @ '']]''"

definition moc_and_cross_reference_lines :: "index_result \<Rightarrow> text_lines" where
  "moc_and_cross_reference_lines result =
     (if ix_moc_pointers result = [] then []
      else ''- moc-pointers::'' #
        map (\<lambda>p. ''  - '' @ (if startswith p ''[['' then p else as_link p)) (ix_moc_pointers result)) @
     (if ix_cross_references result = [] then []
      else ''- cross-references::'' #
        map (\<lambda>r. ''  - '' @ cr_concept r @ '' ('' @ cr_relation r @ '') '' @ arrow @ '' '' @
          (if startswith (cr_target r) ''[['' \<or> startswith (cr_target r) ''#'' then cr_target r
           else as_link (cr_target r))) (ix_cross_references result))"

definition format_index_section :: "string \<Rightarrow> index_result \<Rightarrow> string list \<Rightarrow> string" where
  "format_index_section stamp result applied_details =
     (let warnings = filter (\<lambda>c. co_lint c = AnomalyWarning) (ix_corrections result)
      in join [LF] ([[], ''- '' @ SEMANTIC_INDEX_HEADING, ''- indexed-at:: '' @ stamp,
             ''- summary:: '' @ strip (ix_summary result)] @
           (if ix_suggested_tags result = [] then []
            else [''- suggested-tags:: '' @ join '' '' (map (\<lambda>t.
              if startswith t ''#'' then t else ''#'' @ dropWhile (\<lambda>c. c = CHR ''#'') t) (ix_suggested_tags result))]) @
           moc_and_cross_reference_lines result @
           (if applied_details = [] then []
            else ''- semantic-lint-applied::'' # map (\<lambda>d. ''  - '' @ d) applied_details) @
           (if warnings = [] then []
            else ''- semantic-lint-warnings::'' #
              map (\<lambda>c. ''  - '' @ co_reason c @ '' (block '' @ take 8 (co_uuid c) @ ellipsis @ '')'') warnings) @
           [[]]))"

subsection \<open>The handlers\<close>

definition append_structural_lint_warning ::
  "(nat \<Rightarrow> string) \<Rightarrow> path \<Rightarrow> path \<Rightarrow> string list \<Rightarrow> interference \<Rightarrow> world \<Rightarrow> world \<times> (py_exn + bool)" where
  "append_structural_lint_warning str_of graph_root page_path malformed_refs il w =
     (case (if malformed_refs = [] then None else occ_snapshot w page_path) of
        None \<Rightarrow> (w, Inr False)
      | Some baseline_mtime \<Rightarrow>
          if file_mtime_drifted w page_path (IntBase baseline_mtime) then (w, Inr False)
          else case page_rmw_lock page_path (il_lock il) w of
            Inl e \<Rightarrow> (w, Inl e)
          | Inr w1 \<Rightarrow>
              if file_mtime_drifted w1 page_path (IntBase baseline_mtime) then (w1, Inr False)
              else let w2 = apply_edits (il_copy il) w1 in
                case read_graph_file_text w2 page_path graph_root of
                  Inl e \<Rightarrow> (w2, Inl e)
                | Inr page \<Rightarrow>
                    if structural_lint_section_present page then (w2, Inr False)
                    else let sample = take 5 malformed_refs;
                             section_lines = [[], ''- '' @ STRUCTURAL_LINT_HEADING, ''- malformed-block-refs::''] @
                               map (\<lambda>r. ''  - (('' @ r @ ''))'') sample @
                               (if length sample < length malformed_refs
                                then [''  - ... and '' @ str_of (length malformed_refs - length sample) @ '' more''] else []) @
                               [''- todo:: #todo [[Matryca Broken Reference]] '' @ em_dash @ '' fix ((uuid)) typos in Logseq'', []]
                         in atomic_write_bytes_if_unchanged page_path (strip_lf page @ [LF] @ join [LF] section_lines)
                              graph_root (IntBase baseline_mtime) False (Some ''appended structural lint warning'')
                              (apply_edits (il_write il) w2))"

text \<open>The new text of a page and the outcome of the corrections, or why the write is refused.\<close>

definition plan_semantic_write :: "string \<Rightarrow> string \<Rightarrow> index_result \<Rightarrow> bool \<Rightarrow> correction_outcome + string \<times> correction_outcome" where
  "plan_semantic_write stamp prev result disable_semantic_corrections =
     (if strip prev = [] then Inl (no_outcome\<lparr>oc_skipped := 1, oc_skip_reasons := [EmptyPageBody]\<rparr>)
      else let lines = splitlines_keep prev;
               (new_lines, outcome) = (if disable_semantic_corrections then (lines, no_outcome)
                 else apply_semantic_corrections_to_lines lines (ix_corrections result));
               body = concat new_lines;
               body = (if semantic_index_section_present body then body
                 else strip_lf body @ format_index_section stamp result (oc_details outcome))
           in case validate_llm_write_diff prev body of
                Some r \<Rightarrow> Inl (outcome\<lparr>oc_write_aborted := True, oc_skip_reasons := oc_skip_reasons outcome @ [L0Safety r]\<rparr>)
              | None \<Rightarrow> Inr (body, outcome))"

text \<open>The locked part of the handler. \<open>True\<close>: the page was written.\<close>

definition semantic_transaction ::
  "string \<Rightarrow> path \<Rightarrow> path \<Rightarrow> string \<Rightarrow> index_result \<Rightarrow> bool \<Rightarrow> baseline option \<Rightarrow> interference \<Rightarrow> world \<Rightarrow>
     world \<times> (py_exn + bool \<times> correction_outcome)" where
  "semantic_transaction stamp graph_root page_path page_title result disable baseline_mtime il w1 =
     (case (case stat_file w1 page_path of
              None \<Rightarrow> Inr ([], w1, None)
            | Some _ \<Rightarrow>
                (case read_graph_file_text w1 page_path graph_root of
                   Inl e \<Rightarrow> Inl e
                 | Inr prev \<Rightarrow>
                     let w2 = apply_edits (il_copy il) w1
                     in Inr (prev, w2, (case baseline_mtime of Some b \<Rightarrow> Some b
                          | None \<Rightarrow> map_option IntBase (read_file_mtime_ns w2 page_path))))) of
        Inl e \<Rightarrow> (w1, Inl e)
      | Inr (prev, w2, base) \<Rightarrow>
          (case plan_semantic_write stamp prev result disable of
             Inl outcome \<Rightarrow>
               if strip prev \<noteq> [] \<and> (case base of None \<Rightarrow> False | Some b \<Rightarrow> file_mtime_drifted w2 page_path b)
               then (w2, Inr (False, no_outcome\<lparr>oc_write_aborted := True\<rparr>)) else (w2, Inr (False, outcome))
           | Inr (new_text, outcome) \<Rightarrow>
               (case base of
                  None \<Rightarrow>
                    (case atomic_write_bytes page_path new_text graph_root True None
                            (Some (''semantic index update on '' @ page_title)) (apply_edits (il_write il) w2) of
                       (w3, Inl e) \<Rightarrow> (w3, Inl e)
                     | (w3, Inr _) \<Rightarrow> (w3, Inr (True, outcome)))
                | Some b \<Rightarrow>
                    if file_mtime_drifted w2 page_path b then (w2, Inr (False, no_outcome\<lparr>oc_write_aborted := True\<rparr>))
                    else case atomic_write_bytes_if_unchanged page_path new_text graph_root b True
                            (Some (''semantic index update on '' @ page_title)) (apply_edits (il_write il) w2) of
                       (w3, Inl e) \<Rightarrow> (w3, Inl e)
                     | (w3, Inr False) \<Rightarrow> (w3, Inr (False, outcome\<lparr>oc_write_aborted := True\<rparr>))
                     | (w3, Inr True) \<Rightarrow> (w3, Inr (True, outcome)))))"

text \<open>The pages whose caches are patched afterwards are the page itself and the linked pages.\<close>

definition apply_semantic_page_result ::
  "string \<Rightarrow> string list \<Rightarrow> alias_index \<Rightarrow> path \<Rightarrow> path \<Rightarrow> string \<Rightarrow> index_result \<Rightarrow> bool \<Rightarrow> alias_index option \<Rightarrow> bool \<Rightarrow>
     baseline option \<Rightarrow> interference \<Rightarrow> (nat \<Rightarrow> nat \<Rightarrow> interference) \<Rightarrow> world \<Rightarrow>
     world \<times> (py_exn + correction_outcome)" where
  "apply_semantic_page_result stamp titles idx graph_root page_path page_title result backpropagate alias_idx disable
     baseline il links w =
     (let baseline_mtime = (case baseline of Some b \<Rightarrow> Some b | None \<Rightarrow> map_option IntBase (occ_snapshot w page_path))
      in if (case baseline_mtime of None \<Rightarrow> False | Some b \<Rightarrow> file_mtime_drifted w page_path b)
         then (w, Inr (no_outcome\<lparr>oc_write_aborted := True\<rparr>))
         else case page_rmw_lock page_path (il_lock il) w of
           Inl e \<Rightarrow> (w, Inl e)
         | Inr w1 \<Rightarrow>
             (case semantic_transaction stamp graph_root page_path page_title result disable baseline_mtime il w1 of
                (w2, Inl e) \<Rightarrow> (w2, Inl e)
              | (w2, Inr (False, outcome)) \<Rightarrow> (w2, Inr outcome)
              | (w2, Inr (True, outcome)) \<Rightarrow>
                  if backpropagate \<and> 0 < oc_applied outcome
                  then (case run_backlink_backpropagator graph_root titles idx alias_idx page_title (ix_corrections result)
                               (oc_details outcome) links w2 of
                          (w3, Inl e) \<Rightarrow> (w3, Inl e)
                        | (w3, Inr pages) \<Rightarrow> (w3, Inr (outcome\<lparr>oc_links_backpropagated := length pages\<rparr>)))
                  else (w2, Inr outcome)))"

definition append_semantic_index ::
  "string \<Rightarrow> path \<Rightarrow> path \<Rightarrow> index_result \<Rightarrow> interference \<Rightarrow> world \<Rightarrow> world \<times> (py_exn + unit)" where
  "append_semantic_index stamp graph_root page_path result il w =
     (case (case stat_file w page_path of None \<Rightarrow> Inr False
            | Some _ \<Rightarrow> (case read_graph_file_text w page_path graph_root of
                Inl e \<Rightarrow> Inl e | Inr prev \<Rightarrow> Inr (semantic_index_section_present prev))) of
        Inl e \<Rightarrow> (w, Inl e)
      | Inr True \<Rightarrow> (w, Inr ())
      | Inr False \<Rightarrow>
          (case page_title_from_path w graph_root page_path of
             Inl e \<Rightarrow> (w, Inl e)
           | Inr title \<Rightarrow>
               (case apply_semantic_page_result stamp [] empty_index graph_root page_path title result False None True None
                       il (\<lambda>_ _. il) w of
                  (w1, Inl e) \<Rightarrow> (w1, Inl e)
                | (w1, Inr _) \<Rightarrow> (w1, Inr ()))))"

subsection \<open>Corrections touch bullets only\<close>

text \<open>A safe edit of one bullet line by one of the corrections.\<close>

definition bullet_edit :: "correction list \<Rightarrow> string \<Rightarrow> string \<Rightarrow> bool" where
  "bullet_edit cs old new \<longleftrightarrow> (\<exists>c \<in> set cs. co_lint c \<noteq> AnomalyWarning \<and>
     normalize_block_text (bullet_inline_text old) = normalize_block_text (co_original c) \<and>
     is_safe_additive_correction (co_original c) (co_corrected c) (co_lint c) \<and>
     new = set_bullet_inline_text old (co_corrected c))"

definition other_line :: "string \<Rightarrow> bool" where
  "other_line l \<longleftrightarrow> lint_bullet l = None \<and> \<not> plumber_line l"

definition bullets :: "text_lines \<Rightarrow> text_lines" where
  "bullets lines = filter (\<lambda>l. lint_bullet l \<noteq> None) lines"

definition only_bullets_edited :: "correction list \<Rightarrow> text_lines \<Rightarrow> text_lines \<Rightarrow> bool" where
  "only_bullets_edited cs lines new_lines \<longleftrightarrow>
     filter other_line new_lines = filter other_line lines \<and>
     list_all2 (bullet_edit cs)\<^sup>*\<^sup>* (bullets lines) (bullets new_lines)"

lemma only_bullets_refl: "only_bullets_edited cs xs xs"
  by (simp add: only_bullets_edited_def list_all2_refl)

lemma only_bullets_trans:
  "only_bullets_edited cs xs ys \<Longrightarrow> only_bullets_edited cs ys zs \<Longrightarrow> only_bullets_edited cs xs zs"
  unfolding only_bullets_edited_def using list_all2_trans [of "(bullet_edit cs)\<^sup>*\<^sup>*" "(bullet_edit cs)\<^sup>*\<^sup>*" "(bullet_edit cs)\<^sup>*\<^sup>*"]
  by (metis rtranclp_trans)

lemma bullet_match_ws: "bullet_match s = Some (ws, m, rest) \<Longrightarrow> list_all py_space ws \<and> is_bullet_mark m"
  by (auto simp: bullet_match_def list_all_iff split: list.splits if_splits dest: set_takeWhileD)

lemma mark_no_space: "is_bullet_mark m \<Longrightarrow> \<not> py_space m"
  by (auto simp: is_bullet_mark_def py_space_def code_of_def)

lemma lstrip_ws: "list_all py_space ws \<Longrightarrow> \<not> py_space c \<Longrightarrow> lstrip (ws @ c # s) = c # s"
  by (simp add: lstrip_by_append_all) (simp add: lstrip_by_def)

lemma set_bullet_is_bullet:
  assumes "lint_bullet line = Some (ws, rest)" and "LF \<notin> set t"
  shows "lint_bullet (set_bullet_inline_text line t) \<noteq> None"
proof -
  have ws: "list_all py_space ws"
    using assms(1) bullet_match_ws by (auto simp: lint_bullet_def split: option.splits prod.splits if_splits)
  have "LF \<notin> set (CHR ''-'' # CHR '' '' # t)" using assms(2) by simp
  then have "strip_lf (ws @ CHR ''-'' # CHR '' '' # t) = ws @ CHR ''-'' # CHR '' '' # t"
    unfolding strip_lf_def by (intro rstrip_by_id) (metis append_is_Nil_conv last_appendR last_in_set list.distinct(1))
  moreover have "lstrip (ws @ CHR ''-'' # CHR '' '' # t) = CHR ''-'' # CHR '' '' # t"
    using ws by (rule lstrip_ws) (simp add: py_space_def code_of_def)
  moreover have "LF \<notin> set (lstrip (CHR '' '' # t))"
    using assms(2) by (auto simp: lstrip_by_def dest: set_dropWhileD)
  ultimately have "lint_bullet (ws @ CHR ''-'' # CHR '' '' # t) \<noteq> None"
    by (simp add: lint_bullet_def bullet_match_def is_bullet_mark_def py_space_def code_of_def)
  moreover have "lint_bullet (ws @ CHR ''-'' # CHR '' '' # t @ [LF]) = lint_bullet (ws @ CHR ''-'' # CHR '' '' # t)"
    using strip_lf_line [of "ws @ CHR ''-'' # CHR '' '' # t"] by (simp add: lint_bullet_def)
  ultimately show ?thesis
    using assms(1) by (auto simp: set_bullet_inline_text_def)
qed

lemma edit_bullet_line:
  assumes "b < length lines" and "bullet_edit cs (lines ! b) (set_bullet_inline_text (lines ! b) t)" and "LF \<notin> set t"
  shows "only_bullets_edited cs lines (lines[b := set_bullet_inline_text (lines ! b) t])"
proof (cases "lint_bullet (lines ! b)")
  case None
  then show ?thesis using only_bullets_refl by (simp add: set_bullet_inline_text_def)
next
  case (Some wr)
  obtain xs ys where lines: "lines = xs @ lines ! b # ys" "length xs = b"
    using assms(1) by (metis id_take_nth_drop length_take less_or_eq_imp_le min.absorb2)
  let ?new = "set_bullet_inline_text (lines ! b) t"
  have new: "lines[b := ?new] = xs @ ?new # ys"
    using lines by (metis list_update_length)
  obtain ws rest where lb: "lint_bullet (lines ! b) = Some (ws, rest)" using Some by (cases wr) auto
  have nb: "lint_bullet ?new \<noteq> None" by (rule set_bullet_is_bullet [OF lb assms(3)])
  have "filter other_line (lines[b := ?new]) = filter other_line lines"
    using lb nb by (subst lines(1)) (simp add: new other_line_def)
  moreover have "list_all2 (bullet_edit cs)\<^sup>*\<^sup>* (bullets (xs @ lines ! b # ys)) (bullets (lines[b := ?new]))"
    using lb nb assms(2) unfolding new by (auto simp: bullets_def intro!: list_all2_appendI list_all2_refl)
  ultimately show ?thesis
    using lines(1) unfolding only_bullets_edited_def by metis
qed

lemma insert_stamp:
  assumes "list_all py_space indent"
  shows "only_bullets_edited cs lines (list_insert n (indent @ ''matryca-plumber:: true'' @ [LF]) lines)"
proof -
  let ?s = "indent @ ''matryca-plumber:: true'' @ [LF]"
  have ls: "lstrip (indent @ CHR ''m'' # y) = CHR ''m'' # y" for y
    using assms by (rule lstrip_ws) (simp add: py_space_def code_of_def)
  have p: "plumber_line ?s" using ls by (simp add: plumber_line_def startswith_def lower_def lower_char_def code_of_def)
  have "strip_lf ?s = indent @ ''matryca-plumber:: true''"
    using strip_lf_line [of "indent @ ''matryca-plumber:: true''"]
      rstrip_by_id [of "indent @ ''matryca-plumber:: true''" "\<lambda>c. c = LF"] by (simp add: strip_lf_def)
  then have "lint_bullet ?s = None"
    using ls by (simp add: lint_bullet_def bullet_match_def is_bullet_mark_def)
  moreover have "filter P (list_insert n s lines) = filter P lines" if "\<not> P s" for P and s :: string
    using that by (simp add: list_insert_def) (metis append_take_drop_id filter_append)
  ultimately show ?thesis
    using p by (simp only: only_bullets_edited_def bullets_def other_line_def list_all2_refl rtranclp.rtrancl_refl simp_thms)
qed

lemma indent_unit_space: "list_all py_space (bullet_indent_unit lines b)"
  by (auto simp: bullet_indent_unit_def py_space_def code_of_def split: option.splits)

lemma stamp_only: "only_bullets_edited cs lines (stamp_matryca_plumber_property lines b e)"
proof -
  have "list_all py_space (case lint_bullet l of None \<Rightarrow> [] | Some (ws, r) \<Rightarrow> ws)" for l
    using bullet_match_ws by (auto simp: lint_bullet_def split: option.splits prod.splits if_splits)
  then have "list_all py_space ((case lint_bullet l of None \<Rightarrow> [] | Some (ws, r) \<Rightarrow> ws) @ bullet_indent_unit ls k)" for l ls k
    using indent_unit_space by simp
  note ins = insert_stamp [OF this, simplified]
  show ?thesis
    using ins only_bullets_refl by (simp add: stamp_matryca_plumber_property_def Let_def)
qed

lemma length_stamp: "length lines \<le> length (stamp_matryca_plumber_property lines b e)"
  by (auto simp: stamp_matryca_plumber_property_def Let_def list_insert_def)

lemma correct_one_only:
  assumes "correct_one (b, e, c) lines = (new_lines, r)" and "b < length lines" and "c \<in> set cs" and "LF \<notin> set (co_corrected c)"
  shows "only_bullets_edited cs lines new_lines \<and> length lines \<le> length new_lines"
proof -
  let ?l = "lines[b := set_bullet_inline_text (lines ! b) (co_corrected c)]"
  consider "new_lines = lines" | "new_lines = stamp_matryca_plumber_property ?l b e"
      "bullet_edit cs (lines ! b) (set_bullet_inline_text (lines ! b) (co_corrected c))"
    using assms(1,3) unfolding correct_one_def Let_def prod.case bullet_edit_def
    by (auto split: if_splits option.splits prod.splits)
  then show ?thesis
  proof cases
    case 1
    then show ?thesis using only_bullets_refl by simp
  next
    case 2
    then show ?thesis
      using only_bullets_trans [OF edit_bullet_line [OF assms(2) 2(2) assms(4)] stamp_only]
        length_stamp [of ?l b e] by simp
  qed
qed

lemma correct_all_only:
  assumes "correct_all ps lines = (new_lines, skips, details)"
    and "\<forall>(b, e, c) \<in> set ps. b < length lines \<and> c \<in> set cs \<and> LF \<notin> set (co_corrected c)"
  shows "only_bullets_edited cs lines new_lines"
  using assms
proof (induction ps arbitrary: lines new_lines skips details)
  case Nil
  then show ?case using only_bullets_refl by simp
next
  case (Cons p ps)
  obtain b e c where p: "p = (b, e, c)" by (cases p)
  obtain lines1 r where one: "correct_one (b, e, c) lines = (lines1, r)" by (cases "correct_one (b, e, c) lines")
  obtain lines2 s d where rest: "correct_all ps lines1 = (lines2, s, d)" by (cases "correct_all ps lines1")
  have "new_lines = lines2" using Cons.prems(1) p one rest by (auto split: sum.splits)
  moreover have o: "only_bullets_edited cs lines lines1 \<and> length lines \<le> length lines1"
    using Cons.prems(2) p by (intro correct_one_only [OF one]) auto
  moreover have "only_bullets_edited cs lines1 lines2"
    using Cons.prems(2) o by (intro Cons.IH [OF rest]) force
  ultimately show ?case using only_bullets_trans by blast
qed

lemma collect_pending_mem:
  "(b, e, c) \<in> set (fst (collect_pending stripped protected cs)) \<Longrightarrow>
     c \<in> set cs \<and> (\<exists>i. locate_block_by_uuid stripped (co_uuid c) = Some (b, i, e)) \<and> (\<forall>i. b \<le> i \<and> i < e \<longrightarrow> i \<notin> protected)"
proof (induction cs)
  case (Cons c' cs)
  then show ?case
    by (fastforce split: prod.splits option.splits if_splits simp: list_ex_iff)
qed simp

subsection \<open>Plans and validation\<close>

lemma splitlines_prefix: "\<exists>x. splitlines (s @ LF # t) = splitlines s @ x"
proof (induction s rule: py_lines.induct)
  case (2 c cs)
  consider (crlf) "line_break c" "c = CR \<and> cs \<noteq> [] \<and> hd cs = LF"
    | (brk) "line_break c" "\<not> (c = CR \<and> cs \<noteq> [] \<and> hd cs = LF)"
    | (plain) "\<not> line_break c" by blast
  then show ?case
  proof cases
    case crlf
    then obtain ds where "cs = LF # ds" by (cases cs) auto
    with crlf 2(1) show ?thesis by (auto simp: splitlines_def)
  next
    case brk
    show ?thesis
    proof (cases "cs = [] \<and> c = CR")
      case True
      then show ?thesis by (simp add: splitlines_def)
    next
      case False
      with brk 2(2) show ?thesis by (cases cs) (auto simp: splitlines_def)
    qed
  next
    case plain
    with 2(3) obtain x where "splitlines (cs @ LF # t) = splitlines cs @ x" by blast
    with plain show ?thesis
      by (cases "py_lines cs"; cases "py_lines (cs @ LF # t)") (auto simp: splitlines_def)
  qed
qed simp

lemma validate_prefix:
  assumes "splitlines after = splitlines before @ x"
  shows "validate_llm_write_diff before after = None"
proof -
  have "reject_id_line_deletion before after = None"
    using assms by (auto simp: reject_id_line_deletion_def id_lines_def list_all_iff)
  moreover have "reject_protected_zones_modification before after = None"
    using assms by (simp add: reject_protected_zones_modification_def check_protected_None nth_append)
  ultimately show ?thesis by (simp add: validate_llm_write_diff_def)
qed

lemma format_index_LF: "\<exists>x. format_index_section stamp result details = LF # x"
  by (simp add: format_index_section_def Let_def join_def)

lemma strip_lf_last: "\<not> endswith s [LF, LF] \<Longrightarrow> s = strip_lf s \<or> s = strip_lf s @ [LF]"
proof -
  assume e: "\<not> endswith s [LF, LF]"
  obtain t where t: "s = strip_lf s @ t" "list_all (\<lambda>c. c = LF) t"
    unfolding strip_lf_def using rstrip_by_decomp by blast
  show ?thesis
  proof (cases t rule: rev_cases)
    case (snoc u c)
    have "u = []"
    proof (rule ccontr)
      assume "u \<noteq> []"
      then obtain v d where "u = v @ [d]" by (metis rev_exhaust)
      then have "s = (strip_lf s @ v) @ [LF, LF]" using t snoc by simp
      then show False using e by (metis endswith_append)
    qed
    then show ?thesis using t snoc by simp
  qed (use t in simp)
qed

text \<open>
  In the default mode, without block corrections, a semantic write appends. A page that is
  not blank and does not end in an empty line is never refused by the validators, and the text
  to write is the page itself if it has an index section, and else the page with the section
  behind its last line.
\<close>

theorem semantic_index_append_only:
  assumes "strip prev \<noteq> []" and "\<not> endswith prev [LF, LF]"
  shows "plan_semantic_write stamp prev result True =
    Inr (if semantic_index_section_present prev then prev
         else strip_lf prev @ format_index_section stamp result [], no_outcome)"
proof -
  obtain x where x: "format_index_section stamp result [] = LF # x"
    using format_index_LF by blast
  have "\<exists>y. splitlines (strip_lf prev @ LF # x) = splitlines prev @ y"
    using strip_lf_last [OF assms(2)] splitlines_prefix [of "strip_lf prev" x] splitlines_cut [of "strip_lf prev" x] by metis
  then have "validate_llm_write_diff prev (strip_lf prev @ format_index_section stamp result []) = None"
    using validate_prefix x by metis
  moreover have "validate_llm_write_diff prev prev = None"
    using validate_prefix [of prev prev "[]"] by simp
  ultimately show ?thesis
    using assms(1) by (simp add: plan_semantic_write_def no_outcome_def Let_def)
qed

definition small_result :: "correction list \<Rightarrow> index_result" where
  "small_result cs = \<lparr>ix_summary = ''about a'', ix_cross_references = [], ix_suggested_tags = [''t''], ix_moc_pointers = [],
     ix_corrections = cs\<rparr>"

lemma semantic_index_append_only_witness:
  "plan_semantic_write ''now'' (''- a'' @ [LF]) (small_result []) True =
     Inr (''- a'' @ format_index_section ''now'' (small_result []) [], no_outcome)"
proof -
  have "strip (''- a'' @ [LF]) \<noteq> []" "\<not> endswith (''- a'' @ [LF]) [LF, LF]" by code_simp+
  from semantic_index_append_only [OF this, of "''now''" "small_result []"] show ?thesis
    using strip_lf_line [of "''- a''"] strip_lf_no_break [of "''- a''"]
    by (simp add: semantic_index_section_present_def SEMANTIC_INDEX_HEADING_def contains_def startswith_def line_break_def)
qed


definition example_uuid :: string where
  "example_uuid = ''aaaaaaaa-aaaa-aaaa-aaaa-aaaaaaaaaaaa''"

definition link_correction :: "string \<Rightarrow> string \<Rightarrow> correction" where
  "link_correction old new = \<lparr>co_uuid = example_uuid, co_original = old, co_corrected = new, co_lint = AutoWikilink, co_reason = ''seed''\<rparr>"

definition example_block :: text_lines where
  "example_block = [''- see A'' @ [LF], ''  id:: '' @ example_uuid @ [LF], ''  note'' @ [LF]]"


subsection \<open>The write is one step\<close>

text \<open>A file that is at the end what it was before the clock of the start was so all the time.\<close>

lemma later_unchanged:
  assumes "later p w0 w1" and "later p w1 w2" and "files w2 p = Some f" and "mtime f < clock w0"
  shows "files w1 p = Some f"
proof (rule ccontr)
  assume "files w1 p \<noteq> Some f"
  then have "clock w1 \<le> mtime f" using assms(2,3) by (auto simp: later_def)
  moreover have "clock w0 \<le> clock w1" using assms(1) by (simp add: later_def)
  ultimately show False using assms(4) by simp
qed

lemma semantic_transaction_written:
  assumes "semantic_transaction stamp groot p title result dis (Some b) il w1 = (w2, Inr (True, out))"
  obtains prev new_text where "read_graph_file_text w1 p groot = Inr prev"
    "plan_semantic_write stamp prev result dis = Inr (new_text, out)"
    "atomic_write_bytes_if_unchanged p new_text groot b True (Some (''semantic index update on '' @ title))
       (apply_edits (il_write il) (apply_edits (il_copy il) w1)) = (w2, Inr True)"
proof (cases "stat_file w1 p")
  case None
  then have "plan_semantic_write stamp [] result dis = Inl (no_outcome\<lparr>oc_skipped := 1, oc_skip_reasons := [EmptyPageBody]\<rparr>)"
    by (simp add: plan_semantic_write_def)
  then show ?thesis using assms None by (simp add: semantic_transaction_def)
next
  case (Some f)
  then obtain prev where prev: "read_graph_file_text w1 p groot = Inr prev"
    using assms by (cases "read_graph_file_text w1 p groot") (simp_all add: semantic_transaction_def)
  obtain new_text o2 where plan: "plan_semantic_write stamp prev result dis = Inr (new_text, o2)"
    using assms Some prev
    by (cases "plan_semantic_write stamp prev result dis") (auto simp: semantic_transaction_def Let_def split: if_splits)
  show ?thesis
    using assms Some prev plan that
    by (auto simp: semantic_transaction_def Let_def split: if_splits prod.splits sum.splits bool.splits)
qed

text \<open>A call that skipped nothing and did not abort has written the page.\<close>

lemma semantic_transaction_result:
  assumes "semantic_transaction stamp groot p title result dis (Some b) il w1 = (w2, Inr (written, out))"
  shows "written \<or> oc_write_aborted out \<or> EmptyPageBody \<in> set (oc_skip_reasons out)"
  using assms
  by (auto simp: semantic_transaction_def plan_semantic_write_def Let_def split: if_splits prod.splits sum.splits bool.splits option.splits)



subsection \<open>Corrections that go wrong\<close>

text \<open>A corrected text with a line feed adds a block to the page.\<close>

lemma multiline_correction_adds_block:
  "concat (fst (apply_semantic_corrections_to_lines [''- a - b'' @ [LF], ''  id:: '' @ example_uuid @ [LF]]
      [link_correction ''a - b'' (''[[a]]'' @ [LF] @ ''- b'')])) =
   ''- [[a]]'' @ [LF] @ ''- b'' @ [LF] @ ''  id:: '' @ example_uuid @ [LF] @ ''  matryca-plumber:: true'' @ [LF]"
  by code_simp

text \<open>
  On a page that does not end in a line feed, a correction of the last block glues the stamp to
  the id line, and above a code fence it shifts the fence: the validators refuse the whole
  write, with the index section in it.
\<close>

lemma unterminated_page_refused:
  "(case plan_semantic_write ''now'' (''- see A'' @ [LF] @ ''  id:: '' @ example_uuid)
      (small_result [link_correction ''see A'' ''see [[A]]'']) False of
      Inl out \<Rightarrow> oc_write_aborted out \<and> oc_skip_reasons out = [L0Safety IdLineDeleted] | Inr _ \<Rightarrow> False)"
  by code_simp

lemma correction_above_fence_refused:
  "(case plan_semantic_write ''now'' (''- see A'' @ [LF] @ ''  id:: '' @ example_uuid @ [LF] @ ''- b'' @ [LF] @ ''```'' @ [LF] @ ''x'' @ [LF] @ ''```'' @ [LF])
      (small_result [link_correction ''see A'' ''see [[A]]'']) False of
      Inl out \<Rightarrow> oc_write_aborted out | Inr _ \<Rightarrow> False)"
  by code_simp

text \<open>The checks of a correction: a tag may replace another, and an old link rules out a new one.\<close>

lemma tag_hygiene_replaces_tag: "is_safe_additive_correction ''plan #a'' ''plan #bb'' TagHygiene"
  by code_simp

lemma linked_bullet_never_corrected: "\<not> is_safe_additive_correction ''[[x]] and A'' ''[[x]] and [[A]]'' AutoWikilink"
  by code_simp

end
