(* ===== verification/MasterCatalog.thy ===== *)
theory MasterCatalog
  imports DaemonState Backlinks
begin

section \<open>The master catalog of pages\<close>

text \<open>
  Model of \<open>src/graph/master_catalog.py\<close>: the rows of the catalog and their JSON form, the
  operations on a loaded catalog, the merging save and the load with its backup, the reading
  of a row from a page, and the compiled index page with the guarded write of
  \<open>src/graph/generated_hub_write.py\<close>. The module keeps one catalog per graph root; the model is
  about one graph root. What other threads do to the same catalog object during a save is an
  explicit list of operations, what other processes do to the file is a change of the disk
  between two operations. The section that \<open>save\<close> runs under the file lock is one step, and so
  is a load. The text of a value that is not a string is the parameter \<open>rp\<close>, as for
  the checkpoint.
\<close>

subsection \<open>Rows and their JSON form\<close>

record page_row =
  ce_summary :: string
  ce_domain :: string
  ce_tags :: "string list"
  ce_last_mtime :: int
  ce_orphan :: bool

definition CATALOG_VERSION :: int where
  "CATALOG_VERSION = 1"

definition LEGACY_SECONDS_MTIME_CUTOFF :: int where
  "LEGACY_SECONDS_MTIME_CUTOFF = 10000000000"

definition normalize_stored_mtime_ns :: "int \<Rightarrow> int" where
  "normalize_stored_mtime_ns stored =
     (if abs stored < LEGACY_SECONDS_MTIME_CUTOFF then stored * 1000000000 else stored)"

definition stored_mtime_matches :: "int \<Rightarrow> int \<Rightarrow> bool" where
  "stored_mtime_matches stored mtime_ns =
     (if abs stored < LEGACY_SECONDS_MTIME_CUTOFF then mtime_ns div 1000000000 = stored
      else mtime_ns = stored)"

definition entry_to_json :: "page_row \<Rightarrow> json" where
  "entry_to_json e =
     JObj [(''summary'', JStr (ce_summary e)), (''domain'', JStr (ce_domain e)),
       (''tags'', JArr (map JStr (ce_tags e))), (''last_mtime'', JInt (ce_last_mtime e)),
       (''orphan'', JBool (ce_orphan e))]"

definition tags_of_json :: "(json \<Rightarrow> string) \<Rightarrow> json \<Rightarrow> string list" where
  "tags_of_json rp v = (case v of JArr ts \<Rightarrow> map (py_str rp) ts | _ \<Rightarrow> [])"

definition entry_of_json :: "(json \<Rightarrow> string) \<Rightarrow> obj \<Rightarrow> conv_error + page_row" where
  "entry_of_json rp rec =
     and_then (py_int (jget rec ''last_mtime'' (JInt 0))) (\<lambda>m.
       Inr \<lparr>ce_summary = py_str rp (jget rec ''summary'' (JStr [])),
            ce_domain = py_str rp (jget rec ''domain'' (JStr [])),
            ce_tags = tags_of_json rp (jget rec ''tags'' (JArr [])),
            ce_last_mtime = m,
            ce_orphan = py_bool (jget rec ''orphan'' (JBool False))\<rparr>)"

text \<open>The dictionary \<open>pages\<close>: a list of titles and rows in insertion order.\<close>

type_synonym pages = "(string \<times> page_row) list"

fun pages_of_json :: "(json \<Rightarrow> string) \<Rightarrow> obj \<Rightarrow> pages \<Rightarrow> conv_error + pages" where
  "pages_of_json rp [] acc = Inr acc"
| "pages_of_json rp ((title, v) # items) acc =
     (case v of
        JObj rec \<Rightarrow> and_then (entry_of_json rp rec) (\<lambda>e. pages_of_json rp items (AList.update title e acc))
      | _ \<Rightarrow> pages_of_json rp items acc)"

definition by_title :: "pages \<Rightarrow> pages" where
  "by_title ps = sort_key fst ps"

definition catalog_json :: "int \<Rightarrow> json \<Rightarrow> pages \<Rightarrow> json" where
  "catalog_json version updated_at ps =
     JObj [(''version'', JInt version), (''updated_at'', updated_at),
       (''pages'', JObj (map (\<lambda>(title, e). (title, entry_to_json e)) (by_title ps)))]"

subsection \<open>A loaded catalog and its operations\<close>

text \<open>
  The fields of the dataclass, without the graph root and the lock. \<open>mc_fold\<close> is the cached
  casefold index, \<open>mc_removals\<close> the titles removed since the last save.
\<close>

record catalog =
  mc_version :: int
  mc_updated_at :: json
  mc_pages :: pages
  mc_aliases :: "(string \<times> string) list"
  mc_persist_allowed :: bool
  mc_removals :: "string set"
  mc_fold :: "(string \<times> string) list option"

definition new_catalog :: "bool \<Rightarrow> catalog" where
  "new_catalog persist =
     \<lparr>mc_version = CATALOG_VERSION, mc_updated_at = JNull, mc_pages = [], mc_aliases = [],
      mc_persist_allowed = persist, mc_removals = {}, mc_fold = None\<rparr>"

definition catalog_to_json :: "catalog \<Rightarrow> json" where
  "catalog_to_json c = catalog_json (mc_version c) (mc_updated_at c) (mc_pages c)"

definition catalog_of_json :: "(json \<Rightarrow> string) \<Rightarrow> obj \<Rightarrow> conv_error + catalog" where
  "catalog_of_json rp pl =
     and_then (pages_of_json rp (items_of (jget pl ''pages'' (JObj []))) []) (\<lambda>ps.
     and_then (py_int (jget pl ''version'' (JInt CATALOG_VERSION))) (\<lambda>version.
       Inr ((new_catalog True)\<lparr>mc_version := version, mc_updated_at := jget pl ''updated_at'' JNull, mc_pages := ps\<rparr>)))"

definition catalog_upsert :: "string \<Rightarrow> page_row \<Rightarrow> catalog \<Rightarrow> catalog" where
  "catalog_upsert title e c =
     c\<lparr>mc_pages := AList.update title e (mc_pages c), mc_removals := mc_removals c - {title}, mc_fold := None\<rparr>"

definition catalog_get :: "string \<Rightarrow> catalog \<Rightarrow> page_row option" where
  "catalog_get title c = map_of (mc_pages c) title"

definition catalog_remove :: "string \<Rightarrow> catalog \<Rightarrow> catalog" where
  "catalog_remove title c =
     c\<lparr>mc_pages := AList.delete title (mc_pages c), mc_removals := insert title (mc_removals c), mc_fold := None\<rparr>"

text \<open>The dictionary comprehension lets the last title with a given key win.\<close>

definition casefold_index :: "pages \<Rightarrow> (string \<times> string) list" where
  "casefold_index ps = fold (\<lambda>(title, e) m. AList.update (casefold title) title m) ps []"

definition catalog_get_case_insensitive :: "string \<Rightarrow> catalog \<Rightarrow> catalog \<times> (string \<times> page_row) option" where
  "catalog_get_case_insensitive title c =
     (case map_of (mc_pages c) title of
        Some e \<Rightarrow> (c, Some (title, e))
      | None \<Rightarrow>
          (let index = (case mc_fold c of None \<Rightarrow> casefold_index (mc_pages c) | Some m \<Rightarrow> m);
               c' = c\<lparr>mc_fold := Some index\<rparr>
           in case map_of index (casefold title) of
                None \<Rightarrow> (c', None)
              | Some canonical \<Rightarrow>
                  (case map_of (mc_pages c) canonical of
                     None \<Rightarrow> (c', None)
                   | Some e \<Rightarrow> (c', Some (canonical, e)))))"

definition catalog_resolve_alias :: "string \<Rightarrow> catalog \<Rightarrow> string option" where
  "catalog_resolve_alias alias c =
     (let nrm = normalize_concept_key alias
      in if nrm = [] then None else map_of (mc_aliases c) nrm)"

definition catalog_needs_refresh :: "string \<Rightarrow> int \<Rightarrow> catalog \<Rightarrow> bool" where
  "catalog_needs_refresh title mtime_ns c =
     (case map_of (mc_pages c) title of
        None \<Rightarrow> True
      | Some e \<Rightarrow> \<not> stored_mtime_matches (ce_last_mtime e) mtime_ns)"

definition catalog_prune_missing_pages :: "string set \<Rightarrow> catalog \<Rightarrow> catalog \<times> nat" where
  "catalog_prune_missing_pages live c =
     (let stale = filter (\<lambda>t. t \<notin> live) (map fst (mc_pages c));
          orphans = filter (\<lambda>p. snd p \<notin> live) (mc_aliases c)
      in (c\<lparr>mc_pages := filter (\<lambda>p. fst p \<in> live) (mc_pages c),
            mc_removals := mc_removals c \<union> set stale,
            mc_fold := (if stale = [] then mc_fold c else None),
            mc_aliases := filter (\<lambda>p. snd p \<in> live) (mc_aliases c)\<rparr>,
          length stale + length orphans))"

subsection \<open>The catalog file\<close>

text \<open>
  The catalog file, its backup and the files a corrupt catalog was moved to (by time stamp).
  \<open>cd_mtime\<close> is the modification time of the catalog file, \<open>cd_clock\<close> the one its next write gets.
\<close>

record catalog_disk =
  cd_main :: disk_file
  cd_backup :: disk_file
  cd_quarantine :: "(string \<times> disk_file) list"
  cd_mtime :: int
  cd_clock :: int

text \<open>
  How the system calls of one operation end. A failing copy leaves some content behind in the
  backup; the other calls leave the disk as it was. \<open>io_stamp\<close> and \<open>io_now\<close> are the two texts
  made from the current time.
\<close>

record catalog_io =
  io_lock_fails :: bool
  io_read_fails :: bool
  io_backup_lock_fails :: bool
  io_backup_read_fails :: bool
  io_move_fails :: bool
  io_write_fails :: bool
  io_copy_fails :: "disk_file option"
  io_stat_fails :: bool
  io_stamp :: string
  io_now :: string

datatype catalog_error =
    CatalogLoadError
  | CatalogSaveError
  | CatalogIo
  | CatalogConv conv_error
  | CatalogPolicy policy_error

text \<open>The two module dictionaries, at the graph root of the model.\<close>

record catalog_cache =
  cc_loaded :: "catalog option"
  cc_mtime_ns :: "int option"

definition quarantine_corrupt_catalog :: "catalog_io \<Rightarrow> catalog_disk \<Rightarrow> catalog_disk" where
  "quarantine_corrupt_catalog io d =
     (if io_move_fails io then d
      else d\<lparr>cd_main := Missing, cd_quarantine := AList.update (io_stamp io) (cd_main d) (cd_quarantine d)\<rparr>)"

definition abort_merge_save :: "catalog_io \<Rightarrow> catalog_disk \<Rightarrow> catalog_disk \<times> (catalog_error + pages)" where
  "abort_merge_save io d = (quarantine_corrupt_catalog io d, Inl CatalogSaveError)"

definition load_catalog_pages_unlocked ::
  "(json \<Rightarrow> string) \<Rightarrow> catalog_io \<Rightarrow> catalog_disk \<Rightarrow> catalog_disk \<times> (catalog_error + pages)" where
  "load_catalog_pages_unlocked rp io d =
     (if cd_main d = Missing then (d, Inr [])
      else if io_read_fails io then abort_merge_save io d
      else case cd_main d of
             Holds (JObj pl) \<Rightarrow>
               (case catalog_of_json rp pl of
                  Inl e \<Rightarrow> (d, Inl (CatalogConv e))
                | Inr c \<Rightarrow> (d, Inr (mc_pages c)))
           | _ \<Rightarrow> abort_merge_save io d)"

definition merge_row :: "string \<Rightarrow> page_row \<Rightarrow> pages \<Rightarrow> pages" where
  "merge_row title e merged =
     (case map_of merged title of
        None \<Rightarrow> AList.update title e merged
      | Some old \<Rightarrow>
          if normalize_stored_mtime_ns (ce_last_mtime old) \<le> normalize_stored_mtime_ns (ce_last_mtime e)
          then AList.update title e merged else merged)"

definition merge_catalog_page_deltas :: "pages \<Rightarrow> pages \<Rightarrow> pages" where
  "merge_catalog_page_deltas disk pending = fold (\<lambda>(title, e). merge_row title e) pending disk"

definition drop_titles :: "string set \<Rightarrow> pages \<Rightarrow> pages" where
  "drop_titles titles ps = filter (\<lambda>p. fst p \<notin> titles) ps"

definition write_catalog :: "json \<Rightarrow> catalog_disk \<Rightarrow> catalog_disk" where
  "write_catalog j d = d\<lparr>cd_main := Holds j, cd_mtime := cd_clock d, cd_clock := cd_clock d + 1\<rparr>"

text \<open>The section under the file lock: the pages written, or the error raised.\<close>

definition save_locked ::
  "(json \<Rightarrow> string) \<Rightarrow> catalog_io \<Rightarrow> bool \<Rightarrow> catalog \<Rightarrow> catalog_disk \<Rightarrow> catalog_disk \<times> (catalog_error + pages)" where
  "save_locked rp io replace_all c d =
     (if io_lock_fails io then (d, Inl CatalogIo)
      else case (if replace_all then (d, Inr (mc_pages c))
                 else case load_catalog_pages_unlocked rp io d of
                        (d1, Inl e) \<Rightarrow> (d1, Inl e)
                      | (d1, Inr disk) \<Rightarrow> (d1, Inr (drop_titles (mc_removals c) (merge_catalog_page_deltas disk (mc_pages c))))) of
             (d1, Inl e) \<Rightarrow> (d1, Inl e)
           | (d1, Inr merged) \<Rightarrow>
               if io_write_fails io then (d1, Inl CatalogIo)
               else (write_catalog (catalog_json (mc_version c) (JStr (io_now io)) merged) d1, Inr merged))"

text \<open>What other threads may do to the catalog object while \<open>save\<close> does not hold its lock.\<close>

datatype catalog_op =
    OpUpsert string page_row
  | OpRemove string
  | OpPrune "string set"
  | OpFind string

fun run_op :: "catalog_op \<Rightarrow> catalog \<Rightarrow> catalog" where
  "run_op (OpUpsert title e) c = catalog_upsert title e c"
| "run_op (OpRemove title) c = catalog_remove title c"
| "run_op (OpPrune live) c = fst (catalog_prune_missing_pages live c)"
| "run_op (OpFind title) c = fst (catalog_get_case_insensitive title c)"

definition catalog_path :: "path \<Rightarrow> path" where
  "catalog_path graph_root = graph_root @ [''.matryca_semantic_cache'', ''master_catalog.json'']"

definition catalog_save ::
  "(json \<Rightarrow> string) \<Rightarrow> world \<Rightarrow> path \<Rightarrow> catalog_io \<Rightarrow> bool \<Rightarrow> catalog_op list \<Rightarrow>
   catalog \<Rightarrow> catalog_cache \<Rightarrow> catalog_disk \<Rightarrow> (catalog_error + unit) \<times> catalog \<times> catalog_cache \<times> catalog_disk" where
  "catalog_save rp w graph_root io replace_all ops c cache d =
     (if \<not> mc_persist_allowed c then (Inr (), fold run_op ops c, cache, d)
      else case guard_graph_mutation (resolve w) (env_read_only w) graph_root (catalog_path graph_root) of
        Inl (GraphReadOnlyError r) \<Rightarrow> (Inr (), fold run_op ops c, cache, d)
      | Inl e \<Rightarrow> (Inl (CatalogPolicy e), fold run_op ops c, cache, d)
      | Inr _ \<Rightarrow>
          (case save_locked rp io replace_all c d of
             (d1, Inl CatalogSaveError) \<Rightarrow>
               (Inl CatalogSaveError, (fold run_op ops c)\<lparr>mc_persist_allowed := False\<rparr>, cache, d1)
           | (d1, Inl e) \<Rightarrow> (Inl e, fold run_op ops c, cache, d1)
           | (d1, Inr merged) \<Rightarrow>
               (Inr (),
                (fold run_op ops c)\<lparr>mc_pages := merged, mc_fold := None, mc_updated_at := JStr (io_now io), mc_removals := {}\<rparr>,
                (if io_stat_fails io then cache else cache\<lparr>cc_mtime_ns := Some (cd_mtime d1)\<rparr>), d1)))"

text \<open>The guard that precedes a lock for reading: whether the lock is taken, or the error raised.\<close>

definition flock_sidecar_path :: "path \<Rightarrow> path" where
  "flock_sidecar_path target = butlast target @ [''.'' @ last target @ ''.flock'']"

definition read_flock_guard :: "world \<Rightarrow> path \<Rightarrow> path \<Rightarrow> catalog_error + bool" where
  "read_flock_guard w graph_root target =
     (case guard_graph_mutation (resolve w) (env_read_only w) graph_root (flock_sidecar_path target) of
        Inr _ \<Rightarrow> Inr True
      | Inl (GraphReadOnlyError r) \<Rightarrow> Inr False
      | Inl e \<Rightarrow> Inl (CatalogPolicy e))"

definition catalog_backup_path :: "path \<Rightarrow> path" where
  "catalog_backup_path graph_root = butlast (catalog_path graph_root) @ [last (catalog_path graph_root) @ ''.bak'']"

text \<open>The backup of a catalog file that cannot be parsed: \<open>None\<close> when it does not help.\<close>

definition load_backup ::
  "(json \<Rightarrow> string) \<Rightarrow> world \<Rightarrow> path \<Rightarrow> catalog_io \<Rightarrow> catalog_disk \<Rightarrow> catalog_error + catalog option" where
  "load_backup rp w graph_root io d =
     (if cd_backup d = Missing then Inr None
      else and_then (read_flock_guard w graph_root (catalog_backup_path graph_root)) (\<lambda>locks.
        if locks \<and> io_backup_lock_fails io then Inl CatalogIo
        else if io_backup_read_fails io then Inr None
        else case cd_backup d of
               Holds (JObj pl) \<Rightarrow>
                 (case catalog_of_json rp pl of Inl e \<Rightarrow> Inl (CatalogConv e) | Inr c \<Rightarrow> Inr (Some c))
             | _ \<Rightarrow> Inr None))"

definition load_catalog_payload_from_disk ::
  "(json \<Rightarrow> string) \<Rightarrow> world \<Rightarrow> path \<Rightarrow> catalog_io \<Rightarrow> catalog_disk \<Rightarrow> catalog_disk \<times> (catalog_error + catalog)" where
  "load_catalog_payload_from_disk rp w graph_root io d =
     (case read_flock_guard w graph_root (catalog_path graph_root) of
        Inl e \<Rightarrow> (d, Inl e)
      | Inr locks \<Rightarrow>
          if (locks \<and> io_lock_fails io) \<or> io_read_fails io then (d, Inl CatalogIo)
          else case cd_main d of
                 Holds (JObj pl) \<Rightarrow>
                   (case catalog_of_json rp pl of Inl e \<Rightarrow> (d, Inl (CatalogConv e)) | Inr c \<Rightarrow> (d, Inr c))
               | Holds _ \<Rightarrow> (d, Inr (new_catalog False))
               | _ \<Rightarrow>
                   (case load_backup rp w graph_root io d of
                      Inl e \<Rightarrow> (d, Inl e)
                    | Inr (Some c) \<Rightarrow> (d, Inr c)
                    | Inr None \<Rightarrow>
                        (case is_graph_read_only (env_read_only w) of
                           Inl e \<Rightarrow> (d, Inl (CatalogPolicy e))
                         | Inr True \<Rightarrow> (d, Inr (new_catalog False))
                         | Inr False \<Rightarrow> (quarantine_corrupt_catalog io d, Inr (new_catalog False)))))"

text \<open>After a load that may persist, the file is copied over the backup.\<close>

definition refresh_backup :: "catalog_io \<Rightarrow> catalog_disk \<Rightarrow> catalog_disk" where
  "refresh_backup io d =
     d\<lparr>cd_backup := (case io_copy_fails io of None \<Rightarrow> cd_main d | Some left \<Rightarrow> left)\<rparr>"

definition finish_catalog_load ::
  "world \<Rightarrow> path list \<Rightarrow> path \<Rightarrow> catalog_io \<Rightarrow> catalog \<Rightarrow> catalog_cache \<Rightarrow> catalog_disk \<Rightarrow>
   (catalog_error + catalog) \<times> catalog_cache \<times> catalog_disk" where
  "finish_catalog_load w listing graph_root io c cache d =
     (let c' = c\<lparr>mc_aliases := ai_alias_to_page (build_alias_index w listing graph_root)\<rparr>
      in (Inr c',
          cache\<lparr>cc_loaded := Some c',
                cc_mtime_ns := (if cd_main d = Missing then cc_mtime_ns cache
                                else if io_stat_fails io then None else Some (cd_mtime d))\<rparr>, d))"

definition cached_catalog :: "catalog_io \<Rightarrow> bool \<Rightarrow> catalog_cache \<Rightarrow> catalog_disk \<Rightarrow> catalog option" where
  "cached_catalog io force_reload cache d =
     (if force_reload then None
      else case cc_loaded cache of
             None \<Rightarrow> None
           | Some c \<Rightarrow>
               if cd_main d \<noteq> Missing \<and> \<not> io_stat_fails io \<and> cc_mtime_ns cache \<noteq> Some (cd_mtime d) then None
               else Some c)"

definition load_master_catalog ::
  "(json \<Rightarrow> string) \<Rightarrow> world \<Rightarrow> path list \<Rightarrow> path \<Rightarrow> catalog_io \<Rightarrow> bool \<Rightarrow> catalog_cache \<Rightarrow> catalog_disk \<Rightarrow>
   (catalog_error + catalog) \<times> catalog_cache \<times> catalog_disk" where
  "load_master_catalog rp w listing graph_root io force_reload cache d =
     (case cached_catalog io force_reload cache d of
        Some c \<Rightarrow> (Inr c, cache, d)
      | None \<Rightarrow>
          if cd_main d = Missing then finish_catalog_load w listing graph_root io (new_catalog True) cache d
          else case load_catalog_payload_from_disk rp w graph_root io d of
            (d1, Inl CatalogIo) \<Rightarrow>
              (case cc_loaded cache of
                 Some c \<Rightarrow> (Inr c, cache, d1)
               | None \<Rightarrow> (Inl CatalogLoadError, cache, d1))
          | (d1, Inl e) \<Rightarrow> (Inl e, cache, d1)
          | (d1, Inr c) \<Rightarrow>
              (case (if mc_persist_allowed c then is_graph_read_only (env_read_only w) else Inr True) of
                 Inl e \<Rightarrow> (Inl (CatalogPolicy e), cache, d1)
               | Inr skip_copy \<Rightarrow>
                   finish_catalog_load w listing graph_root io c cache (if skip_copy then d1 else refresh_backup io d1)))"

definition clear_master_catalog_cache :: "catalog_cache" where
  "clear_master_catalog_cache = \<lparr>cc_loaded = None, cc_mtime_ns = None\<rparr>"

definition unload_master_catalog :: "catalog_cache \<Rightarrow> catalog_cache \<times> bool" where
  "unload_master_catalog cache = (cache\<lparr>cc_loaded := None\<rparr>, cc_loaded cache \<noteq> None)"

subsection \<open>Rows in the JSON form\<close>

lemma py_int_JInt [simp]: "py_int (JInt n) = Inr n" by simp

lemma entry_round_trip: "entry_to_json e = JObj rec \<Longrightarrow> entry_of_json rp rec = Inr e"
  by (cases e) (auto simp: entry_to_json_def entry_of_json_def jget_def tags_of_json_def py_str_def o_def)

lemma pages_round_trip:
  "distinct (map fst (acc @ ps)) \<Longrightarrow>
     pages_of_json rp (map (\<lambda>(title, e). (title, entry_to_json e)) ps) acc = Inr (acc @ ps)"
proof (induction ps arbitrary: acc)
  case (Cons p ps)
  obtain title e where p: "p = (title, e)" by (cases p)
  obtain rec where rec: "entry_to_json e = JObj rec" by (simp add: entry_to_json_def)
  have "title \<notin> fst ` set acc" using Cons.prems p by auto
  then have "AList.update title e acc = acc @ [p]" by (simp add: update_new p)
  then show ?case using Cons p rec by (simp add: entry_round_trip [OF rec])
qed simp

lemma distinct_by_title [simp]: "distinct (map fst (by_title ps)) = distinct (map fst ps)"
  unfolding by_title_def by (metis distinct_sort mset_map mset_sort mset_eq_imp_distinct_iff)

lemma set_by_title [simp]: "set (by_title ps) = set ps"
  by (simp add: by_title_def)

lemma map_of_by_title: "distinct (map fst ps) \<Longrightarrow> map_of (by_title ps) = map_of ps"
  by (subst map_of_inject_set) simp_all

lemma catalog_json_round_trip:
  assumes "distinct (map fst ps)" "catalog_json version u ps = JObj pl"
  shows "catalog_of_json rp pl = Inr ((new_catalog True)\<lparr>mc_version := version, mc_updated_at := u, mc_pages := by_title ps\<rparr>)"
proof -
  have pl: "pl = [(''version'', JInt version), (''updated_at'', u),
      (''pages'', JObj (map (\<lambda>(title, e). (title, entry_to_json e)) (by_title ps)))]"
    using assms(2) by (simp add: catalog_json_def)
  have "pages_of_json rp (map (\<lambda>(title, e). (title, entry_to_json e)) (by_title ps)) [] = Inr (by_title ps)"
    using pages_round_trip [of "[]" "by_title ps" rp] assms(1) by simp
  then show ?thesis
    unfolding pl by (simp add: catalog_of_json_def jget_def items_of_def)
qed

lemma by_title_cong:
  assumes "distinct (map fst ps)" "distinct (map fst qs)" "map_of ps = map_of qs"
  shows "by_title ps = by_title qs"
proof (rule map_sorted_distinct_set_unique [of fst])
  have "set ps = set qs" using assms by (simp add: map_of_inject_set)
  then show "set (by_title ps) = set (by_title qs)" by simp
  show "inj_on fst (set (by_title ps) \<union> set (by_title qs))"
    using assms \<open>set ps = set qs\<close> by (simp add: distinct_map)
qed (use assms in \<open>simp_all add: by_title_def [symmetric]\<close>, simp_all add: by_title_def)

subsection \<open>The newest row wins\<close>

definition row_time :: "page_row \<Rightarrow> int" where
  "row_time e = normalize_stored_mtime_ns (ce_last_mtime e)"

definition newest :: "page_row option \<Rightarrow> page_row option \<Rightarrow> page_row option" where
  "newest old new =
     (case new of None \<Rightarrow> old
      | Some e \<Rightarrow> (case old of None \<Rightarrow> Some e | Some old' \<Rightarrow> if row_time old' \<le> row_time e then Some e else old))"

lemma newest_None [simp]: "newest old None = old" "newest None new = new"
  by (auto simp: newest_def split: option.splits)

lemma newest_commute:
  assumes "\<And>e e'. a = Some e \<Longrightarrow> b = Some e' \<Longrightarrow> row_time e = row_time e' \<Longrightarrow> e = e'"
  shows "newest (newest old a) b = newest (newest old b) a"
proof (cases a; cases b)
  fix x y assume ab: "a = Some x" "b = Some y"
  show ?thesis
  proof (cases "row_time x = row_time y")
    case True
    then show ?thesis using assms ab by blast
  next
    case False
    then show ?thesis using ab by (cases old) (auto simp: newest_def)
  qed
qed simp_all

lemma newest_time:
  "old = Some e \<Longrightarrow> \<exists>e'. newest old new = Some e' \<and> row_time e \<le> row_time e'"
  by (auto simp: newest_def split: option.splits)

lemma map_of_merge_row: "map_of (merge_row t e m) = (map_of m)(t := newest (map_of m t) (Some e))"
  by (auto simp: merge_row_def newest_def row_time_def update_conv' split: option.splits)

lemma merge_lookup:
  "distinct (map fst pending) \<Longrightarrow>
     map_of (merge_catalog_page_deltas disk pending) t = newest (map_of disk t) (map_of pending t)"
proof (induction pending arbitrary: disk)
  case (Cons p pending)
  obtain k e where p: "p = (k, e)" by (cases p)
  have "map_of pending k = None" using Cons.prems p by (simp add: map_of_eq_None_iff)
  then show ?case using Cons p
    by (simp add: merge_catalog_page_deltas_def map_of_merge_row)
qed (simp add: merge_catalog_page_deltas_def)

lemma distinct_merge_row: "distinct (map fst m) \<Longrightarrow> distinct (map fst (merge_row t e m))"
  by (auto simp: merge_row_def distinct_update split: option.splits)

lemma distinct_merge [simp]:
  "distinct (map fst disk) \<Longrightarrow> distinct (map fst (merge_catalog_page_deltas disk pending))"
  unfolding merge_catalog_page_deltas_def
  by (induction pending arbitrary: disk) (auto simp: distinct_merge_row)

lemma distinct_drop_titles [simp]: "distinct (map fst ps) \<Longrightarrow> distinct (map fst (drop_titles ts ps))"
  by (simp add: drop_titles_def distinct_map_filter)

lemma map_of_drop_titles: "map_of (drop_titles ts ps) t = (if t \<in> ts then None else map_of ps t)"
  by (induction ps) (auto simp: drop_titles_def)

lemma pages_of_json_distinct:
  "distinct (map fst acc) \<Longrightarrow> pages_of_json rp items acc = Inr ps \<Longrightarrow> distinct (map fst ps)"
proof (induction rp items acc rule: pages_of_json.induct)
  case (2 rp title v items acc)
  then show ?case
    by (cases v) (auto simp: and_then_def distinct_update split: sum.splits)
qed simp

lemma catalog_of_json_distinct: "catalog_of_json rp pl = Inr c \<Longrightarrow> distinct (map fst (mc_pages c))"
  by (auto simp: catalog_of_json_def and_then_def dest: pages_of_json_distinct [rotated] split: sum.splits)

subsection \<open>What a save leaves on disk\<close>

text \<open>The rows a reader finds in the catalog file; \<open>None\<close> when it cannot be read as a catalog.\<close>

definition disk_rows :: "(json \<Rightarrow> string) \<Rightarrow> catalog_disk \<Rightarrow> pages option" where
  "disk_rows rp d =
     (case cd_main d of
        Missing \<Rightarrow> Some []
      | Holds (JObj pl) \<Rightarrow> (case catalog_of_json rp pl of Inl e \<Rightarrow> None | Inr c \<Rightarrow> Some (mc_pages c))
      | _ \<Rightarrow> None)"

definition io_ok :: "catalog_io \<Rightarrow> bool" where
  "io_ok io \<longleftrightarrow> \<not> io_lock_fails io \<and> \<not> io_read_fails io \<and> \<not> io_write_fails io"

definition catalog_ok :: "catalog \<Rightarrow> bool" where
  "catalog_ok c \<longleftrightarrow> distinct (map fst (mc_pages c)) \<and>
     (mc_fold c = None \<or> mc_fold c = Some (casefold_index (mc_pages c)))"

lemma disk_rows_distinct: "disk_rows rp d = Some ps \<Longrightarrow> distinct (map fst ps)"
  by (auto simp: disk_rows_def dest: catalog_of_json_distinct split: disk_file.splits json.splits sum.splits)

lemma load_rows:
  "\<not> io_read_fails io \<Longrightarrow> disk_rows rp d = Some ps \<Longrightarrow> load_catalog_pages_unlocked rp io d = (d, Inr ps)"
  by (auto simp: disk_rows_def load_catalog_pages_unlocked_def split: disk_file.splits json.splits sum.splits)

lemma disk_rows_write:
  assumes "distinct (map fst ps)"
  shows "disk_rows rp (write_catalog (catalog_json version u ps) d) = Some (by_title ps)"
proof -
  obtain pl where pl: "catalog_json version u ps = JObj pl" by (simp add: catalog_json_def)
  show ?thesis
    by (simp add: disk_rows_def write_catalog_def pl catalog_json_round_trip [OF assms pl])
qed

definition merged_rows :: "catalog \<Rightarrow> pages \<Rightarrow> pages" where
  "merged_rows c ps = drop_titles (mc_removals c) (merge_catalog_page_deltas ps (mc_pages c))"

lemma distinct_merged_rows: "distinct (map fst ps) \<Longrightarrow> distinct (map fst (merged_rows c ps))"
  by (simp add: merged_rows_def)

lemma merged_rows_lookup:
  "distinct (map fst (mc_pages c)) \<Longrightarrow> map_of (merged_rows c ps) t =
     (if t \<in> mc_removals c then None else newest (map_of ps t) (map_of (mc_pages c) t))"
  by (simp add: merged_rows_def map_of_drop_titles merge_lookup)

lemma save_locked_good:
  "io_ok io \<Longrightarrow> disk_rows rp d = Some ps \<Longrightarrow>
     save_locked rp io False c d =
       (write_catalog (catalog_json (mc_version c) (JStr (io_now io)) (merged_rows c ps)) d, Inr (merged_rows c ps))"
  by (simp add: save_locked_def load_rows io_ok_def merged_rows_def)

definition saved_disk :: "catalog_io \<Rightarrow> catalog \<Rightarrow> pages \<Rightarrow> catalog_disk \<Rightarrow> catalog_disk" where
  "saved_disk io c ps d = write_catalog (catalog_json (mc_version c) (JStr (io_now io)) (merged_rows c ps)) d"

lemma disk_rows_saved: "distinct (map fst ps) \<Longrightarrow> disk_rows rp (saved_disk io c ps d) = Some (by_title (merged_rows c ps))"
  by (simp add: saved_disk_def disk_rows_write distinct_merged_rows)

definition may_save :: "world \<Rightarrow> path \<Rightarrow> catalog \<Rightarrow> bool" where
  "may_save w graph_root c \<longleftrightarrow>
     mc_persist_allowed c \<and> guard_graph_mutation (resolve w) (env_read_only w) graph_root (catalog_path graph_root) = Inr ()"

lemma catalog_save_good:
  "may_save w graph_root c \<Longrightarrow> io_ok io \<Longrightarrow> disk_rows rp d = Some ps \<Longrightarrow>
     catalog_save rp w graph_root io False ops c cache d =
       (Inr (),
        (fold run_op ops c)\<lparr>mc_pages := merged_rows c ps, mc_fold := None, mc_updated_at := JStr (io_now io), mc_removals := {}\<rparr>,
        (if io_stat_fails io then cache else cache\<lparr>cc_mtime_ns := Some (cd_clock d)\<rparr>),
        saved_disk io c ps d)"
  by (simp add: may_save_def catalog_save_def save_locked_good saved_disk_def write_catalog_def)

text \<open>What a process that saves its catalog leaves on disk.\<close>

definition process_save ::
  "(json \<Rightarrow> string) \<Rightarrow> world \<Rightarrow> path \<Rightarrow> catalog_io \<Rightarrow> catalog \<Rightarrow> catalog_disk \<Rightarrow> catalog_disk" where
  "process_save rp w graph_root io c d =
     (case catalog_save rp w graph_root io False [] c clear_master_catalog_cache d of (_, _, _, d') \<Rightarrow> d')"

lemma process_save_good:
  "may_save w graph_root c \<Longrightarrow> io_ok io \<Longrightarrow> disk_rows rp d = Some ps \<Longrightarrow>
     process_save rp w graph_root io c d = saved_disk io c ps d"
  by (simp add: process_save_def catalog_save_good)


text \<open>
  Two processes that save changed rows, without removals, leave the same rows on disk in
  whichever order their saves run, unless they hold different rows of one page with the same
  time.
\<close>

theorem catalog_saves_commute:
  assumes "may_save w graph_root a" "may_save w graph_root b" "io_ok io" "io_ok io'"
    and "distinct (map fst (mc_pages a))" "distinct (map fst (mc_pages b))"
    and "mc_removals a = {}" "mc_removals b = {}" "disk_rows rp d = Some ps"
    and "\<And>t e e'. map_of (mc_pages a) t = Some e \<Longrightarrow> map_of (mc_pages b) t = Some e' \<Longrightarrow>
           row_time e = row_time e' \<Longrightarrow> e = e'"
  shows "disk_rows rp (process_save rp w graph_root io' b (process_save rp w graph_root io a d)) =
         disk_rows rp (process_save rp w graph_root io a (process_save rp w graph_root io' b d))"
proof -
  have ps: "distinct (map fst ps)" using assms(9) by (rule disk_rows_distinct)
  let ?A = "merged_rows a ps" and ?B = "merged_rows b ps"
  let ?d1 = "process_save rp w graph_root io a d" and ?d3 = "process_save rp w graph_root io' b d"
  have d1: "disk_rows rp ?d1 = Some (by_title ?A)" and d3: "disk_rows rp ?d3 = Some (by_title ?B)"
    using assms(1-4,9) ps by (simp_all add: process_save_good disk_rows_saved)
  have d2: "disk_rows rp (process_save rp w graph_root io' b ?d1) = Some (by_title (merged_rows b (by_title ?A)))"
    unfolding process_save_good [OF assms(2,4) d1] using ps by (simp add: disk_rows_saved distinct_merged_rows)
  have d4: "disk_rows rp (process_save rp w graph_root io a ?d3) = Some (by_title (merged_rows a (by_title ?B)))"
    unfolding process_save_good [OF assms(1,3) d3] using ps by (simp add: disk_rows_saved distinct_merged_rows)
  have "newest (newest (map_of ps t) (map_of (mc_pages a) t)) (map_of (mc_pages b) t) =
        newest (newest (map_of ps t) (map_of (mc_pages b) t)) (map_of (mc_pages a) t)" for t
    by (rule newest_commute) (rule assms(10))
  then have "map_of (merged_rows b (by_title ?A)) = map_of (merged_rows a (by_title ?B))"
    using assms(5-8) ps by (intro ext) (simp add: merged_rows_lookup map_of_by_title distinct_merged_rows)
  then have "by_title (merged_rows b (by_title ?A)) = by_title (merged_rows a (by_title ?B))"
    by (intro by_title_cong) (simp_all add: distinct_merged_rows ps)
  then show ?thesis by (simp add: d2 d4)
qed

text \<open>A sequence of saves by processes that share the disk, each with its own catalog.\<close>

fun process_saves ::
  "(json \<Rightarrow> string) \<Rightarrow> world \<Rightarrow> path \<Rightarrow> (catalog_io \<times> catalog) list \<Rightarrow> catalog_disk \<Rightarrow> catalog_disk" where
  "process_saves rp w graph_root [] d = d"
| "process_saves rp w graph_root ((io, c) # saves) d =
     process_saves rp w graph_root saves (process_save rp w graph_root io c d)"

lemma process_save_rows:
  assumes "\<not> io_read_fails io" "disk_rows rp d = Some ps"
  shows "process_save rp w graph_root io c d = d \<or> process_save rp w graph_root io c d = saved_disk io c ps d"
proof (cases "may_save w graph_root c \<and> io_ok io")
  case True
  then show ?thesis using assms(2) by (simp add: process_save_good)
next
  case False
  have "fst (save_locked rp io False c d) = d" if "\<not> io_ok io"
    using that assms by (auto simp: save_locked_def io_ok_def load_rows)
  then show ?thesis using False
    by (auto simp: process_save_def catalog_save_def may_save_def split: sum.splits policy_error.splits catalog_error.splits prod.splits)
qed



subsection \<open>Loading what was saved\<close>

lemma read_flock_guard_total:
  "is_graph_read_only (env_read_only w) = Inr ro \<Longrightarrow> \<exists>locks. read_flock_guard w graph_root target = Inr locks"
  by (cases ro) (auto simp: read_flock_guard_def guard_graph_mutation_def make_policy_def ensure_write_allowed_def
      split: sum.splits option.splits policy_error.splits)

lemma load_parsed:
  assumes "is_graph_read_only (env_read_only w) = Inr ro" "\<not> io_lock_fails io" "\<not> io_read_fails io"
    and "cached_catalog io force_reload cache d = None"
    and "cd_main d = Holds (JObj pl)" "catalog_of_json rp pl = Inr c"
  shows "\<exists>c' cache' d'. load_master_catalog rp w listing graph_root io force_reload cache d = (Inr c', cache', d') \<and>
     mc_pages c' = mc_pages c \<and> mc_version c' = mc_version c \<and> mc_updated_at c' = mc_updated_at c \<and>
     mc_persist_allowed c' = mc_persist_allowed c \<and> cc_loaded cache' = Some c' \<and> cd_main d' = cd_main d"
proof -
  obtain locks where "read_flock_guard w graph_root (catalog_path graph_root) = Inr locks"
    using read_flock_guard_total [OF assms(1)] by metis
  then show ?thesis
    using assms by (auto simp: load_master_catalog_def load_catalog_payload_from_disk_def
        finish_catalog_load_def refresh_backup_def Let_def)
qed

text \<open>
  What a successful save wrote, any process reads back: a load that does not use a cached
  catalog gives the rows of memory sorted by title, with the version and the time of the
  save, and may persist.
\<close>

theorem catalog_save_load_roundtrip:
  assumes "may_save w graph_root c" "io_ok io" "distinct (map fst (mc_pages c))" "disk_rows rp d = Some ps"
    and "is_graph_read_only (env_read_only w2) = Inr ro" "\<not> io_lock_fails io2" "\<not> io_read_fails io2"
    and "cc_loaded cache2 = None"
  shows "\<exists>c' cache' d'. catalog_save rp w graph_root io False [] c cache d = (Inr (), c', cache', d') \<and>
    (\<exists>c2 cache3 d2. load_master_catalog rp w2 listing graph_root io2 force_reload cache2 d' = (Inr c2, cache3, d2) \<and>
       mc_pages c2 = by_title (mc_pages c') \<and> mc_version c2 = mc_version c' \<and>
       mc_updated_at c2 = mc_updated_at c' \<and> mc_persist_allowed c2 \<and> cd_main d2 = cd_main d')"
proof -
  let ?rows = "merged_rows c ps"
  have ps: "distinct (map fst ?rows)" using assms(4) by (simp add: disk_rows_distinct distinct_merged_rows)
  obtain pl where pl: "catalog_json (mc_version c) (JStr (io_now io)) ?rows = JObj pl" by (simp add: catalog_json_def)
  have main: "cd_main (saved_disk io c ps d) = Holds (JObj pl)" by (simp add: saved_disk_def write_catalog_def pl)
  have "cached_catalog io2 force_reload cache2 (saved_disk io c ps d) = None"
    using assms(8) by (simp add: cached_catalog_def)
  from load_parsed [OF assms(5-7) this main catalog_json_round_trip [OF ps pl], of rp listing graph_root]
  have "\<exists>c2 cache3 d2.
      load_master_catalog rp w2 listing graph_root io2 force_reload cache2 (saved_disk io c ps d) = (Inr c2, cache3, d2) \<and>
      mc_pages c2 = by_title ?rows \<and> mc_version c2 = mc_version c \<and> mc_updated_at c2 = JStr (io_now io) \<and>
      mc_persist_allowed c2 \<and> cd_main d2 = cd_main (saved_disk io c ps d)"
    by (fastforce simp: new_catalog_def)
  then show ?thesis
    by (simp add: catalog_save_good [OF assms(1,2,4)])
qed

subsection \<open>The cached casefold index\<close>

lemma casefold_index_lookup:
  "map_of (casefold_index ps) f =
     (case filter (\<lambda>p. casefold (fst p) = f) ps of [] \<Rightarrow> None | qs \<Rightarrow> Some (fst (last qs)))"
proof (induction ps rule: rev_induct)
  case (snoc p ps)
  then show ?case
    by (cases p) (auto simp: casefold_index_def update_conv' split: list.splits)
qed (simp add: casefold_index_def)

lemma catalog_ok_run_op: "catalog_ok c \<Longrightarrow> catalog_ok (run_op op c)"
proof (induction op c rule: run_op.induct)
  case (3 live c)
  have "filter (\<lambda>p. fst p \<in> live) (mc_pages c) = mc_pages c" if "filter (\<lambda>t. t \<notin> live) (map fst (mc_pages c)) = []"
    using that by (simp add: filter_empty_conv filter_id_conv)
  then show ?case using 3
    by (auto simp: catalog_ok_def catalog_prune_missing_pages_def Let_def distinct_map_filter)
next
  case (4 title c)
  then show ?case
    by (auto simp: catalog_ok_def catalog_get_case_insensitive_def Let_def split: option.splits)
qed (auto simp: catalog_ok_def catalog_upsert_def catalog_remove_def distinct_update distinct_delete)

lemma catalog_ok_run_ops: "catalog_ok c \<Longrightarrow> catalog_ok (fold run_op ops c)"
  by (induction ops arbitrary: c) (simp_all add: catalog_ok_run_op)

lemma catalog_ok_save:
  assumes "catalog_ok c" "catalog_save rp w graph_root io replace_all ops c cache d = (r, c', cache', d')"
  shows "catalog_ok c'"
proof -
  have rows: "distinct (map fst merged)" if "save_locked rp io replace_all c d = (d1, Inr merged)" for d1 merged
    using that assms(1)
    by (auto simp: save_locked_def load_catalog_pages_unlocked_def abort_merge_save_def catalog_ok_def
          dest: catalog_of_json_distinct
        split: if_splits disk_file.splits json.splits sum.splits)
  have keep: "catalog_ok ((fold run_op ops c)\<lparr>mc_persist_allowed := False\<rparr>)"
    using catalog_ok_run_ops [OF assms(1), of ops] by (simp add: catalog_ok_def)
  show ?thesis
    using assms(2) catalog_ok_run_ops [OF assms(1), of ops] keep rows
    by (auto simp: catalog_save_def split: if_splits sum.splits policy_error.splits catalog_error.splits prod.splits)
       (auto simp: catalog_ok_def)
qed

lemma catalog_ok_of_json: "catalog_of_json rp pl = Inr c \<Longrightarrow> catalog_ok c"
  using catalog_of_json_distinct [of rp pl c]
  by (auto simp: catalog_of_json_def and_then_def catalog_ok_def new_catalog_def split: sum.splits)

text \<open>
  The casefold index that lookups keep is never stale: after any operations on a
  catalog, a save among them, a case-insensitive lookup finds a row exactly when some title
  has the same casefold, gives the row of that very title, and prefers the exact title.
\<close>

theorem case_insensitive_lookup_correct:
  assumes "catalog_of_json rp pl = Inr c0"
    and "catalog_save rp w graph_root io replace_all ops1 (fold run_op ops0 c0) cache d = (r, c1, cache', d')"
    and "c = fold run_op ops2 c1"
  shows "case snd (catalog_get_case_insensitive title c) of
           None \<Rightarrow> \<forall>t \<in> set (map fst (mc_pages c)). casefold t \<noteq> casefold title
         | Some (t, e) \<Rightarrow> map_of (mc_pages c) t = Some e \<and> casefold t = casefold title \<and>
             (title \<in> set (map fst (mc_pages c)) \<longrightarrow> t = title)"
proof -
  have "catalog_ok c"
    using catalog_ok_run_ops [OF catalog_ok_of_json [OF assms(1)]] catalog_ok_save [OF _ assms(2)]
      catalog_ok_run_ops [of c1 ops2] assms(3) by blast
  then have index: "(case mc_fold c of None \<Rightarrow> casefold_index (mc_pages c) | Some m \<Rightarrow> m) = casefold_index (mc_pages c)"
    by (auto simp: catalog_ok_def split: option.splits)
  show ?thesis
  proof (cases "map_of (mc_pages c) title")
    case (Some e)
    then show ?thesis by (simp add: catalog_get_case_insensitive_def)
  next
    case None
    then have new: "title \<notin> set (map fst (mc_pages c))" by (simp add: map_of_eq_None_iff)
    let ?qs = "filter (\<lambda>p. casefold (fst p) = casefold title) (mc_pages c)"
    show ?thesis
    proof (cases "?qs = []")
      case True
      then show ?thesis using None
        by (auto simp: catalog_get_case_insensitive_def index Let_def casefold_index_lookup filter_empty_conv)
    next
      case False
      have l: "last ?qs \<in> set ?qs" using False by (metis last_in_set)
      then have "\<exists>e. map_of (mc_pages c) (fst (last ?qs)) = Some e"
        by (metis (no_types, lifting) filter_is_subset map_of_eq_None_iff image_eqI not_Some_eq set_map subsetD image_set)
      moreover have "casefold (fst (last ?qs)) = casefold title" using l by auto
      moreover have "map_of (casefold_index (mc_pages c)) (casefold title) = Some (fst (last ?qs))"
        using False by (simp add: casefold_index_lookup split: list.splits)
      ultimately show ?thesis using None new
        by (auto simp: catalog_get_case_insensitive_def index Let_def)
    qed
  qed
qed

subsection \<open>Concrete runs\<close>

definition example_row :: "string \<Rightarrow> int \<Rightarrow> page_row" where
  "example_row s m = \<lparr>ce_summary = s, ce_domain = ''area'', ce_tags = [''x''], ce_last_mtime = m, ce_orphan = False\<rparr>"

definition example_catalog :: "pages \<Rightarrow> catalog" where
  "example_catalog ps = (new_catalog True)\<lparr>mc_pages := ps\<rparr>"

definition calm_io :: "catalog_io" where
  "calm_io = \<lparr>io_lock_fails = False, io_read_fails = False, io_backup_lock_fails = False, io_backup_read_fails = False,
     io_move_fails = False, io_write_fails = False, io_copy_fails = None, io_stat_fails = False,
     io_stamp = ''20240101T000000Z'', io_now = ''2024-01-01T00:00:00+00:00''\<rparr>"

definition example_disk :: "disk_file \<Rightarrow> disk_file \<Rightarrow> catalog_disk" where
  "example_disk main backup =
     \<lparr>cd_main = main, cd_backup = backup, cd_quarantine = [], cd_mtime = 1700000000000000000, cd_clock = 1700000000000000001\<rparr>"

definition stored :: "pages \<Rightarrow> disk_file" where
  "stored ps = Holds (catalog_json 1 JNull ps)"

lemma example_may_save: "may_save (example_world t '''') groot (example_catalog ps)"
proof -
  have "is_graph_read_only '''' = Inr False" by code_simp
  then show ?thesis
    by (simp add: may_save_def example_catalog_def new_catalog_def guard_graph_mutation_def example_world_def)
qed

lemma calm_io_ok [simp]: "io_ok calm_io"
  by (simp add: io_ok_def calm_io_def)

lemma example_disk_rows:
  "distinct (map fst ps) \<Longrightarrow> disk_rows rp (example_disk (stored ps) bak) = Some (by_title ps)"
  using catalog_json_round_trip [of ps 1 JNull _ rp]
  by (auto simp: disk_rows_def example_disk_def stored_def catalog_json_def)


lemma catalog_saves_commute_witness:
  "let w = example_world [] ''''; a = example_catalog [(''A'', example_row ''a'' 20)];
       b = example_catalog [(''A'', example_row ''b'' 30)]; d = example_disk Missing Missing
   in disk_rows (\<lambda>_. []) (process_save (\<lambda>_. []) w [''g''] calm_io b (process_save (\<lambda>_. []) w [''g''] calm_io a d)) =
      disk_rows (\<lambda>_. []) (process_save (\<lambda>_. []) w [''g''] calm_io a (process_save (\<lambda>_. []) w [''g''] calm_io b d))"
  unfolding Let_def
proof (rule catalog_saves_commute [OF example_may_save example_may_save calm_io_ok calm_io_ok])
  show "disk_rows (\<lambda>_. []) (example_disk Missing Missing) = Some []" by (simp add: disk_rows_def example_disk_def)
qed (auto simp: example_catalog_def new_catalog_def example_row_def row_time_def
    normalize_stored_mtime_ns_def LEGACY_SECONDS_MTIME_CUTOFF_def split: if_splits)



lemma catalog_save_load_roundtrip_witness:
  "\<exists>c' cache' d'. catalog_save (\<lambda>_. []) (example_world [] '''') [''g''] calm_io False []
       (example_catalog [(''B'', example_row ''b'' 1), (''A'', example_row ''a'' 2)])
       clear_master_catalog_cache (example_disk Missing Missing) = (Inr (), c', cache', d') \<and>
    (\<exists>c2 cache3 d2. load_master_catalog (\<lambda>_. []) (example_world [] ''true'') [] [''g''] calm_io False
         clear_master_catalog_cache d' = (Inr c2, cache3, d2) \<and>
       mc_pages c2 = by_title (mc_pages c') \<and> mc_version c2 = mc_version c' \<and>
       mc_updated_at c2 = mc_updated_at c' \<and> mc_persist_allowed c2 \<and> cd_main d2 = cd_main d')"
proof (rule catalog_save_load_roundtrip [OF example_may_save calm_io_ok])
  show "is_graph_read_only (env_read_only (example_world [] ''true'')) = Inr True" by code_simp
qed (auto simp: example_catalog_def disk_rows_def example_disk_def calm_io_def clear_master_catalog_cache_def)

lemma case_insensitive_lookup_correct_witness:
  "\<exists>r c1 cache' d'. catalog_save (\<lambda>_. []) (example_world [] '''') [''g''] calm_io False [OpFind ''a'']
       (fold run_op [OpUpsert ''Alpha'' (example_row ''s'' 1), OpFind ''alpha''] (new_catalog True))
       clear_master_catalog_cache (example_disk Missing Missing) = (r, c1, cache', d') \<and>
     (case snd (catalog_get_case_insensitive ''ALPHA'' (fold run_op [OpFind ''x''] c1)) of
        None \<Rightarrow> \<forall>t \<in> set (map fst (mc_pages (fold run_op [OpFind ''x''] c1))). casefold t \<noteq> casefold ''ALPHA''
      | Some (t, e) \<Rightarrow> map_of (mc_pages (fold run_op [OpFind ''x''] c1)) t = Some e \<and> casefold t = casefold ''ALPHA'' \<and>
          (''ALPHA'' \<in> set (map fst (mc_pages (fold run_op [OpFind ''x''] c1))) \<longrightarrow> t = ''ALPHA''))"
proof -
  have c0: "catalog_of_json (\<lambda>_. []) [] = Inr (new_catalog True)"
    by (simp add: catalog_of_json_def jget_def items_of_def new_catalog_def)
  let ?s = "catalog_save (\<lambda>_. []) (example_world [] '''') [''g''] calm_io False [OpFind ''a'']
       (fold run_op [OpUpsert ''Alpha'' (example_row ''s'' 1), OpFind ''alpha''] (new_catalog True))
       clear_master_catalog_cache (example_disk Missing Missing)"
  obtain r c1 cache' d' where s: "?s = (r, c1, cache', d')" by (cases ?s)
  show ?thesis
    using s case_insensitive_lookup_correct [OF c0 s refl, of "[OpFind ''x'']" "''ALPHA''"] by blast
qed

subsection \<open>What goes wrong\<close>

text \<open>
  A row recorded by another thread while \<open>save\<close> writes is lost: the assignment after the write
  replaces the rows by those of the snapshot.
\<close>

lemma save_loses_concurrent_upsert:
  assumes "may_save w graph_root c" "io_ok io" "disk_rows rp d = Some ps" "map_of (mc_pages c) t = None"
    "map_of ps t = None" "distinct (map fst (mc_pages c))"
  shows "\<exists>c' cache' d'. catalog_save rp w graph_root io False [OpUpsert t e] c cache d = (Inr (), c', cache', d') \<and>
     catalog_get t c' = None \<and> (\<forall>qs. disk_rows rp d' = Some qs \<longrightarrow> map_of qs t = None)"
  using assms disk_rows_distinct [OF assms(3)]
  by (simp add: catalog_save_good catalog_get_def merged_rows_lookup disk_rows_saved map_of_by_title distinct_merged_rows)

text \<open>
  A load that restores the backup does not repair the catalog file, and then copies the
  corrupt file over the backup.
\<close>

lemma restored_backup_destroyed:
  assumes "is_graph_read_only (env_read_only w) = Inr False" "\<not> io_lock_fails io" "\<not> io_read_fails io"
    "\<not> io_backup_lock_fails io" "\<not> io_backup_read_fails io" "io_copy_fails io = None"
    "cc_loaded cache = None" "cd_main d = Garbled" "cd_backup d = Holds (JObj pl)" "catalog_of_json rp pl = Inr c"
  shows "\<exists>c' cache'. load_master_catalog rp w listing graph_root io False cache d =
     (Inr c', cache', d\<lparr>cd_backup := Garbled\<rparr>) \<and> mc_pages c' = mc_pages c"
proof -
  have "read_flock_guard w graph_root p = Inr True" for p
    using assms(1) by (simp add: read_flock_guard_def guard_graph_mutation_def)
  moreover have "mc_persist_allowed c"
    using assms(10) by (auto simp: catalog_of_json_def and_then_def new_catalog_def split: sum.splits)
  ultimately show ?thesis
    using assms by (simp add: load_master_catalog_def cached_catalog_def load_catalog_payload_from_disk_def load_backup_def
        finish_catalog_load_def refresh_backup_def Let_def)
qed

text \<open>A merge save that cannot open the file for a moment moves a healthy catalog away.\<close>

lemma transient_read_quarantines_catalog:
  assumes "may_save w graph_root c" "\<not> io_lock_fails io" "io_read_fails io" "\<not> io_move_fails io" "cd_main d \<noteq> Missing"
  shows "\<exists>c' cache' d'. catalog_save rp w graph_root io False ops c cache d = (Inl CatalogSaveError, c', cache', d') \<and>
     cd_main d' = Missing"
  using assms by (simp add: catalog_save_def may_save_def save_locked_def load_catalog_pages_unlocked_def abort_merge_save_def
      quarantine_corrupt_catalog_def)

text \<open>A row that one process removed comes back with the next save of a process that still has it.\<close>

lemma removed_row_comes_back:
  assumes "may_save w graph_root a" "may_save w graph_root b" "io_ok io" "disk_rows rp d = Some ps"
    "distinct (map fst (mc_pages a))" "distinct (map fst (mc_pages b))"
    "map_of (mc_pages b) t = Some e" "t \<in> mc_removals a" "t \<notin> mc_removals b"
  shows "\<exists>qs qs'. disk_rows rp (process_save rp w graph_root io a d) = Some qs \<and> map_of qs t = None \<and>
     disk_rows rp (process_save rp w graph_root io b (process_save rp w graph_root io a d)) = Some qs' \<and> map_of qs' t = Some e"
proof -
  have ps: "distinct (map fst ps)" using assms(4) by (rule disk_rows_distinct)
  have a: "disk_rows rp (process_save rp w graph_root io a d) = Some (by_title (merged_rows a ps))"
    unfolding process_save_good [OF assms(1,3,4)] by (simp add: disk_rows_saved ps)
  have b: "disk_rows rp (process_save rp w graph_root io b (process_save rp w graph_root io a d)) =
      Some (by_title (merged_rows b (by_title (merged_rows a ps))))"
    unfolding process_save_good [OF assms(2,3) a] by (simp add: disk_rows_saved ps distinct_merged_rows)
  show ?thesis
    unfolding a b using assms(5-9) ps
    by (simp add: map_of_by_title distinct_merged_rows merged_rows_lookup)
qed

end
