(* ===== verification/CatalogPages.thy ===== *)
theory CatalogPages
  imports MasterCatalog SemanticWrite
begin

section \<open>Rows read from pages and the compiled index page\<close>

text \<open>
  Model of the page side of \<open>src/graph/master_catalog.py\<close> (reading a row from the semantic index
  of a page, stale pages, completeness, the compiled index page), of the harvest of one page in
  \<open>src/graph/bootstrap_harvest.py\<close>, of the read in \<open>src/graph/markdown_io.py\<close>, of
  \<open>src/graph/page_namespace.py\<close>, and of the write in \<open>src/graph/generated_hub_write.py\<close>. The regular
  expressions are searched from the line starts of the text; \<open>\s\<close> also matches line breaks.
  Dashes outside the modelled character range are written as their UTF-8 bytes. What the
  language model answers, and what lands on disk while it works, is a parameter.
\<close>

subsection \<open>Field lines\<close>

text \<open>The texts that begin where \<open>^\<close> matches with \<open>re.MULTILINE\<close>.\<close>

fun after_lf :: "string \<Rightarrow> string list" where
  "after_lf [] = []"
| "after_lf (c # s) = (if c = LF then s # after_lf s else after_lf s)"

definition line_starts :: "string \<Rightarrow> string list" where
  "line_starts s = s # after_lf s"

definition key_at :: "string \<Rightarrow> string \<Rightarrow> string option" where
  "key_at key s = (if lower (take (length key) s) = key then Some (lstrip (drop (length key) s)) else None)"

text \<open>\<open>^\s*-\s*key\s*(.+?)\s*$\<close>; a match whose group is only white space counts as none.\<close>

definition dash_field :: "string \<Rightarrow> string \<Rightarrow> string option" where
  "dash_field key s =
     (case lstrip s of
        [] \<Rightarrow> None
      | c # r \<Rightarrow>
          if c \<noteq> CHR ''-'' then None
          else case key_at key (lstrip r) of
                 None \<Rightarrow> None
               | Some [] \<Rightarrow> None
               | Some v \<Rightarrow> Some (rstrip (takeWhile (\<lambda>c. c \<noteq> LF) v)))"

text \<open>\<open>^\s*type::\s*(\S+)\s*$\<close>.\<close>

definition type_field :: "string \<Rightarrow> string option" where
  "type_field s =
     (case key_at ''type::'' (lstrip s) of
        None \<Rightarrow> None
      | Some v \<Rightarrow>
          (let word = takeWhile (\<lambda>c. \<not> py_space c) v; rest = drop (length word) v
           in if word \<noteq> [] \<and> (LF \<in> set (takeWhile py_space rest) \<or> lstrip rest = []) then Some word else None))"

fun search_lines :: "(string \<Rightarrow> string option) \<Rightarrow> string list \<Rightarrow> string option" where
  "search_lines f [] = None"
| "search_lines f (s # ss) = (case f s of None \<Rightarrow> search_lines f ss | Some v \<Rightarrow> Some v)"

definition summary_line_value :: "string \<Rightarrow> string option" where
  "summary_line_value content = search_lines (dash_field ''summary::'') (line_starts content)"

definition tags_line_value :: "string \<Rightarrow> string option" where
  "tags_line_value content = search_lines (dash_field ''suggested-tags::'') (line_starts content)"

definition type_line_value :: "string \<Rightarrow> string option" where
  "type_line_value content = search_lines type_field (line_starts content)"

definition MARPA_DOMAINS :: "string list" where
  "MARPA_DOMAINS = [''mappa'', ''area'', ''risorsa'', ''progetto'', ''archivio'']"

definition normalize_domain :: "string \<Rightarrow> string" where
  "normalize_domain raw = (let value = lower (strip raw) in if value \<in> set MARPA_DOMAINS then value else [])"

text \<open>\<open>re.split(r"\s+", s)\<close> without its empty pieces.\<close>

function split_space :: "string \<Rightarrow> string list" where
  "split_space s =
     (case lstrip s of
        [] \<Rightarrow> []
      | c # r \<Rightarrow> takeWhile (\<lambda>c. \<not> py_space c) (c # r) # split_space (dropWhile (\<lambda>c. \<not> py_space c) (c # r)))"
  by pat_completeness auto
termination
proof (relation "measure length", goal_cases)
  case (2 s c r)
  have "\<not> py_space c" using 2 by (metis lstrip_by_def hd_dropWhile list.distinct(1) list.sel(1))
  then have "length (dropWhile (\<lambda>c. \<not> py_space c) (c # r)) \<le> length r" by (simp add: length_dropWhile_le)
  also have "\<dots> < length s" using 2 by (metis Suc_le_eq length_Cons length_dropWhile_le lstrip_by_def)
  finally show ?case by simp
qed simp

declare split_space.simps [simp del]

definition strip_hash :: "string \<Rightarrow> string" where
  "strip_hash t = dropWhile (\<lambda>c. c = CHR ''#'') t"

definition parse_tags :: "string \<Rightarrow> string list" where
  "parse_tags raw = map lower (filter (\<lambda>t. t \<noteq> []) (map strip_hash (split_space raw)))"

text \<open>The loop over the first twenty lines.\<close>

fun domain_of_lines :: "string list \<Rightarrow> string" where
  "domain_of_lines [] = []"
| "domain_of_lines (line # lines) =
     (if startswith (lower (strip line)) ''- type::''
      then (case find_sub ''::'' line of None \<Rightarrow> [] | Some i \<Rightarrow> normalize_domain (drop (i + 2) line))
      else domain_of_lines lines)"

definition extract_catalog_fields_from_content :: "string \<Rightarrow> page_row option" where
  "extract_catalog_fields_from_content content =
     (if \<not> contains content SEMANTIC_INDEX_HEADING then None
      else case summary_line_value content of
             None \<Rightarrow> None
           | Some summary \<Rightarrow>
               if strip summary = [] then None
               else let tags = (case tags_line_value content of None \<Rightarrow> [] | Some raw \<Rightarrow> parse_tags raw);
                        domain = (case type_line_value content of None \<Rightarrow> [] | Some raw \<Rightarrow> normalize_domain raw)
                    in Some \<lparr>ce_summary = strip summary,
                             ce_domain = (if domain = [] then domain_of_lines (take 20 (splitlines content)) else domain),
                             ce_tags = tags, ce_last_mtime = 0, ce_orphan = False\<rparr>)"

subsection \<open>Reading pages\<close>

text \<open>
  \<open>mm\<close>: the smallest size, in bytes, that is read through a memory map, \<open>None\<close> when maps are
  off. A map of an empty file raises \<open>ValueError\<close>; a map does not translate line ends.
\<close>

definition mmap_graph_page :: "world \<Rightarrow> path \<Rightarrow> path \<Rightarrow> py_exn + string" where
  "mmap_graph_page w p graph_root =
     (case assert_path_within_graph w p graph_root of
        Inl e \<Rightarrow> Inl e
      | Inr safe \<Rightarrow>
          (case files w safe of
             None \<Rightarrow> Inl OsError
           | Some f \<Rightarrow> if body f = [] then Inl (ValueError ''cannot mmap an empty file'') else Inr (body f)))"

definition read_graph_page_text :: "nat option \<Rightarrow> world \<Rightarrow> path \<Rightarrow> path \<Rightarrow> py_exn + string" where
  "read_graph_page_text mm w p graph_root =
     (case assert_path_within_graph w p graph_root of
        Inl e \<Rightarrow> Inl e
      | Inr safe \<Rightarrow>
          (case files w safe of
             None \<Rightarrow> Inr []
           | Some f \<Rightarrow>
               if (case mm of None \<Rightarrow> False | Some least \<Rightarrow> least \<le> utf8_len (body f))
               then mmap_graph_page w safe graph_root
               else Inr (universal_newlines (body f))))"

definition entry_from_page_path :: "nat option \<Rightarrow> world \<Rightarrow> path \<Rightarrow> path \<Rightarrow> py_exn + page_row option" where
  "entry_from_page_path mm w graph_root p =
     (case stat_file w p of
        None \<Rightarrow> Inr None
      | Some f \<Rightarrow>
          (case read_graph_page_text mm w p graph_root of
             Inl OsError \<Rightarrow> Inr None
           | Inl e \<Rightarrow> Inl e
           | Inr content \<Rightarrow>
               Inr (map_option (\<lambda>e. e\<lparr>ce_last_mtime := mtime f\<rparr>) (extract_catalog_fields_from_content content))))"

fun list_stale :: "world \<Rightarrow> path \<Rightarrow> catalog \<Rightarrow> path list \<Rightarrow> py_exn + path list" where
  "list_stale w graph_root c [] = Inr []"
| "list_stale w graph_root c (p # ps) =
     (case page_title_from_path w graph_root p of
        Inl e \<Rightarrow> Inl e
      | Inr title \<Rightarrow>
          (case list_stale w graph_root c ps of
             Inl e \<Rightarrow> Inl e
           | Inr stale \<Rightarrow>
               (case stat_file w p of
                  None \<Rightarrow> Inr stale
                | Some f \<Rightarrow> Inr (if catalog_needs_refresh title (mtime f) c then p # stale else stale))))"

definition list_stale_page_paths :: "world \<Rightarrow> path list \<Rightarrow> path \<Rightarrow> catalog \<Rightarrow> py_exn + path list" where
  "list_stale_page_paths w listing graph_root c =
     list_stale w graph_root c (iter_alias_source_paths w listing graph_root)"

subsection \<open>The compiled index page\<close>

definition em_dash :: string where
  "em_dash = [CHR 0xE2, CHR 0x80, CHR 0x94]"

definition MASTER_INDEX_PAGE_TITLE :: string where
  "MASTER_INDEX_PAGE_TITLE = ''Matryca Master Index''"

definition GENERATED_INDEX_TITLES :: "string list" where
  "GENERATED_INDEX_TITLES = [MASTER_INDEX_PAGE_TITLE, ''Matryca Graph Insights'']"

definition domain_labels :: "(string \<times> string) list" where
  "domain_labels =
     [(''mappa'', ''Mappa '' @ em_dash @ '' strategic vision''),
      (''area'', ''Area '' @ em_dash @ '' ongoing operations''),
      (''risorsa'', ''Risorsa '' @ em_dash @ '' timeless reference''),
      (''progetto'', ''Progetto '' @ em_dash @ '' time-bounded initiatives''),
      (''archivio'', ''Archivio '' @ em_dash @ '' closed or dormant''),
      ([], ''Uncategorized'')]"

definition row_domain :: "page_row \<Rightarrow> string" where
  "row_domain e = (if ce_domain e \<in> set MARPA_DOMAINS then ce_domain e else [])"

definition grouped_rows :: "pages \<Rightarrow> string \<Rightarrow> pages" where
  "grouped_rows ps domain = filter (\<lambda>p. fst p \<notin> set GENERATED_INDEX_TITLES \<and> row_domain (snd p) = domain) ps"

definition index_row_line :: "string \<times> page_row \<Rightarrow> string" where
  "index_row_line row =
     (let summary = strip (ce_summary (snd row))
      in ''  - [['' @ fst row @ '']]'' @ (if summary = [] then [] else '' '' @ em_dash @ '' '' @ summary))"

definition index_section :: "pages \<Rightarrow> string \<times> string \<Rightarrow> string list" where
  "index_section ps dl =
     (let rows = sort_key (\<lambda>row. lower (fst row)) (grouped_rows ps (fst dl))
      in if rows = [] then []
         else [''- ## '' @ snd dl, ''  collapsed:: true''] @ map index_row_line rows @ [[]])"

definition index_header :: "(nat \<Rightarrow> string) \<Rightarrow> string \<Rightarrow> nat \<Rightarrow> string list" where
  "index_header str_of stamp n =
     [''- type:: hub'', ''- updated:: '' @ stamp, ''- # Matryca Master Index'', [],
      ''_Auto-generated catalog of '' @ str_of n @ '' indexed page(s)._'', []]"

definition build_master_index_markdown :: "(nat \<Rightarrow> string) \<Rightarrow> string \<Rightarrow> catalog \<Rightarrow> string" where
  "build_master_index_markdown str_of stamp c =
     rstrip (join [LF] (index_header str_of stamp (length (mc_pages c)) @
       concat (map (index_section (mc_pages c)) domain_labels))) @ [LF]"

definition master_index_page_path :: "path \<Rightarrow> path" where
  "master_index_page_path graph_root = graph_root @ [''pages'', MASTER_INDEX_PAGE_TITLE @ ''.md'']"

fun pages_complete :: "world \<Rightarrow> path \<Rightarrow> catalog \<Rightarrow> path list \<Rightarrow> py_exn + bool" where
  "pages_complete w groot c [] = Inr True"
| "pages_complete w groot c (p # ps) =
     (case page_title_from_path w groot p of
        Inl e \<Rightarrow> Inl e
      | Inr title \<Rightarrow>
          if title \<in> set GENERATED_INDEX_TITLES then pages_complete w groot c ps
          else case (read_graph_file_text w p groot, stat_file w p) of
                 (Inl OsError, _) \<Rightarrow> Inr False
               | (Inl e, _) \<Rightarrow> Inl e
               | (Inr content, None) \<Rightarrow> Inr False
               | (Inr content, Some f) \<Rightarrow>
                   if strip content = [] then pages_complete w groot c ps
                   else if (case catalog_get title c of None \<Rightarrow> True | Some e \<Rightarrow> strip (ce_summary e) = []) then Inr False
                   else if catalog_needs_refresh title (mtime f) c then Inr False
                   else pages_complete w groot c ps)"

text \<open>The catalog is what \<open>load_master_catalog\<close> returned.\<close>

definition is_bootstrap_catalog_complete :: "world \<Rightarrow> path list \<Rightarrow> path \<Rightarrow> catalog \<Rightarrow> py_exn + bool" where
  "is_bootstrap_catalog_complete w listing graph_root c =
     (let groot = resolved w graph_root
      in if stat_file w (master_index_page_path groot) = None then Inr False
         else if mc_pages c = [] then Inr False
         else pages_complete w groot c (iter_alias_source_paths w listing groot))"

text \<open>
  \<open>write_generated_hub_page\<close>: \<open>il_copy\<close> lands between the drift check under the lock and the
  second reading of the modification time, \<open>il_write\<close> between that and the write.
\<close>

definition write_generated_hub_page ::
  "path \<Rightarrow> string \<Rightarrow> string \<Rightarrow> baseline option \<Rightarrow> string \<Rightarrow> interference \<Rightarrow> world \<Rightarrow> world \<times> (py_exn + path \<times> bool)" where
  "write_generated_hub_page graph_root page_title markdown baseline summary il w =
     (case graph_safe_page_path w graph_root page_title of
        Inl e \<Rightarrow> (w, Inl e)
      | Inr p \<Rightarrow>
          (let pre_mtime = (case baseline of Some b \<Rightarrow> Some b | None \<Rightarrow> map_option IntBase (occ_snapshot w p))
           in case page_rmw_lock p (il_lock il) w of
                Inl e \<Rightarrow> (w, Inl e)
              | Inr w1 \<Rightarrow>
                  if stat_file w1 p \<noteq> None then
                    (if (case pre_mtime of None \<Rightarrow> False | Some b \<Rightarrow> file_mtime_drifted w1 p b) then (w1, Inr (p, False))
                     else let w2 = apply_edits (il_copy il) w1
                          in case occ_snapshot w2 p of
                               None \<Rightarrow> (w2, Inr (p, False))
                             | Some current \<Rightarrow>
                                 (case atomic_write_bytes_if_unchanged p markdown graph_root (IntBase current) False
                                         (Some summary) (apply_edits (il_write il) w2) of
                                    (w3, Inl e) \<Rightarrow> (w3, Inl e)
                                  | (w3, Inr written) \<Rightarrow> (w3, Inr (p, written))))
                  else case atomic_write_bytes p markdown graph_root False None (Some summary) w1 of
                         (w2, Inl e) \<Rightarrow> (w2, Inl e)
                       | (w2, Inr _) \<Rightarrow> (w2, Inr (p, True))))"

text \<open>\<open>building\<close>: what lands on disk while the page is compiled.\<close>

definition write_master_index_page ::
  "(nat \<Rightarrow> string) \<Rightarrow> string \<Rightarrow> path \<Rightarrow> catalog \<Rightarrow> edit list \<Rightarrow> interference \<Rightarrow> world \<Rightarrow> world \<times> (py_exn + path)" where
  "write_master_index_page str_of stamp graph_root c building il w =
     (case graph_safe_page_path w graph_root MASTER_INDEX_PAGE_TITLE of
        Inl e \<Rightarrow> (w, Inl e)
      | Inr p \<Rightarrow>
          (case write_generated_hub_page graph_root MASTER_INDEX_PAGE_TITLE (build_master_index_markdown str_of stamp c)
                  (map_option IntBase (occ_snapshot w p)) ''recompiled Matryca Master Index hub page'' il
                  (apply_edits building w) of
             (w1, Inl e) \<Rightarrow> (w1, Inl e)
           | (w1, Inr (q, written)) \<Rightarrow> (w1, Inr q)))"

subsection \<open>The harvest of one page\<close>

record bootstrap_summary =
  bs_summary :: string
  bs_suggested_tags :: "string list"
  bs_domain :: string

definition detect_marpa_namespace :: "string \<Rightarrow> string option" where
  "detect_marpa_namespace title =
     (case find_sub ''/'' title of
        Some i \<Rightarrow> Some (casefold (take i title))
      | None \<Rightarrow> map_option (\<lambda>i. casefold (take i title)) (find_sub ''___'' title))"

definition infer_domain_from_content :: "string \<Rightarrow> string \<Rightarrow> string" where
  "infer_domain_from_content title content =
     (let domain = (case type_line_value content of None \<Rightarrow> [] | Some raw \<Rightarrow> normalize_domain raw)
      in if domain \<noteq> [] then domain
         else case detect_marpa_namespace title of
                None \<Rightarrow> []
              | Some hint \<Rightarrow> if hint \<in> set MARPA_DOMAINS then hint else [])"

definition format_minimal_index_section :: "string \<Rightarrow> bootstrap_summary \<Rightarrow> string" where
  "format_minimal_index_section stamp s =
     join [LF] ([[], ''- '' @ SEMANTIC_INDEX_HEADING, ''- indexed-at:: '' @ stamp, ''- summary:: '' @ strip (bs_summary s)] @
       (if bs_suggested_tags s = [] then []
        else [''- suggested-tags:: '' @ join '' '' (map (\<lambda>t. if startswith t ''#'' then t else ''#'' @ strip_hash t) (bs_suggested_tags s))]) @
       [[]])"

definition minimal_index_body :: "string \<Rightarrow> string \<Rightarrow> bootstrap_summary \<Rightarrow> string" where
  "minimal_index_body prev stamp s = strip_lf prev @ format_minimal_index_section stamp s"

definition append_minimal_semantic_index ::
  "string \<Rightarrow> nat option \<Rightarrow> path \<Rightarrow> path \<Rightarrow> bootstrap_summary \<Rightarrow> baseline option \<Rightarrow> interference \<Rightarrow> world \<Rightarrow>
   world \<times> (py_exn + bool)" where
  "append_minimal_semantic_index stamp mm graph_root p s baseline il w =
     (let base = (case baseline of Some b \<Rightarrow> Some b | None \<Rightarrow> map_option IntBase (read_file_mtime_ns w p));
          drifted = (\<lambda>w. case base of None \<Rightarrow> False | Some b \<Rightarrow> file_mtime_drifted w p b)
      in if drifted w then (w, Inr False)
         else case page_rmw_lock p (il_lock il) w of
           Inl e \<Rightarrow> (w, Inl e)
         | Inr w1 \<Rightarrow>
             if drifted w1 then (w1, Inr False)
             else let w2 = apply_edits (il_copy il) w1; is_file = (stat_file w2 p \<noteq> None);
                      base2 = (if is_file then base else None)
                  in case (if is_file then read_graph_page_text mm w2 p graph_root else Inr []) of
                       Inl e \<Rightarrow> (w2, Inl e)
                     | Inr prev \<Rightarrow>
                         if strip prev = [] then (w2, Inr False)
                         else if contains prev (''- '' @ SEMANTIC_INDEX_HEADING) then (w2, Inr True)
                         else let w3 = apply_edits (il_write il) w2; text = minimal_index_body prev stamp s
                              in case base2 of
                                   Some b \<Rightarrow> atomic_write_bytes_if_unchanged p text graph_root b True None w3
                                 | None \<Rightarrow>
                                     (case atomic_write_bytes p text graph_root True None None w3 of
                                        (w4, Inl e) \<Rightarrow> (w4, Inl e)
                                      | (w4, Inr _) \<Rightarrow> (w4, Inr True)))"

definition row_from_harvest :: "string \<Rightarrow> string list \<Rightarrow> string \<Rightarrow> int \<Rightarrow> bool \<Rightarrow> page_row" where
  "row_from_harvest summary tags domain mtime_ns orphan =
     \<lparr>ce_summary = strip summary, ce_domain = normalize_domain domain,
      ce_tags = map (\<lambda>t. lower (strip_hash t)) (filter (\<lambda>t. strip t \<noteq> []) tags),
      ce_last_mtime = mtime_ns, ce_orphan = orphan\<rparr>"

definition read_catalog_source :: "nat option \<Rightarrow> world \<Rightarrow> path \<Rightarrow> path \<Rightarrow> py_exn + string \<times> page_row option" where
  "read_catalog_source mm w graph_root p =
     (case (if mm = None then read_graph_page_text mm w p graph_root else mmap_graph_page w p graph_root) of
        Inl e \<Rightarrow> Inl e
      | Inr content \<Rightarrow> Inr (content, extract_catalog_fields_from_content content))"

datatype harvest_status = HvMissing | HvError | HvSkippedEmpty | HvRegex | HvPendingLlm | HvLlm

text \<open>
  \<open>llm title content\<close> is what the model answers and what lands on disk until it does;
  \<open>il_read\<close> lands between the reading of the page and the baseline, \<open>il_after\<close> between the
  write and the reading of the new modification time. The stop event is left out.
\<close>

record harvest_windows =
  hw_read :: "edit list"
  hw_write :: interference
  hw_after :: "edit list"

definition harvest_with_llm ::
  "string \<Rightarrow> nat option \<Rightarrow> path \<Rightarrow> path \<Rightarrow> string \<Rightarrow> string \<Rightarrow> bool \<Rightarrow> (string \<Rightarrow> string \<Rightarrow> edit list \<times> (py_exn + bootstrap_summary)) \<Rightarrow>
   harvest_windows \<Rightarrow> catalog \<Rightarrow> world \<Rightarrow> world \<times> catalog \<times> (py_exn + harvest_status \<times> bool \<times> bool)" where
  "harvest_with_llm stamp mm graph_root p title content orphan llm hw c w =
     (let w1 = apply_edits (hw_read hw) w; baseline = map_option IntBase (read_file_mtime_ns w1 p);
          (edits, answer) = llm title content; w2 = apply_edits edits w1
      in case answer of
           Inl e \<Rightarrow> (w2, c, Inl e)
         | Inr s \<Rightarrow>
             (let inferred = infer_domain_from_content title content;
                  domain = (if inferred = [] \<and> bs_domain s \<noteq> [] then normalize_domain (bs_domain s) else inferred)
              in case append_minimal_semantic_index stamp mm graph_root p s baseline (hw_write hw) w2 of
                   (w3, Inl e) \<Rightarrow> (w3, c, Inl e)
                 | (w3, Inr False) \<Rightarrow> (w3, c, Inr (HvPendingLlm, False, True))
                 | (w3, Inr True) \<Rightarrow>
                     (let w4 = apply_edits (hw_after hw) w3
                      in case stat_file w4 p of
                           None \<Rightarrow> (w4, c, Inl OsError)
                         | Some f \<Rightarrow>
                             (w4, catalog_upsert title (row_from_harvest (bs_summary s) (bs_suggested_tags s) domain (mtime f) orphan) c,
                              Inr (HvLlm, True, True)))))"

definition harvest_page_into_catalog ::
  "string \<Rightarrow> nat option \<Rightarrow> path \<Rightarrow> path \<Rightarrow> (string \<Rightarrow> string \<Rightarrow> edit list \<times> (py_exn + bootstrap_summary)) option \<Rightarrow>
   (string \<Rightarrow> int) \<Rightarrow> harvest_windows \<Rightarrow> catalog \<Rightarrow> world \<Rightarrow> world \<times> catalog \<times> (py_exn + harvest_status \<times> bool \<times> bool)" where
  "harvest_page_into_catalog stamp mm graph_root p llm incoming hw c w =
     (case page_title_from_path w graph_root p of
        Inl e \<Rightarrow> (w, c, Inl e)
      | Inr title \<Rightarrow>
          (case stat_file w p of
             None \<Rightarrow> (w, catalog_remove title c, Inr (HvMissing, True, False))
           | Some f \<Rightarrow>
               (let orphan = (incoming title = 0)
                in case read_catalog_source mm w graph_root p of
                     Inl OsError \<Rightarrow> (w, c, Inr (HvError, False, False))
                   | Inl e \<Rightarrow> (w, c, Inl e)
                   | Inr (content, extracted) \<Rightarrow>
                       if strip content = [] then (w, c, Inr (HvSkippedEmpty, False, False))
                       else case extracted of
                              Some e \<Rightarrow> (w, catalog_upsert title (e\<lparr>ce_last_mtime := mtime f, ce_orphan := orphan\<rparr>) c,
                                        Inr (HvRegex, True, False))
                            | None \<Rightarrow>
                                (case llm of
                                   None \<Rightarrow> (w, c, Inr (HvPendingLlm, False, False))
                                 | Some answer \<Rightarrow> harvest_with_llm stamp mm graph_root p title content orphan answer hw c w))))"

subsection \<open>Rows are well formed\<close>

definition tag_ok :: "string \<Rightarrow> bool" where
  "tag_ok t \<longleftrightarrow> t \<noteq> [] \<and> hd t \<noteq> CHR ''#'' \<and> lower t = t \<and> list_all (\<lambda>c. \<not> py_space c) t"

definition domain_ok :: "string \<Rightarrow> bool" where
  "domain_ok d \<longleftrightarrow> d = [] \<or> d \<in> set MARPA_DOMAINS"

definition row_ok :: "page_row \<Rightarrow> bool" where
  "row_ok e \<longleftrightarrow> strip (ce_summary e) = ce_summary e \<and> ce_summary e \<noteq> [] \<and>
     domain_ok (ce_domain e) \<and> list_all tag_ok (ce_tags e)"

lemma lower_char_lower [simp]: "lower_char (lower_char c) = lower_char c"
proof -
  define n where "n = code_of c"
  have n: "n < 256" by (simp add: n_def code_of_def)
  have c: "c = char_of n" by (simp add: n_def code_of_def)
  have "code_of (char_of (n + 32)) = n + 32" if "n \<le> 222" using that by (simp add: code_of_def)
  then show ?thesis by (auto simp: lower_char_def Let_def n_def [symmetric])
qed

lemma lower_lower [simp]: "lower (lower s) = lower s"
  by (simp add: lower_def o_def)

lemma lower_char_cases:
  "lower_char c = c \<or> (97 \<le> code_of (lower_char c) \<and> code_of (lower_char c) \<le> 122) \<or> 224 \<le> code_of (lower_char c)"
proof -
  define n where "n = code_of c"
  have "code_of (char_of (n + 32)) = n + 32" if "n \<le> 222" using that by (simp add: code_of_def)
  then show ?thesis by (auto simp: lower_char_def Let_def n_def [symmetric])
qed

lemma py_space_code: "py_space c \<Longrightarrow> code_of c \<le> 32 \<or> code_of c = 133 \<or> code_of c = 160"
  by (auto simp: py_space_def code_of_def)

lemma lower_char_hash: "lower_char c = CHR ''#'' \<Longrightarrow> c = CHR ''#''"
  using lower_char_cases [of c] by (auto simp: code_of_def)

lemma py_space_lower: "py_space (lower_char c) \<Longrightarrow> py_space c"
  using lower_char_cases [of c] py_space_code [of "lower_char c"] by auto

lemma split_space_pieces: "t \<in> set (split_space s) \<Longrightarrow> t \<noteq> [] \<and> list_all (\<lambda>c. \<not> py_space c) t"
proof (induction s rule: split_space.induct)
  case (1 s)
  show ?case
  proof (cases "lstrip s")
    case Nil
    then show ?thesis using "1.prems" by (simp add: split_space.simps [of s])
  next
    case (Cons c r)
    have c: "\<not> py_space c" using Cons by (metis lstrip_by_def hd_dropWhile list.distinct(1) list.sel(1))
    let ?word = "takeWhile (\<lambda>c. \<not> py_space c) (c # r)"
    have "split_space s = ?word # split_space (dropWhile (\<lambda>c. \<not> py_space c) (c # r))"
      unfolding split_space.simps [of s] Cons by simp
    then consider "t = ?word" | "t \<in> set (split_space (dropWhile (\<lambda>c. \<not> py_space c) (c # r)))"
      using "1.prems" by auto
    then show ?thesis
    proof cases
      case 1
      have "\<forall>x \<in> set ?word. \<not> py_space x" by (blast dest: set_takeWhileD)
      then show ?thesis using 1 c by (simp add: list_all_iff)
    qed (rule "1.IH" [OF Cons])
  qed
qed

lemma parse_tags_ok [simp]: "list_all tag_ok (parse_tags raw)"
proof -
  have "tag_ok (lower (strip_hash t))" if "t \<in> set (split_space raw)" "strip_hash t \<noteq> []" for t
  proof -
    have h: "hd (strip_hash t) \<noteq> CHR ''#''"
      using hd_dropWhile [of "\<lambda>c. c = CHR ''#''" t] that(2) by (simp add: strip_hash_def)
    have "list_all (\<lambda>c. \<not> py_space c) (strip_hash t)"
      using split_space_pieces [OF that(1)] by (auto simp: strip_hash_def list_all_iff dest: set_dropWhileD)
    then have "list_all (\<lambda>c. \<not> py_space c) (lower (strip_hash t))"
      by (auto simp: lower_def list_all_iff dest: py_space_lower)
    moreover have "hd (lower (strip_hash t)) \<noteq> CHR ''#''"
      using h that(2) lower_char_hash by (auto simp: lower_def hd_map)
    ultimately show ?thesis
      using that(2) by (simp add: tag_ok_def) (simp add: lower_def)
  qed
  then show ?thesis by (auto simp: parse_tags_def list_all_iff)
qed

lemma normalize_domain_ok [simp]: "domain_ok (normalize_domain raw)"
  by (simp add: normalize_domain_def domain_ok_def Let_def)

lemma domain_of_lines_ok [simp]: "domain_ok (domain_of_lines ls)"
  by (induction ls) (auto simp: domain_ok_def [of "[]"] split: option.splits)

lemma extracted_ok:
  assumes "extract_catalog_fields_from_content content = Some e"
  shows "row_ok e"
  using assms by (auto simp: extract_catalog_fields_from_content_def row_ok_def Let_def split: if_splits option.splits)

definition rows_all :: "(page_row \<Rightarrow> bool) \<Rightarrow> catalog \<Rightarrow> bool" where
  "rows_all P c \<longleftrightarrow> list_all (\<lambda>p. P (snd p)) (mc_pages c)"

lemma update_all: "list_all (\<lambda>p. P (snd p)) ps \<Longrightarrow> P e \<Longrightarrow> list_all (\<lambda>p. P (snd p)) (AList.update t e ps)"
  by (induction ps) auto

lemma rows_all_upsert: "rows_all P c \<Longrightarrow> P e \<Longrightarrow> rows_all P (catalog_upsert t e c)"
  by (simp add: rows_all_def catalog_upsert_def update_all)

lemma rows_all_remove: "rows_all P c \<Longrightarrow> rows_all P (catalog_remove t c)"
  by (auto simp: rows_all_def catalog_remove_def list_all_iff AList.delete_eq)

lemma row_ok_times [simp]: "row_ok (e\<lparr>ce_last_mtime := m, ce_orphan := b\<rparr>) = row_ok e"
  by (simp add: row_ok_def)

lemma harvest_llm_domains:
  "rows_all (\<lambda>e. domain_ok (ce_domain e)) c \<Longrightarrow>
     rows_all (\<lambda>e. domain_ok (ce_domain e)) (fst (snd (harvest_with_llm stamp mm groot p title content orphan llm hw c w)))"
  by (auto simp: harvest_with_llm_def Let_def row_from_harvest_def intro!: rows_all_upsert
      split: prod.splits sum.splits bool.splits option.splits)

text \<open>
  C28. The harvest keeps the rows of the catalog well typed: a domain is empty or one of the
  five of the vocabulary, whatever the language model answers; and without a model a row
  has a stripped, non-empty summary and tags in lower case without white space or hash.
\<close>

theorem harvested_rows_well_typed:
  "(rows_all (\<lambda>e. domain_ok (ce_domain e)) c \<longrightarrow>
     rows_all (\<lambda>e. domain_ok (ce_domain e)) (fst (snd (harvest_page_into_catalog stamp mm groot p llm incoming hw c w)))) \<and>
   (rows_all row_ok c \<longrightarrow>
     rows_all row_ok (fst (snd (harvest_page_into_catalog stamp mm groot p None incoming hw c w))))"
proof (intro conjI impI)
  assume c: "rows_all (\<lambda>e. domain_ok (ce_domain e)) c"
  have row: "domain_ok (ce_domain e)" if "read_catalog_source mm w groot p = Inr (content, Some e)" for content e
    using that extracted_ok by (auto simp: read_catalog_source_def row_ok_def split: sum.splits)
  show "rows_all (\<lambda>e. domain_ok (ce_domain e)) (fst (snd (harvest_page_into_catalog stamp mm groot p llm incoming hw c w)))"
    unfolding harvest_page_into_catalog_def Let_def
    using c row by (auto intro!: rows_all_upsert rows_all_remove harvest_llm_domains split: sum.splits option.splits py_exn.splits)
next
  assume c: "rows_all row_ok c"
  have row: "row_ok e" if "read_catalog_source mm w groot p = Inr (content, Some e)" for content e
    using that extracted_ok by (auto simp: read_catalog_source_def split: sum.splits)
  show "rows_all row_ok (fst (snd (harvest_page_into_catalog stamp mm groot p None incoming hw c w)))"
    unfolding harvest_page_into_catalog_def Let_def
    using c row by (auto intro!: rows_all_upsert rows_all_remove split: sum.splits option.splits py_exn.splits)
qed

subsection \<open>What the harvest writes is what the catalog reads\<close>

lemma after_lf_append: "after_lf (x @ y) = map (\<lambda>s. s @ y) (after_lf x) @ after_lf y"
  by (induction x) auto

lemma after_lf_suffix: "s \<in> set (after_lf x) \<Longrightarrow> \<exists>a. x = a @ s"
proof (induction x)
  case (Cons c x)
  then show ?case by (metis after_lf.simps(2) append_Cons append_Nil set_ConsD)
qed simp

lemma search_lines_append:
  "search_lines f (xs @ ys) = (case search_lines f xs of None \<Rightarrow> search_lines f ys | Some v \<Rightarrow> Some v)"
  by (induction xs) (auto split: option.splits)

lemma search_lines_None: "(\<And>s. s \<in> set ss \<Longrightarrow> f s = None) \<Longrightarrow> search_lines f ss = None"
  by (induction ss) auto

lemma lower_take: "lower (take n s) = take n (lower s)"
  by (simp add: lower_def take_map)

text \<open>A key cannot match across a line feed it does not hold.\<close>

lemma key_at_cut:
  assumes "\<not> contains (lower x) key" "LF \<notin> set key"
  shows "key_at key (x @ LF # y) = None"
proof (rule ccontr)
  assume "key_at key (x @ LF # y) \<noteq> None"
  then have k: "lower (take (length key) (x @ LF # y)) = key" by (auto simp: key_at_def split: if_splits)
  show False
  proof (cases "length key \<le> length x")
    case True
    then have "lower x = [] @ key @ drop (length key) (lower x)"
      using k by (simp add: lower_take) (metis append_take_drop_id lower_take)
    then show False using assms(1) contains_iff by metis
  next
    case False
    then have "take (length key) (x @ LF # y) = x @ LF # take (length key - length x - 1) y"
      by (cases "length key - length x") auto
    then have "lower_char LF \<in> set key" using k by (metis in_set_conv_decomp list.set_map lower_def imageI)
    then show False using assms(2) by (simp add: lower_char_def code_of_def)
  qed
qed

lemma lstrip_append: "lstrip (x @ y) = (if list_all py_space x then lstrip y else lstrip x @ y)"
  by (induction x) (auto simp: lstrip_by_def)

lemma contains_suffix: "contains (lower s) key \<Longrightarrow> contains (lower (a @ s)) key"
  unfolding contains_iff by (metis append.assoc lower_append)

lemma contains_lstrip: "contains (lower (lstrip s)) key \<Longrightarrow> contains (lower s) key"
  using contains_suffix [of "lstrip s" key "takeWhile py_space s"] by (metis lstrip_by_decomp)

lemma dash_field_cut:
  assumes "\<not> contains (lower x) key" "LF \<notin> set key" "dash_field key (LF # y) = None" "key_at key (lstrip (LF # y)) = None"
  shows "dash_field key (x @ LF # y) = None"
proof (cases "list_all py_space x")
  case True
  then show ?thesis using assms(3) by (simp add: dash_field_def lstrip_append)
next
  case False
  then obtain c r where cr: "lstrip x = c # r" by (metis lstrip_by_eq_Nil list.exhaust)
  then have "\<not> contains (lower (c # r)) key" using assms(1) contains_lstrip by metis
  then have r: "\<not> contains (lower r) key" using contains_suffix [of r key "[c]"] by auto
  have "key_at key (lstrip (r @ LF # y)) = None"
  proof (cases "list_all py_space r")
    case True
    then show ?thesis using assms(4) by (simp add: lstrip_append)
  next
    case False
    then show ?thesis using key_at_cut [of "lstrip r" key y] r contains_lstrip assms(2) by (auto simp: lstrip_append)
  qed
  then show ?thesis using False cr by (simp add: dash_field_def lstrip_append)
qed

lemma search_cut:
  assumes "\<not> contains (lower x) key" "LF \<notin> set key" "dash_field key (LF # y) = None" "key_at key (lstrip (LF # y)) = None"
  shows "search_lines (dash_field key) (line_starts (x @ LF # y)) = search_lines (dash_field key) (line_starts y)"
proof -
  have "dash_field key (s @ LF # y) = None" if "s = x \<or> s \<in> set (after_lf x)" for s
  proof -
    have "\<not> contains (lower s) key"
      using that assms(1) after_lf_suffix [of s x] contains_suffix by metis
    then show ?thesis using dash_field_cut assms(2-4) by blast
  qed
  then have "search_lines (dash_field key) (map (\<lambda>s. s @ LF # y) (after_lf x)) = None" "dash_field key (x @ LF # y) = None"
    by (auto intro!: search_lines_None)
  then show ?thesis
    by (simp add: line_starts_def after_lf_append search_lines_append split: option.splits)
qed

lemma after_lf_line: "LF \<notin> set l \<Longrightarrow> after_lf (l @ LF # y) = y # after_lf y"
  by (induction l) auto

lemma line_starts_line: "LF \<notin> set l \<Longrightarrow> line_starts (l @ LF # y) = (l @ LF # y) # line_starts y"
  by (simp add: line_starts_def after_lf_line)

lemma split_space_nil: "list_all py_space s \<Longrightarrow> split_space s = []"
  by (subst split_space.simps) (simp add: lstrip_by_eq_Nil [THEN iffD2])

lemma split_space_word:
  assumes "word \<noteq> []" "list_all (\<lambda>c. \<not> py_space c) word" "rest = [] \<or> py_space (hd rest)"
  shows "split_space (word @ rest) = word # split_space rest"
proof -
  obtain c r where w: "word = c # r" using assms(1) by (cases word) auto
  have l: "lstrip (word @ rest) = c # (r @ rest)" using assms(2) w by (simp add: lstrip_by_def)
  have "takeWhile (\<lambda>c. \<not> py_space c) (c # r @ rest) = word \<and> dropWhile (\<lambda>c. \<not> py_space c) (c # r @ rest) = rest"
    using assms w by (cases rest) (auto simp: list_all_iff takeWhile_append dropWhile_append)
  then show ?thesis by (simp add: split_space.simps [of "word @ rest"] l)
qed

lemma split_space_space: "py_space c \<Longrightarrow> split_space (c # s) = split_space s"
  by (subst (1 2) split_space.simps) (simp add: lstrip_by_def)

lemma split_space_join:
  "list_all (\<lambda>t. t \<noteq> [] \<and> list_all (\<lambda>c. \<not> py_space c) t) ts \<Longrightarrow> split_space (join '' '' ts) = ts"
proof (induction ts)
  case (Cons t ts)
  have sp: "py_space (CHR '' '')" by (simp add: py_space_def)
  show ?case
  proof (cases ts)
    case Nil
    then show ?thesis using Cons.prems split_space_word [of t "[]"] by (simp add: join_def split_space_nil)
  next
    case (Cons t' ts')
    have "join '' '' (t # ts) = t @ CHR '' '' # join '' '' ts" by (simp add: join_def Cons)
    then show ?thesis using Cons.prems Cons.IH sp split_space_word [of t "CHR '' '' # join '' '' ts"] split_space_space
      by simp
  qed
qed (simp add: split_space_nil)

definition clean_tag :: "string \<Rightarrow> bool" where
  "clean_tag t \<longleftrightarrow> strip_hash t \<noteq> [] \<and> list_all (\<lambda>c. \<not> py_space c) t"

definition hashed :: "string \<Rightarrow> string" where
  "hashed t = (if startswith t ''#'' then t else ''#'' @ strip_hash t)"

lemma hashed_props:
  assumes "clean_tag t"
  shows "hashed t \<noteq> []" "list_all (\<lambda>c. \<not> py_space c) (hashed t)" "strip_hash (hashed t) = strip_hash t"
    "LF \<notin> set (hashed t)" "strip t \<noteq> []"
proof -
  have sp: "\<not> py_space (CHR ''#'')" "py_space LF" by (simp_all add: py_space_def)
  have t: "list_all (\<lambda>c. \<not> py_space c) (strip_hash t)" "t \<noteq> []"
    using assms by (auto simp: clean_tag_def strip_hash_def list_all_iff dest: set_dropWhileD)
  show h: "list_all (\<lambda>c. \<not> py_space c) (hashed t)"
    using assms t sp by (auto simp: hashed_def clean_tag_def)
  show "hashed t \<noteq> []" using t by (auto simp: hashed_def)
  show "LF \<notin> set (hashed t)" using h sp by (auto simp: list_all_iff)
  have "strip_hash (strip_hash t) = strip_hash t" by (simp add: strip_hash_def dropWhile_idem)
  then show "strip_hash (hashed t) = strip_hash t" by (auto simp: hashed_def) (simp add: strip_hash_def)
  have "\<not> list_all py_space t" using assms t by (cases t) (auto simp: clean_tag_def)
  then show "strip t \<noteq> []" by (metis strip_eq_Nil)
qed

lemma key_at_mismatch: "length l \<le> length key \<Longrightarrow> take (length l) key \<noteq> lower l \<Longrightarrow> key_at key (l @ v) = None"
  by (auto simp: key_at_def lower_take take_map [symmetric] lower_def [symmetric] min_def)
     (metis append_eq_conv_conj length_lower lower_append take_append take_take min.absorb1)

lemma key_at_match: "lower l = key \<Longrightarrow> key_at key (l @ v) = Some (lstrip v)"
  by (metis append_eq_conv_conj key_at_def length_lower)

lemma dash_line: "\<not> py_space c \<Longrightarrow> dash_field key (''- '' @ c # v) =
     (case key_at key (c # v) of None \<Rightarrow> None | Some [] \<Rightarrow> None | Some u \<Rightarrow> Some (rstrip (takeWhile (\<lambda>c. c \<noteq> LF) u)))"
  by (simp add: dash_field_def lstrip_by_def py_space_def)

lemma take_line: "LF \<notin> set l \<Longrightarrow> takeWhile (\<lambda>c. c \<noteq> LF) (l @ LF # y) = l"
  by (induction l) auto

text \<open>The lines of a section, and the searches in them.\<close>

definition section_lines :: "string \<Rightarrow> string \<Rightarrow> string \<Rightarrow> string" where
  "section_lines stamp summary rest =
     ''- '' @ SEMANTIC_INDEX_HEADING @ LF # ''- indexed-at:: '' @ stamp @ LF # ''- summary:: '' @ summary @ LF # rest"

lemma format_minimal_lines:
  "format_minimal_index_section stamp s = LF # section_lines stamp (strip (bs_summary s))
     (if bs_suggested_tags s = [] then [] else ''- suggested-tags:: '' @ join '' '' (map hashed (bs_suggested_tags s)) @ [LF])"
  by (auto simp: format_minimal_index_section_def section_lines_def join_def hashed_def [abs_def])

lemma section_starts:
  assumes "LF \<notin> set stamp" "LF \<notin> set summary"
  shows "line_starts (section_lines stamp summary rest) =
    [section_lines stamp summary rest, ''- indexed-at:: '' @ stamp @ LF # ''- summary:: '' @ summary @ LF # rest,
     ''- summary:: '' @ summary @ LF # rest] @ line_starts rest"
proof -
  have h: "LF \<notin> set (''- '' @ SEMANTIC_INDEX_HEADING)" by (simp add: SEMANTIC_INDEX_HEADING_def)
  have i: "LF \<notin> set (''- indexed-at:: '' @ stamp)" using assms(1) by simp
  have s: "LF \<notin> set (''- summary:: '' @ summary)" using assms(2) by simp
  show ?thesis
    using line_starts_line [OF h, of "''- indexed-at:: '' @ stamp @ LF # ''- summary:: '' @ summary @ LF # rest"]
      line_starts_line [OF i, of "''- summary:: '' @ summary @ LF # rest"] line_starts_line [OF s, of rest]
    by (simp add: section_lines_def del: append.simps)
qed

lemma heading_no_field:
  assumes "key \<in> {''summary::'', ''suggested-tags::''}"
  shows "dash_field key (section_lines stamp summary rest) = None"
    "dash_field key (LF # section_lines stamp summary rest) = None"
    "key_at key (lstrip (LF # section_lines stamp summary rest)) = None"
    "dash_field key (''- indexed-at:: '' @ stamp @ v) = None"
proof -
  have h: "SEMANTIC_INDEX_HEADING @ v = CHR ''#'' # ''## Matryca Semantic Index'' @ v" for v
    by (simp add: SEMANTIC_INDEX_HEADING_def)
  have sp: "\<not> py_space (CHR ''#'')" "\<not> py_space (CHR ''i'')" "\<not> py_space (CHR ''-'')" "py_space LF"
    by (simp_all add: py_space_def)
  have n: "key_at key (CHR ''#'' # v) = None" "key_at key (CHR ''i'' # v) = None" "key_at key (CHR ''-'' # v) = None" for v
    using assms key_at_mismatch [of "''#''" key v] key_at_mismatch [of "''i''" key v] key_at_mismatch [of "''-''" key v]
    by (auto simp: lower_def lower_char_def code_of_def)
  show a: "dash_field key (section_lines stamp summary rest) = None"
    unfolding section_lines_def h using dash_line [OF sp(1)] n(1) by simp
  have l: "lstrip (LF # section_lines stamp summary rest) = section_lines stamp summary rest"
    using sp by (simp add: lstrip_by_def section_lines_def)
  then show "key_at key (lstrip (LF # section_lines stamp summary rest)) = None"
    using n(3) by (simp add: section_lines_def)
  have l2: "lstrip (section_lines stamp summary rest) = section_lines stamp summary rest"
    using sp by (simp add: lstrip_by_def section_lines_def)
  show "dash_field key (LF # section_lines stamp summary rest) = None"
    using a unfolding dash_field_def l l2 .
  show "dash_field key (''- indexed-at:: '' @ stamp @ v) = None"
    using dash_line [OF sp(2), of key "''ndexed-at:: '' @ stamp @ v"] n(2) by simp
qed

lemma stripped_value:
  assumes "strip v = v" "v \<noteq> []" "LF \<notin> set v"
  shows "lstrip (CHR '' '' # v @ y) = v @ y" "rstrip (takeWhile (\<lambda>c. c \<noteq> LF) (v @ LF # z)) = v"
proof -
  have "\<not> py_space (hd v)" using assms(1,2) by (metis lstrip_by_hd strip_def rstrip_by_Nil strip_hd)
  then show "lstrip (CHR '' '' # v @ y) = v @ y" using assms(2) by (cases v) (auto simp: lstrip_by_def py_space_def)
  show "rstrip (takeWhile (\<lambda>c. c \<noteq> LF) (v @ LF # z)) = v"
    using assms(1,3) by (simp add: take_line) (metis strip_def rstrip_by_idem)
qed

lemma section_summary:
  assumes "LF \<notin> set stamp" "strip v = v" "v \<noteq> []" "LF \<notin> set v"
  shows "search_lines (dash_field ''summary::'') (line_starts (section_lines stamp v rest)) = Some v"
proof -
  have sp: "\<not> py_space (CHR ''s'')" by (simp add: py_space_def)
  have k: "lower ''summary::'' = ''summary::''" by (simp add: lower_def lower_char_def code_of_def)
  have "key_at ''summary::'' (CHR ''s'' # ''ummary:: '' @ v @ LF # rest) = Some (v @ LF # rest)"
    using key_at_match [OF k, of "CHR '' '' # v @ LF # rest"] stripped_value(1) [OF assms(2-4)] by simp
  moreover have "dash_field ''summary::'' (''- '' @ CHR ''s'' # ''ummary:: '' @ v @ LF # rest) =
      Some (rstrip (takeWhile (\<lambda>c. c \<noteq> LF) (v @ LF # rest)))"
    unfolding dash_line [OF sp] calculation using assms(3) by (cases v) simp_all
  ultimately have "dash_field ''summary::'' (''- summary:: '' @ v @ LF # rest) = Some v"
    using stripped_value(2) [OF assms(2-4)] by simp
  then show ?thesis
    unfolding section_starts [OF assms(1,4)] search_lines_append
    by (simp only: search_lines.simps heading_no_field(1,4) insertI1 option.case)
qed

lemma section_tags:
  assumes "LF \<notin> set stamp" "LF \<notin> set v"
  shows "search_lines (dash_field ''suggested-tags::'') (line_starts (section_lines stamp v rest)) =
    search_lines (dash_field ''suggested-tags::'') (line_starts rest)"
proof -
  have sp: "\<not> py_space (CHR ''s'')" by (simp add: py_space_def)
  have "key_at ''suggested-tags::'' (''sum'' @ ''mary:: '' @ v @ LF # rest) = None"
    by (rule key_at_mismatch) (simp_all add: lower_def lower_char_def code_of_def)
  then have "dash_field ''suggested-tags::'' (''- summary:: '' @ v @ LF # rest) = None"
    using dash_line [OF sp, of "''suggested-tags::''" "''ummary:: '' @ v @ LF # rest"] by simp
  then show ?thesis
    unfolding section_starts [OF assms] search_lines_append
    by (simp only: search_lines.simps heading_no_field(1,4) insertI1 insertI2 option.case)
qed

lemma join_snoc: "join sep (xs @ [x]) = (if xs = [] then x else join sep xs @ sep @ x)"
  by (cases xs) (simp_all add: join_def)

lemma tags_line_read:
  assumes "list_all clean_tag ts" "ts \<noteq> []"
  shows "\<exists>raw. search_lines (dash_field ''suggested-tags::'') (line_starts (''- suggested-tags:: '' @ join '' '' (map hashed ts) @ [LF])) = Some raw \<and>
    parse_tags raw = map (\<lambda>t. lower (strip_hash t)) ts"
proof -
  let ?raw = "join '' '' (map hashed ts)"
  have sp: "\<not> py_space (CHR ''s'')" "\<not> py_space LF = False" by (simp_all add: py_space_def)
  have words: "list_all (\<lambda>t. t \<noteq> [] \<and> list_all (\<lambda>c. \<not> py_space c) t) (map hashed ts)"
    using assms(1) hashed_props by (auto simp: list_all_iff)
  have split: "split_space ?raw = map hashed ts" by (rule split_space_join [OF words])
  have LF_join: "LF \<notin> set (join '' '' us)" if "\<forall>u \<in> set us. LF \<notin> set u" for us
    using that by (auto simp: join_def split: list.splits)
  have raw_LF: "LF \<notin> set ?raw" using assms(1) hashed_props(4) by (intro LF_join) (auto simp: list_all_iff)
  obtain t ts' where ts: "ts = t # ts'" using assms(2) by (cases ts) auto
  have hd_raw: "?raw \<noteq> []" "\<not> py_space (hd ?raw)"
    using words by (auto simp: ts join_def list_all_iff)
  have k: "lower ''suggested-tags::'' = ''suggested-tags::''" by (simp add: lower_def lower_char_def code_of_def)
  have "lstrip (CHR '' '' # ?raw @ [LF]) = ?raw @ [LF]"
    using hd_raw by (cases ?raw) (auto simp: lstrip_by_def py_space_def)
  then have "key_at ''suggested-tags::'' (CHR ''s'' # ''uggested-tags:: '' @ ?raw @ [LF]) = Some (?raw @ [LF])"
    using key_at_match [OF k, of "CHR '' '' # ?raw @ [LF]"] by simp
  then have "dash_field ''suggested-tags::'' (''- '' @ CHR ''s'' # ''uggested-tags:: '' @ ?raw @ [LF]) = Some (rstrip ?raw)"
    unfolding dash_line [OF sp(1)] using hd_raw(1) take_line [OF raw_LF, of "[]"] by (cases ?raw) simp_all
  then have f: "search_lines (dash_field ''suggested-tags::'') (line_starts (''- suggested-tags:: '' @ ?raw @ [LF])) = Some (rstrip ?raw)"
    by (simp add: line_starts_def)
  obtain us u where u: "map hashed ts = us @ [u]" using assms(2) by (metis map_is_Nil_conv rev_exhaust)
  then have "last ?raw = last u" "u \<noteq> []" "\<not> py_space (last u)"
    using words by (auto simp: join_snoc list_all_iff)
  then have "rstrip ?raw = ?raw" by (intro rstrip_by_id) simp
  then show ?thesis using f split assms(1) hashed_props(3)
    by (intro exI [of _ ?raw]) (auto simp: parse_tags_def list_all_iff clean_tag_def o_def filter_id_conv)
qed

lemma strip_lf_prefix: "\<exists>b. s = strip_lf s @ b"
  unfolding strip_lf_def using rstrip_by_decomp by blast

text \<open>
  The catalog reads back what the harvest writes: a page that had no summary or tag line
  gets a semantic index section from which a later, model-free harvest extracts the same
  summary and tags that were put into the catalog, when the summary is one line of text and
  the tags are words.
\<close>

theorem harvest_section_reread:
  assumes "strip (bs_summary s) \<noteq> []" "LF \<notin> set (strip (bs_summary s))" "LF \<notin> set stamp"
    and "list_all clean_tag (bs_suggested_tags s)"
    and "\<not> contains (lower prev) ''summary::''" "\<not> contains (lower prev) ''suggested-tags::''"
  shows "\<exists>e. extract_catalog_fields_from_content (minimal_index_body prev stamp s) = Some e \<and>
     ce_summary e = ce_summary (row_from_harvest (bs_summary s) (bs_suggested_tags s) domain mtime_ns orphan) \<and>
     ce_tags e = ce_tags (row_from_harvest (bs_summary s) (bs_suggested_tags s) domain mtime_ns orphan)"
proof -
  let ?v = "strip (bs_summary s)" and ?ts = "bs_suggested_tags s" and ?x = "strip_lf prev"
  let ?rest = "if ?ts = [] then [] else ''- suggested-tags:: '' @ join '' '' (map hashed ?ts) @ [LF]"
  let ?sec = "section_lines stamp ?v ?rest"
  have body: "minimal_index_body prev stamp s = ?x @ LF # ?sec"
    by (simp add: minimal_index_body_def format_minimal_lines)
  have cut: "search_lines (dash_field key) (line_starts (?x @ LF # ?sec)) = search_lines (dash_field key) (line_starts ?sec)"
    if "key \<in> {''summary::'', ''suggested-tags::''}" for key
  proof (rule search_cut)
    obtain b where "prev = ?x @ b" using strip_lf_prefix by blast
    then have "contains (lower ?x) key \<Longrightarrow> contains (lower prev) key"
      unfolding contains_iff by (metis append.assoc lower_append)
    then show "\<not> contains (lower ?x) key" using that assms(5,6) by auto
  qed (use that heading_no_field in auto)
  have summary: "summary_line_value (minimal_index_body prev stamp s) = Some ?v"
    using cut [of "''summary::''"] section_summary [OF assms(3) strip_idem assms(1,2)]
    by (simp add: summary_line_value_def body)
  have tags: "(case tags_line_value (minimal_index_body prev stamp s) of None \<Rightarrow> [] | Some raw \<Rightarrow> parse_tags raw) =
      map (\<lambda>t. lower (strip_hash t)) ?ts"
  proof (cases "?ts = []")
    case True
    then show ?thesis using cut [of "''suggested-tags::''"] section_tags [OF assms(3,2)]
      by (simp add: tags_line_value_def body line_starts_def dash_field_def)
  next
    case False
    then show ?thesis
      using cut [of "''suggested-tags::''"] section_tags [OF assms(3,2), of ?rest] tags_line_read [OF assms(4) False]
      by (auto simp: tags_line_value_def body)
  qed
  have "contains (minimal_index_body prev stamp s) SEMANTIC_INDEX_HEADING"
    unfolding contains_iff body section_lines_def by (metis append.assoc append_Cons)
  moreover have "filter (\<lambda>t. strip t \<noteq> []) ?ts = ?ts"
    using assms(4) hashed_props(5) by (simp add: filter_id_conv list_all_iff)
  ultimately show ?thesis
    using summary tags assms(1) by (simp add: extract_catalog_fields_from_content_def row_from_harvest_def Let_def)
qed

subsection \<open>The index page on disk\<close>

lemma assert_path_edits [simp]: "assert_path_within_graph (apply_edits es w) = assert_path_within_graph w"
  by (intro ext) (simp add: assert_path_within_graph_def)

lemma graph_safe_page_path_edits [simp]: "graph_safe_page_path (apply_edits es w) = graph_safe_page_path w"
  by (intro ext) (simp add: graph_safe_page_path_def Let_def split: sum.split)



subsection \<open>The compiled index lists the catalog\<close>

lemma concat_lf: "concat (map (\<lambda>l. l @ [LF]) (zs @ [l])) = join [LF] (zs @ [l]) @ [LF]"
proof (induction zs)
  case Nil
  then show ?case by (simp add: join_def)
next
  case (Cons z zs)
  then show ?case by (cases zs) (simp_all add: join_def)
qed

lemma splitlines_join:
  assumes "list_all no_break (zs @ [l])"
  shows "splitlines (join [LF] (zs @ [l]) @ [LF]) = zs @ [l]"
proof -
  have "lf_lines (map (\<lambda>l. l @ [LF]) (zs @ [l]))"
    using assms by (intro lf_lines_all) (auto simp: list_all_iff lf_line_def)
  then have "splitlines (join [LF] (zs @ [l]) @ [LF]) = map strip_lf (map (\<lambda>l. l @ [LF]) (zs @ [l]))"
    unfolding concat_lf [symmetric] by (rule splitlines_concat)
  also have "\<dots> = zs @ [l]" using assms by (auto simp: list_all_iff strip_lf_no_break intro: map_idI)
  finally show ?thesis .
qed

lemma rstrip_trailing_blank:
  assumes "l \<noteq> []" "\<not> py_space (last l)"
  shows "rstrip (join [LF] (zs @ [l, []])) = join [LF] (zs @ [l])"
proof -
  have "join [LF] (zs @ [l, []]) = join [LF] ((zs @ [l]) @ [[]])" by simp
  also have "\<dots> = join [LF] (zs @ [l]) @ [LF]" by (subst join_snoc) simp
  finally have j: "join [LF] (zs @ [l, []]) = join [LF] (zs @ [l]) @ [LF]" .
  have "last (join [LF] (zs @ [l])) = last l" using assms(1) by (simp add: join_snoc)
  then have "rstrip (join [LF] (zs @ [l])) = join [LF] (zs @ [l])" using assms(2) by (intro rstrip_by_id) simp
  moreover have "py_space LF" by (simp add: py_space_def)
  ultimately show ?thesis unfolding j by (simp add: rstrip_by_snoc)
qed

lemma partition_mset:
  "distinct ds \<Longrightarrow> (\<And>p. g p \<in> set ds) \<Longrightarrow>
     mset (concat (map (\<lambda>d. filter (\<lambda>p. Q p \<and> g p = d) ps) ds)) = mset (filter Q ps)"
proof (induction ps)
  case (Cons p ps)
  let ?f = "\<lambda>d. filter (\<lambda>p. Q p \<and> g p = d)"
  have "mset (concat (map (\<lambda>d. ?f d (p # ps)) es)) =
      (if Q p \<and> g p \<in> set es then {#p#} else {#}) + mset (concat (map (\<lambda>d. ?f d ps) es))" if "distinct es" for es
    using that by (induction es) auto
  then show ?case using Cons by simp
qed simp

definition row_lines :: "pages \<Rightarrow> string \<times> string \<Rightarrow> string list" where
  "row_lines ps dl = map index_row_line (sort_key (\<lambda>row. lower (fst row)) (grouped_rows ps (fst dl)))"

lemma mset_row_lines:
  "mset (concat (map (row_lines ps) domain_labels)) =
     image_mset index_row_line (mset (filter (\<lambda>p. fst p \<notin> set GENERATED_INDEX_TITLES) ps))"
proof -
  let ?ds = "map fst domain_labels"
  have ds: "distinct ?ds" "row_domain e \<in> set ?ds" for e
    by (auto simp: domain_labels_def row_domain_def MARPA_DOMAINS_def)
  have "mset (concat (map (row_lines ps) dls)) =
      image_mset index_row_line (mset (concat (map (\<lambda>d. grouped_rows ps d) (map fst dls))))" for dls
    by (induction dls) (simp_all add: row_lines_def)
  then show ?thesis
    using partition_mset [OF ds(1), of "\<lambda>p. row_domain (snd p)" "\<lambda>p. fst p \<notin> set GENERATED_INDEX_TITLES" ps] ds(2)
    by (simp add: grouped_rows_def)
qed

definition is_row_line :: "string \<Rightarrow> bool" where
  "is_row_line l \<longleftrightarrow> startswith l ''  - [[''"

lemma index_row_line_shape: "\<exists>x. index_row_line row = ''  - [['' @ x \<and> x \<noteq> [] \<and> \<not> py_space (last x)"
proof -
  have b: "\<not> py_space (CHR '']'')" by (simp add: py_space_def)
  show ?thesis
  proof (cases "strip (ce_summary (snd row)) = []")
    case True
    then show ?thesis using b
      by (intro exI [of _ "fst row @ '']]''"]) (simp add: index_row_line_def)
  next
    case False
    then show ?thesis using strip_last [of "ce_summary (snd row)"]
      by (intro exI [of _ "fst row @ '']] '' @ em_dash @ '' '' @ strip (ce_summary (snd row))"]) (simp add: index_row_line_def Let_def)
  qed
qed

lemma filter_section: "filter is_row_line (index_section ps dl) = row_lines ps dl"
proof -
  have "is_row_line (index_row_line row)" for row
    using index_row_line_shape [of row] by (auto simp: is_row_line_def startswith_def)
  then have "filter is_row_line (map index_row_line rows) = map index_row_line rows" for rows
    by (simp add: filter_id_conv)
  moreover have "\<not> is_row_line (''- ## '' @ snd dl)" "\<not> is_row_line ''  collapsed:: true''" "\<not> is_row_line []"
    by (simp_all add: is_row_line_def startswith_def)
  ultimately show ?thesis
    by (auto simp: index_section_def row_lines_def Let_def simp del: append.simps(2))
qed

lemma index_lines_end:
  "\<exists>zs l. index_header str_of stamp n @ concat (map (index_section ps) dls) = zs @ [l, []] \<and> l \<noteq> [] \<and> \<not> py_space (last l)"
proof (induction dls rule: rev_induct)
  case Nil
  have "\<not> py_space (CHR ''_'')" by (simp add: py_space_def)
  then show ?case
    by (intro exI [of _ "take 4 (index_header str_of stamp n)"] exI [of _ "''_Auto-generated catalog of '' @ str_of n @ '' indexed page(s)._''"])
      (simp add: index_header_def)
next
  case (snoc dl dls)
  show ?case
  proof (cases "grouped_rows ps (fst dl) = []")
    case True
    then show ?thesis using snoc by (auto simp: index_section_def)
  next
    case False
    let ?rows = "map index_row_line (sort_key (\<lambda>row. lower (fst row)) (grouped_rows ps (fst dl)))"
    have sec: "index_section ps dl = [''- ## '' @ snd dl, ''  collapsed:: true''] @ ?rows @ [[]]"
      using False by (simp add: index_section_def Let_def) (metis length_0_conv length_sort)
    have "?rows \<noteq> []" using False by (metis length_0_conv length_map length_sort)
    then obtain rs row where r: "?rows = rs @ [row]" by (metis rev_exhaust)
    then obtain q where "row = index_row_line q" by (metis in_set_conv_decomp set_map imageE)
    then have "row \<noteq> []" "\<not> py_space (last row)" using index_row_line_shape [of q] by auto
    then show ?thesis unfolding sec r
      by (intro exI [of _ "index_header str_of stamp n @ concat (map (index_section ps) dls) @
          [''- ## '' @ snd dl, ''  collapsed:: true''] @ rs"] exI [of _ row]) (simp add: sec r)
  qed
qed

lemma no_break_append [simp]: "no_break (x @ y) \<longleftrightarrow> no_break x \<and> no_break y"
  by (simp add: no_break_def)

lemma no_break_index_row:
  "no_break (fst row) \<Longrightarrow> no_break (strip (ce_summary (snd row))) \<Longrightarrow> no_break (index_row_line row)"
  by (auto simp: index_row_line_def Let_def no_break_def em_dash_def line_break_def)

text \<open>
  C29. The compiled index page lists the catalog: among its lines, those that link a page are,
  up to order, exactly one line for every row, with the stripped summary, except the rows of
  the generated pages themselves. Titles, summaries and the two inserted texts are single
  lines.
\<close>

theorem master_index_lists_catalog:
  assumes "\<And>t e. (t, e) \<in> set (mc_pages c) \<Longrightarrow> no_break t \<and> no_break (strip (ce_summary e))"
    and "no_break stamp" "\<And>n. no_break (str_of n)"
  shows "mset (filter is_row_line (splitlines (build_master_index_markdown str_of stamp c))) =
     image_mset index_row_line (mset (filter (\<lambda>p. fst p \<notin> set GENERATED_INDEX_TITLES) (mc_pages c)))"
proof -
  let ?n = "length (mc_pages c)" and ?ps = "mc_pages c"
  let ?lines = "index_header str_of stamp ?n @ concat (map (index_section ?ps) domain_labels)"
  obtain zs l where z: "?lines = zs @ [l, []]" "l \<noteq> []" "\<not> py_space (last l)" using index_lines_end by blast
  have hdr: "list_all no_break (index_header str_of stamp ?n)"
    using assms(2,3) by (simp add: index_header_def) (simp add: no_break_def line_break_def)
  have "list_all no_break (index_section ?ps dl)" if "dl \<in> set domain_labels" for dl
  proof -
    have "no_break (snd dl)" using that by (auto simp: domain_labels_def no_break_def line_break_def em_dash_def)
    moreover have "list_all no_break (map index_row_line (sort_key f (grouped_rows ?ps d)))" for f :: "string \<times> page_row \<Rightarrow> string" and d
      using assms(1) by (auto simp: list_all_iff grouped_rows_def intro!: no_break_index_row)
    ultimately show ?thesis by (simp add: index_section_def Let_def) (simp add: no_break_def line_break_def)
  qed
  then have nb: "list_all no_break ?lines" using hdr by (auto simp: list_all_iff)
  have "build_master_index_markdown str_of stamp c = join [LF] (zs @ [l]) @ [LF]"
    unfolding build_master_index_markdown_def z(1) by (simp add: rstrip_trailing_blank z)
  then have "splitlines (build_master_index_markdown str_of stamp c) = zs @ [l]"
    using nb unfolding z(1) by (simp add: splitlines_join)
  moreover have "filter is_row_line ?lines = filter is_row_line (zs @ [l])"
    unfolding z(1) by (simp add: is_row_line_def startswith_def)
  moreover have "filter is_row_line (index_header str_of stamp ?n) = []"
    by (simp add: index_header_def is_row_line_def startswith_def)
  ultimately have "filter is_row_line (splitlines (build_master_index_markdown str_of stamp c)) =
      concat (map (row_lines ?ps) domain_labels)"
    by (simp add: filter_concat filter_section o_def)
  then show ?thesis using mset_row_lines [of ?ps] by simp
qed

lemma master_index_lists_catalog_witness:
  "mset (filter is_row_line (splitlines (build_master_index_markdown (\<lambda>_. ''1'') ''now''
       (example_catalog [(''A'', example_row ''one'' 1), (''Matryca Master Index'', example_row ''x'' 1)])))) =
     {#''  - [[A]] '' @ em_dash @ '' one''#}"
proof -
  let ?c = "example_catalog [(''A'', example_row ''one'' 1), (''Matryca Master Index'', example_row ''x'' 1)]"
  have s: "strip ''one'' = ''one''" "strip ''x'' = ''x''" by code_simp+
  have "mset (filter is_row_line (splitlines (build_master_index_markdown (\<lambda>_. ''1'') ''now'' ?c))) =
      image_mset index_row_line (mset (filter (\<lambda>p. fst p \<notin> set GENERATED_INDEX_TITLES) (mc_pages ?c)))"
    by (rule master_index_lists_catalog)
      (auto simp: example_catalog_def example_row_def s no_break_def line_break_def)
  then show ?thesis
    by (simp add: example_catalog_def example_row_def GENERATED_INDEX_TITLES_def MASTER_INDEX_PAGE_TITLE_def index_row_line_def s)
qed

definition example_answer :: bootstrap_summary where
  "example_answer = \<lparr>bs_summary = '' A page about birds. '', bs_suggested_tags = [''#Birds'', ''nature''], bs_domain = ''area''\<rparr>"

lemma harvest_section_reread_witness:
  "\<exists>e. extract_catalog_fields_from_content (minimal_index_body ''- birds'' ''now'' example_answer) = Some e \<and>
     ce_summary e = ''A page about birds.'' \<and> ce_tags e = [''birds'', ''nature'']"
proof -
  have c: "strip (bs_summary example_answer) = ''A page about birds.''" by code_simp
  have t: "list_all clean_tag (bs_suggested_tags example_answer)" by code_simp
  have p: "\<not> contains (lower ''- birds'') ''summary::''" "\<not> contains (lower ''- birds'') ''suggested-tags::''" by code_simp+
  have r: "ce_tags (row_from_harvest (bs_summary example_answer) (bs_suggested_tags example_answer) [] 0 False) = [''birds'', ''nature'']"
    by code_simp
  show ?thesis
    using harvest_section_reread [OF _ _ _ t p, of "''now''" "[]" 0 False] r
    by (simp add: c) (simp add: row_from_harvest_def c)
qed

lemma harvested_rows_well_typed_witness:
  "rows_all row_ok (fst (snd (harvest_page_into_catalog ''now'' None [''g''] [''g'', ''pages'', ''A.md''] None (\<lambda>_. 0)
     \<lparr>hw_read = [], hw_write = \<lparr>il_lock = None, il_copy = [], il_write = []\<rparr>, hw_after = []\<rparr>
     (example_catalog [(''B'', example_row ''b'' 1)])
     (example_world (''- a'' @ [LF] @ ''- ### Matryca Semantic Index'' @ [LF] @ ''- summary:: s'') ''''))))"
proof -
  have "rows_all row_ok (example_catalog [(''B'', example_row ''b'' 1)])" by code_simp
  then show ?thesis by (rule harvested_rows_well_typed [THEN conjunct2, rule_format])
qed

subsection \<open>What goes wrong\<close>

text \<open>An empty summary reads the next line: white space after the key matches the line break.\<close>

lemma empty_summary_reads_next_line:
  "map_option ce_summary (extract_catalog_fields_from_content
     (''- ### Matryca Semantic Index'' @ [LF] @ ''- summary:: '' @ [LF] @ ''- suggested-tags:: #birds'' @ [LF])) =
   Some ''- suggested-tags:: #birds''"
  by code_simp

text \<open>With memory maps on, an empty page raises instead of being skipped.\<close>

lemma empty_page_raises:
  "stat_file w p = Some f \<Longrightarrow> body f = [] \<Longrightarrow> page_title_from_path w groot p = Inr title \<Longrightarrow>
     assert_path_within_graph w p groot = Inr (resolved w p) \<Longrightarrow>
     harvest_page_into_catalog stamp (Some least) groot p llm incoming hw c w =
       (w, c, Inl (ValueError ''cannot mmap an empty file''))"
  by (simp add: harvest_page_into_catalog_def read_catalog_source_def mmap_graph_page_def stat_file_def)

text \<open>A domain that came from the title or the model is lost when the page is read again.\<close>

lemma reread_loses_domain:
  "infer_domain_from_content ''Area/Birds'' ''- birds'' = ''area''"
  "map_option ce_domain (extract_catalog_fields_from_content (minimal_index_body ''- birds'' ''now'' example_answer)) = Some []"
  by code_simp+

text \<open>An edit between the drift check and the second time stamp is overwritten, and success is reported.\<close>

lemma hub_write_window:
  "case write_generated_hub_page [''g''] ''A'' ''- hub'' (Some (IntBase 1700000000000000000)) ''s''
      \<lparr>il_lock = Some [], il_copy = [([''g'', ''pages'', ''A.md''], ''- mine'')], il_write = []\<rparr> (example_world ''- a'' '''') of
     (w', r) \<Rightarrow> r = Inr ([''g'', ''pages'', ''A.md''], True) \<and>
       map_option body (files w' [''g'', ''pages'', ''A.md'']) = Some ''- hub''"
  by code_simp

end
