(* ===== verification/AdvancedQuery.thy ===== *)
theory AdvancedQuery
  imports Prelude
begin

section \<open>Advanced query blocks\<close>

text \<open>
  Model of \<open>src/graph/advanced_query_block.py\<close> and of the query presets of
  \<open>src/graph/templates.py\<close>: the bracket check of an EDN text, the fences around it, and the two
  presets with the escaping of a tag. A \<open>ValueError\<close> is the left side of a sum. The bracket
  check is compared with a grammar of EDN texts, and the presets are shown to pass it
  whatever the tag is.
\<close>

subsection \<open>The bracket check\<close>

definition bracket_pair :: "char \<Rightarrow> char option" where
  "bracket_pair c =
     (if c = CHR ''('' then Some (CHR '')'') else if c = CHR ''['' then Some (CHR '']'')
      else if c = CHR ''{'' then Some (CHR ''}'') else None)"

definition is_closing :: "char \<Rightarrow> bool" where
  "is_closing c \<longleftrightarrow> c = CHR '')'' \<or> c = CHR '']'' \<or> c = CHR ''}''"

text \<open>Where the scan stands: the stack of open brackets, the two string flags.\<close>

record scan =
  sc_stack :: string
  sc_in_string :: bool
  sc_escape :: bool

text \<open>One turn of the loop; \<open>None\<close> is the early return of \<open>False\<close>.\<close>

definition scan_step :: "scan \<Rightarrow> char \<Rightarrow> scan option" where
  "scan_step s ch =
     (if sc_in_string s then
        (if sc_escape s then Some (s\<lparr>sc_escape := False\<rparr>)
         else if ch = BSL then Some (s\<lparr>sc_escape := True\<rparr>)
         else if ch = DQ then Some (s\<lparr>sc_in_string := False\<rparr>)
         else Some s)
      else if ch = DQ then Some (s\<lparr>sc_in_string := True\<rparr>)
      else if bracket_pair ch \<noteq> None then Some (s\<lparr>sc_stack := ch # sc_stack s\<rparr>)
      else if is_closing ch then
        (case sc_stack s of
           [] \<Rightarrow> None
         | b # stack \<Rightarrow> if bracket_pair b = Some ch then Some (s\<lparr>sc_stack := stack\<rparr>) else None)
      else Some s)"

fun scan_text :: "scan \<Rightarrow> string \<Rightarrow> scan option" where
  "scan_text s [] = Some s"
| "scan_text s (c # cs) = (case scan_step s c of None \<Rightarrow> None | Some s' \<Rightarrow> scan_text s' cs)"

definition scan_start :: scan where
  "scan_start = \<lparr>sc_stack = [], sc_in_string = False, sc_escape = False\<rparr>"

definition balanced_brackets :: "string \<Rightarrow> bool" where
  "balanced_brackets inner =
     (case scan_text scan_start inner of
        None \<Rightarrow> False
      | Some s \<Rightarrow> sc_stack s = [] \<and> \<not> sc_in_string s)"

datatype query_error = EmptyBody | NoQueryClause | UnbalancedBody | MissingTag | UnknownPreset

definition validate_advanced_query_edn :: "string \<Rightarrow> query_error + string" where
  "validate_advanced_query_edn inner =
     (let edn = strip inner
      in if edn = [] then Inl EmptyBody
         else if \<not> contains edn '':query'' then Inl NoQueryClause
         else if \<not> balanced_brackets edn then Inl UnbalancedBody
         else Inr edn)"

definition wrap_logseq_advanced_query :: "string \<Rightarrow> query_error + string" where
  "wrap_logseq_advanced_query inner_edn =
     (case validate_advanced_query_edn inner_edn of
        Inl e \<Rightarrow> Inl e
      | Inr edn \<Rightarrow> Inr (''#+BEGIN_QUERY'' @ [LF] @ edn @ [LF] @ ''#+END_QUERY''))"

subsection \<open>The presets\<close>

definition edn_escape_string :: "string \<Rightarrow> string" where
  "edn_escape_string s = replace_sub [DQ] [BSL, DQ] (replace_sub [BSL] [BSL, BSL] s)"

definition quoted :: "string \<Rightarrow> string" where
  "quoted s = DQ # s @ [DQ]"

definition preset_open_markers :: string where
  "preset_open_markers =
     ''{:title '' @ quoted ''Open markers (TODO / LATER / WAITING)'' @ [LF] @
     '' :query [:find (pull ?b [*])'' @ [LF] @ ''         :where'' @ [LF] @
     ''         [?b :block/marker ?m]'' @ [LF] @
     ''         [(contains? #{'' @ quoted ''TODO'' @ '' '' @ quoted ''LATER'' @ '' '' @ quoted ''WAITING'' @ ''} ?m)]]}''"

definition preset_pages_tagged :: "string \<Rightarrow> string" where
  "preset_pages_tagged tag =
     (let bare = strip (dropWhile (\<lambda>c. c = CHR ''#'') tag);
          safe_title = edn_escape_string bare;
          needle_lit = edn_escape_string (''#'' @ bare)
      in ''{:title '' @ quoted (''Blocks mentioning #'' @ safe_title) @ [LF] @
         '' :inputs ['' @ quoted needle_lit @ '']'' @ [LF] @
         '' :query [:find (pull ?b [*])'' @ [LF] @ ''         :in $ ?needle'' @ [LF] @
         ''         :where'' @ [LF] @ ''         [?b :block/content ?c]'' @ [LF] @
         ''         [(clojure.string/includes? ?c ?needle)]]}'')"

definition resolve_advanced_query_preset :: "string \<Rightarrow> string option \<Rightarrow> query_error + string" where
  "resolve_advanced_query_preset preset tag =
     (let key = map (\<lambda>c. if c = CHR ''-'' then CHR ''_'' else c) (lower (strip preset))
      in if key \<in> {''open_markers'', ''open_tasks'', ''todos''} then Inr preset_open_markers
         else if key \<in> {''pages_tagged'', ''tagged_pages''} then
           (case tag of
              None \<Rightarrow> Inl MissingTag
            | Some t \<Rightarrow> if strip t = [] then Inl MissingTag else Inr (preset_pages_tagged (strip t)))
         else Inl UnknownPreset)"

subsection \<open>A grammar of balanced texts\<close>

text \<open>The inside of a string literal: no bare quote, no backslash that escapes nothing.\<close>

inductive string_inside :: "string \<Rightarrow> bool" where
  inside_nil: "string_inside []"
| inside_char: "c \<noteq> DQ \<Longrightarrow> c \<noteq> BSL \<Longrightarrow> string_inside s \<Longrightarrow> string_inside (c # s)"
| inside_escape: "string_inside s \<Longrightarrow> string_inside (BSL # c # s)"

inductive edn :: "string \<Rightarrow> bool" where
  edn_nil: "edn []"
| edn_char: "c \<noteq> DQ \<Longrightarrow> bracket_pair c = None \<Longrightarrow> \<not> is_closing c \<Longrightarrow> edn s \<Longrightarrow> edn (c # s)"
| edn_string: "string_inside q \<Longrightarrow> edn s \<Longrightarrow> edn (DQ # q @ DQ # s)"
| edn_bracket: "bracket_pair b = Some c \<Longrightarrow> edn s \<Longrightarrow> edn t \<Longrightarrow> edn (b # s @ c # t)"

lemma scan_text_append: "scan_text s (x @ y) = (case scan_text s x of None \<Rightarrow> None | Some s' \<Rightarrow> scan_text s' y)"
  by (induction s x rule: scan_text.induct) (auto split: option.splits)

text \<open>The scan outside and inside a string, on the stack \<open>st\<close>.\<close>

abbreviation outside :: "string \<Rightarrow> scan" where
  "outside st \<equiv> \<lparr>sc_stack = st, sc_in_string = False, sc_escape = False\<rparr>"

abbreviation inside :: "string \<Rightarrow> scan" where
  "inside st \<equiv> \<lparr>sc_stack = st, sc_in_string = True, sc_escape = False\<rparr>"

lemma bracket_pair_cases:
  "bracket_pair b = Some c \<Longrightarrow> b \<noteq> DQ \<and> c \<noteq> DQ \<and> bracket_pair c = None \<and> is_closing c"
  by (auto simp: bracket_pair_def is_closing_def split: if_splits)

lemma scan_inside: "string_inside q \<Longrightarrow> scan_text (inside st) q = Some (inside st)"
  by (induction rule: string_inside.induct) (simp_all add: scan_step_def)

lemma scan_edn: "edn s \<Longrightarrow> scan_text (outside st) s = Some (outside st)"
proof (induction arbitrary: st rule: edn.induct)
  case (edn_string q s)
  then show ?case
    by (simp add: scan_step_def scan_text_append scan_inside)
next
  case (edn_bracket b c s t)
  then show ?case
    using bracket_pair_cases [OF edn_bracket.hyps(1)] by (simp add: scan_step_def scan_text_append)
qed (simp_all add: scan_step_def)

text \<open>
  What a text is that closes the brackets of a stack, top first: a balanced text before each
  closing bracket, and one at the end.
\<close>

fun closes :: "string \<Rightarrow> string \<Rightarrow> bool" where
  "closes [] s = edn s"
| "closes (b # st) s = (\<exists>u c t. s = u @ c # t \<and> edn u \<and> bracket_pair b = Some c \<and> closes st t)"

lemma edn_append: "edn s \<Longrightarrow> edn t \<Longrightarrow> edn (s @ t)"
  by (induction rule: edn.induct) (auto intro: edn.intros)

lemma closes_prefix: "edn u \<Longrightarrow> closes st s \<Longrightarrow> closes st (u @ s)"
  by (cases st) (auto intro: edn_append, metis append.assoc edn_append)

lemma string_split:
  "scan_text (inside st) s = Some e \<Longrightarrow> \<not> sc_in_string e \<Longrightarrow> \<exists>q t. s = q @ DQ # t \<and> string_inside q \<and> scan_text (outside st) t = Some e"
proof (induction s rule: length_induct)
  case (1 s)
  show ?case
  proof (cases s)
    case Nil
    then show ?thesis using "1.prems" by auto
  next
    case (Cons c cs)
    show ?thesis
    proof (cases "c = DQ")
      case True
      then show ?thesis using "1.prems" Cons
        by (intro exI [of _ "[]"] exI [of _ cs]) (simp add: scan_step_def inside_nil)
    next
      case False
      show ?thesis
      proof (cases "c = BSL")
        case True
        then obtain d ds where cs: "cs = d # ds" using "1.prems" Cons by (cases cs) (auto simp: scan_step_def)
        then have "scan_text (inside st) ds = Some e" using "1.prems"(1) Cons True by (simp add: scan_step_def)
        then obtain q t where "ds = q @ DQ # t" "string_inside q" "scan_text (outside st) t = Some e"
          using "1.IH" [rule_format, of ds] "1.prems"(2) Cons cs by auto
        then show ?thesis using Cons cs True inside_escape [of q d]
          by (intro exI [of _ "BSL # d # q"] exI [of _ t]) simp
      next
        case False
        then have "scan_text (inside st) cs = Some e" using "1.prems"(1) Cons \<open>c \<noteq> DQ\<close> by (simp add: scan_step_def)
        then obtain q t where "cs = q @ DQ # t" "string_inside q" "scan_text (outside st) t = Some e"
          using "1.IH" [rule_format, of cs] "1.prems"(2) Cons by auto
        then show ?thesis using Cons False \<open>c \<noteq> DQ\<close> inside_char [of c q]
          by (intro exI [of _ "c # q"] exI [of _ t]) simp
      qed
    qed
  qed
qed

lemma scan_closes:
  "scan_text (outside st) s = Some (outside []) \<Longrightarrow> closes st s"
proof (induction s arbitrary: st rule: length_induct)
  case (1 s)
  show ?case
  proof (cases s)
    case Nil
    then show ?thesis using "1.prems" by (simp add: edn_nil)
  next
    case (Cons c cs)
    consider (quote) "c = DQ" | (open') d where "c \<noteq> DQ" "bracket_pair c = Some d"
      | (close) "c \<noteq> DQ" "bracket_pair c = None" "is_closing c"
      | (other) "c \<noteq> DQ" "bracket_pair c = None" "\<not> is_closing c" by (cases "bracket_pair c") auto
    then show ?thesis
    proof cases
      case quote
      then have "scan_text (inside st) cs = Some (outside [])" using "1.prems" Cons by (simp add: scan_step_def)
      then obtain q t where q: "cs = q @ DQ # t" "string_inside q" "scan_text (outside st) t = Some (outside [])"
        using string_split [of st cs "outside []"] by auto
      then have "closes st t" using "1.IH" Cons by simp
      moreover have "edn (DQ # q @ [DQ])" using edn_string [OF q(2) edn_nil] by simp
      ultimately show ?thesis using closes_prefix [of "DQ # q @ [DQ]" st t] Cons q(1) quote by simp
    next
      case open'
      then have "scan_text (outside (c # st)) cs = Some (outside [])" using "1.prems" Cons by (simp add: scan_step_def)
      then have "closes (c # st) cs" using "1.IH" [rule_format, of cs "c # st"] Cons by (simp del: closes.simps)
      then obtain u e t where u: "cs = u @ e # t" "edn u" "bracket_pair c = Some e" "closes st t" by auto
      have "edn (c # u @ [e])" using edn_bracket [OF u(3,2) edn_nil] by simp
      then show ?thesis using closes_prefix [of "c # u @ [e]" st t] u Cons by simp
    next
      case close
      then obtain b st' where st: "st = b # st'" "bracket_pair b = Some c" "scan_text (outside st') cs = Some (outside [])"
        using "1.prems" Cons by (auto simp: scan_step_def split: list.splits if_splits)
      then have "closes st' cs" using "1.IH" Cons by simp
      then show ?thesis using st Cons edn_nil by auto
    next
      case other
      then have "scan_text (outside st) cs = Some (outside [])" using "1.prems" Cons by (simp add: scan_step_def)
      then have "closes st cs" using "1.IH" Cons by simp
      then show ?thesis using closes_prefix [of "[c]" st cs] edn_char [OF other edn_nil] Cons by simp
    qed
  qed
qed

lemma scan_step_escape: "scan_step s c = Some s' \<Longrightarrow> sc_in_string s \<or> \<not> sc_escape s \<Longrightarrow> sc_in_string s' \<or> \<not> sc_escape s'"
  by (auto simp: scan_step_def split: if_splits list.splits)

lemma scan_text_escape: "scan_text s x = Some s' \<Longrightarrow> sc_in_string s \<or> \<not> sc_escape s \<Longrightarrow> sc_in_string s' \<or> \<not> sc_escape s'"
proof (induction s x rule: scan_text.induct)
  case (2 s c cs)
  then show ?case by (auto dest: scan_step_escape split: option.splits)
qed simp

lemma balanced_scan: "balanced_brackets s \<longleftrightarrow> scan_text scan_start s = Some (outside [])"
proof
  assume b: "balanced_brackets s"
  then obtain e where e: "scan_text scan_start s = Some e" "sc_stack e = []" "\<not> sc_in_string e"
    by (auto simp: balanced_brackets_def split: option.splits)
  then have "\<not> sc_escape e" using scan_text_escape [OF e(1)] by (simp add: scan_start_def)
  then show "scan_text scan_start s = Some (outside [])" using e by (cases e) simp
qed (simp add: balanced_brackets_def)

text \<open>
  C30. The bracket check accepts exactly the balanced texts: those the grammar \<open>edn\<close> derives
  from plain characters, terminated string literals with escapes, and matching pairs of
  brackets around balanced texts.
\<close>

theorem balanced_iff_grammar: "balanced_brackets s \<longleftrightarrow> edn s"
  using scan_closes [of "[]" s] scan_edn [of s "[]"] by (auto simp: balanced_scan scan_start_def)

subsection \<open>The presets are valid queries\<close>

lemma find_sub_char: "find_sub [c] (x # s) = (if x = c then Some 0 else map_option Suc (find_sub [c] s))"
  by (simp add: startswith_def)

lemma split_sub_char:
  "split_sub [c] [] = [[]]"
  "split_sub [c] (x # s) = (if x = c then [] # split_sub [c] s else (x # hd (split_sub [c] s)) # tl (split_sub [c] s))"
proof -
  show "split_sub [c] [] = [[]]" by (subst split_sub.simps) simp
  show "split_sub [c] (x # s) = (if x = c then [] # split_sub [c] s else (x # hd (split_sub [c] s)) # tl (split_sub [c] s))"
  proof (cases "x = c")
    case True
    then show ?thesis by (subst split_sub.simps) (simp add: find_sub_char del: find_sub.simps)
  next
    case False
    then show ?thesis
      by (subst split_sub.simps, subst (3 4) split_sub.simps) (simp add: find_sub_char del: find_sub.simps split: option.splits)
  qed
qed

lemma replace_char: "replace_sub [c] r s = concat (map (\<lambda>x. if x = c then r else [x]) s)"
proof -
  have "join r (split_sub [c] s) = concat (map (\<lambda>x. if x = c then r else [x]) s)"
  proof (induction s)
    case (Cons x s)
    obtain y ys where "split_sub [c] s = y # ys" by (metis split_sub_neq_Nil list.exhaust)
    then show ?case using Cons by (auto simp: split_sub_char join_def)
  qed (simp add: split_sub_char join_def)
  then show ?thesis by (simp add: replace_sub_def)
qed

lemma escape_chars: "edn_escape_string s = concat (map (\<lambda>c. if c = BSL \<or> c = DQ then [BSL, c] else [c]) s)"
  by (induction s) (simp_all add: edn_escape_string_def replace_char)

lemma escape_inside: "string_inside (edn_escape_string s)"
  by (induction s) (auto simp: escape_chars intro: string_inside.intros)

definition tagged_head :: string where
  "tagged_head = ''{:title '' @ [DQ] @ ''Blocks mentioning #''"

definition tagged_middle :: string where
  "tagged_middle = [DQ, LF] @ '' :inputs ['' @ [DQ]"

definition tagged_tail :: string where
  "tagged_tail = [DQ] @ '']'' @ [LF] @
     '' :query [:find (pull ?b [*])'' @ [LF] @ ''         :in $ ?needle'' @ [LF] @
     ''         :where'' @ [LF] @ ''         [?b :block/content ?c]'' @ [LF] @
     ''         [(clojure.string/includes? ?c ?needle)]]}''"

lemma preset_tagged_parts:
  "\<exists>bare. preset_pages_tagged tag =
     tagged_head @ edn_escape_string bare @ tagged_middle @ edn_escape_string (''#'' @ bare) @ tagged_tail"
  unfolding preset_pages_tagged_def Let_def quoted_def tagged_head_def tagged_middle_def tagged_tail_def by auto

lemma scan_tagged_parts:
  "scan_text scan_start tagged_head = Some (inside ''{'')"
  "scan_text (inside ''{'') tagged_middle = Some (inside ''[{'')"
  "scan_text (inside ''[{'') tagged_tail = Some (outside [])"
  by code_simp+

lemma preset_tagged_balanced: "balanced_brackets (preset_pages_tagged tag)"
proof -
  obtain bare where p: "preset_pages_tagged tag =
     tagged_head @ edn_escape_string bare @ tagged_middle @ edn_escape_string (''#'' @ bare) @ tagged_tail"
    using preset_tagged_parts by blast
  show ?thesis
    unfolding balanced_scan p by (simp add: scan_text_append scan_tagged_parts scan_inside escape_inside del: append.simps)
qed

lemma preset_tagged_shape:
  "strip (preset_pages_tagged tag) = preset_pages_tagged tag" "contains (preset_pages_tagged tag) '':query''"
proof -
  have sp: "\<not> py_space (CHR ''{'')" "\<not> py_space (CHR ''}'')" by (simp_all add: py_space_def)
  show "strip (preset_pages_tagged tag) = preset_pages_tagged tag"
    using sp by (intro strip_id) (simp add: preset_pages_tagged_def Let_def)
  show "contains (preset_pages_tagged tag) '':query''"
    unfolding contains_iff preset_pages_tagged_def Let_def
    by (intro exI [of _ "''{:title '' @ quoted (''Blocks mentioning #'' @ edn_escape_string (strip (dropWhile (\<lambda>c. c = CHR ''#'') tag))) @ [LF] @
         '' :inputs ['' @ quoted (edn_escape_string (''#'' @ strip (dropWhile (\<lambda>c. c = CHR ''#'') tag))) @ '']'' @ [LF] @ '' ''"] exI) auto
qed

text \<open>
  C31. No preset can be broken by its argument: every query that a preset name and a tag give
  is accepted by the validator unchanged and is wrapped in the fences, whatever quotes,
  backslashes or brackets the tag holds.
\<close>

theorem preset_queries_valid:
  assumes "resolve_advanced_query_preset preset tag = Inr q"
  shows "wrap_logseq_advanced_query q = Inr (''#+BEGIN_QUERY'' @ [LF] @ q @ [LF] @ ''#+END_QUERY'')"
proof -
  have "validate_advanced_query_edn preset_open_markers = Inr preset_open_markers" by code_simp
  moreover have "validate_advanced_query_edn (preset_pages_tagged t) = Inr (preset_pages_tagged t)" for t
  proof -
    have "preset_pages_tagged t \<noteq> []" by (simp add: preset_pages_tagged_def Let_def)
    then show ?thesis
      by (simp add: validate_advanced_query_edn_def preset_tagged_shape preset_tagged_balanced)
  qed
  ultimately have "validate_advanced_query_edn q = Inr q"
    using assms by (auto simp: resolve_advanced_query_preset_def Let_def split: if_splits option.splits)
  then show ?thesis by (simp add: wrap_logseq_advanced_query_def)
qed

lemma preset_queries_valid_witness:
  "\<exists>q. resolve_advanced_query_preset ''tagged-pages'' (Some [DQ, CHR '']'']) = Inr q \<and>
     wrap_logseq_advanced_query q = Inr (''#+BEGIN_QUERY'' @ [LF] @ q @ [LF] @ ''#+END_QUERY'')"
proof -
  let ?r = "resolve_advanced_query_preset ''tagged-pages'' (Some [DQ, CHR '']''])"
  have "(case ?r of Inl _ \<Rightarrow> False | Inr _ \<Rightarrow> True)" by code_simp
  then obtain q where "?r = Inr q" by (auto split: sum.splits)
  then show ?thesis using preset_queries_valid by blast
qed

end
