(* ===== verification/SemCache.thy ===== *)
theory SemCache
  imports DaemonState
begin

section \<open>The cache of model answers\<close>

text \<open>
  Model of \<open>src/agent/plumber_modules/semantic_cache_router.py\<close>: answers of the language model kept
  in memory, in a bounded dictionary, and in one JSON file per entry under the graph root. The
  hash function is the parameter \<open>dg\<close>, from the text \<open>namespace:key\<close> to the hexadecimal digest;
  \<open>size_of\<close> is the length of \<open>json.dumps\<close> of a payload, \<open>fl\<close> reads a float in a string. The
  environment of a call (limits, clock, faults of the file system) is a record. The module
  lock is not reentrant: taking it twice in one thread never returns, which is an outcome of
  the model.
\<close>

subsection \<open>Limits\<close>

record router_env =
  rv_max_payload :: string
  rv_memory_entries :: string
  rv_ttl :: string
  rv_now :: rat
  rv_lock_fails :: bool
  rv_read_fails :: bool
  rv_write_fails :: bool

definition env_number :: "string \<Rightarrow> int \<Rightarrow> (int \<Rightarrow> int) \<Rightarrow> int" where
  "env_number raw dflt clamp =
     (if strip raw = [] then dflt
      else case int_of_text (strip raw) of None \<Rightarrow> dflt | Some n \<Rightarrow> clamp n)"

definition max_cache_payload_bytes :: "router_env \<Rightarrow> int" where
  "max_cache_payload_bytes ev = env_number (rv_max_payload ev) 262144 (\<lambda>n. max 4096 (min 2097152 n))"

definition memory_max_entries :: "router_env \<Rightarrow> int" where
  "memory_max_entries ev = env_number (rv_memory_entries ev) 512 (\<lambda>n. max 16 n)"

definition env_ttl :: "router_env \<Rightarrow> int" where
  "env_ttl ev = env_number (rv_ttl ev) 86400 (\<lambda>n. max 60 n)"

definition payload_within_limit :: "(obj \<Rightarrow> nat) \<Rightarrow> router_env \<Rightarrow> obj \<Rightarrow> bool" where
  "payload_within_limit size_of ev payload \<longleftrightarrow> int (size_of payload) \<le> max_cache_payload_bytes ev"

subsection \<open>State\<close>

text \<open>
  \<open>ro_memory\<close> is the ordered dictionary: digest to expiry time and payload, oldest first.
  \<open>ro_disk\<close> gives, for a graph root, the files of its cache directory by name.
\<close>

record router =
  ro_memory :: "(string \<times> rat \<times> obj) list"
  ro_disk :: "path \<Rightarrow> (string \<times> disk_file) list"

datatype 'a outcome = Done 'a | RaisedConv conv_error | RaisedPolicy policy_error | RaisedIo | SelfDeadlock

definition CACHE_DIRNAME :: string where
  "CACHE_DIRNAME = ''.matryca_semantic_cache''"

definition RESERVED_CACHE_JSON :: "string list" where
  "RESERVED_CACHE_JSON = [''master_catalog.json'', ''backlink_counts.json'', ''semantic_clusters.json'', ''block_vectors.json'']"

definition cache_digest :: "(string \<Rightarrow> string) \<Rightarrow> string \<Rightarrow> string \<Rightarrow> string" where
  "cache_digest dg namespace key = dg (namespace @ '':'' @ key)"

definition cache_file :: "string \<Rightarrow> string" where
  "cache_file digest = digest @ ''.json''"

definition memory_put :: "router_env \<Rightarrow> string \<Rightarrow> rat \<Rightarrow> obj \<Rightarrow> (string \<times> rat \<times> obj) list \<Rightarrow> (string \<times> rat \<times> obj) list" where
  "memory_put ev digest expires payload mem =
     (let m = AList.delete digest mem @ [(digest, expires, payload)]
      in drop (length m - nat (memory_max_entries ev)) m)"

text \<open>\<open>operation\<close>, the last two components of the page path, and its time stamp (0 when it has none).\<close>

definition semantic_cache_key :: "(int \<Rightarrow> string) \<Rightarrow> world \<Rightarrow> path \<Rightarrow> string \<Rightarrow> string" where
  "semantic_cache_key str_of w p operation =
     (let mtime_ns = (case stat_file w p of None \<Rightarrow> 0 | Some f \<Rightarrow> mtime f);
          parent = (case rev p of _ # d # _ \<Rightarrow> d | _ \<Rightarrow> []);
          rel = (if parent = [] then last p else parent @ ''/'' @ last p)
      in operation @ '':'' @ rel @ '':'' @ str_of mtime_ns)"

definition write_guard :: "world \<Rightarrow> path \<Rightarrow> path \<Rightarrow> policy_error + bool" where
  "write_guard w graph_root p =
     (case guard_graph_mutation (resolve w) (env_read_only w) graph_root p of
        Inr _ \<Rightarrow> Inr True
      | Inl (GraphReadOnlyError r) \<Rightarrow> Inr False
      | Inl e \<Rightarrow> Inl e)"

definition drop_file :: "path \<Rightarrow> string \<Rightarrow> router \<Rightarrow> router" where
  "drop_file groot name r = r\<lparr>ro_disk := (ro_disk r)(groot := AList.delete name (ro_disk r groot))\<rparr>"

text \<open>\<open>cache_evict\<close> for a caller that does not hold the module lock.\<close>

definition cache_evict ::
  "(string \<Rightarrow> string) \<Rightarrow> world \<Rightarrow> router_env \<Rightarrow> path \<Rightarrow> string \<Rightarrow> string \<Rightarrow> router \<Rightarrow> router \<times> unit outcome" where
  "cache_evict dg w ev groot namespace key r =
     (let digest = cache_digest dg namespace key
      in case write_guard w groot (groot @ [CACHE_DIRNAME, cache_file digest]) of
           Inl e \<Rightarrow> (r, RaisedPolicy e)
         | Inr False \<Rightarrow> (r, Done ())
         | Inr True \<Rightarrow>
             (let r1 = r\<lparr>ro_memory := AList.delete digest (ro_memory r)\<rparr>
              in (if rv_lock_fails ev then r1 else drop_file groot (cache_file digest) r1, Done ())))"

text \<open>The same call made while the module lock is held: it waits for itself.\<close>

definition cache_evict_locked :: "(string \<Rightarrow> string) \<Rightarrow> world \<Rightarrow> path \<Rightarrow> string \<Rightarrow> string \<Rightarrow> unit outcome" where
  "cache_evict_locked dg w groot namespace key =
     (case write_guard w groot (groot @ [CACHE_DIRNAME, cache_file (cache_digest dg namespace key)]) of
        Inl e \<Rightarrow> RaisedPolicy e
      | Inr False \<Rightarrow> Done ()
      | Inr True \<Rightarrow> SelfDeadlock)"

definition evict_then_miss ::
  "(string \<Rightarrow> string) \<Rightarrow> world \<Rightarrow> router_env \<Rightarrow> path \<Rightarrow> string \<Rightarrow> string \<Rightarrow> router \<Rightarrow> router \<times> obj option outcome" where
  "evict_then_miss dg w ev groot namespace key r =
     (case cache_evict dg w ev groot namespace key r of
        (r1, Done _) \<Rightarrow> (r1, Done None)
      | (r1, RaisedPolicy e) \<Rightarrow> (r1, RaisedPolicy e)
      | (r1, _) \<Rightarrow> (r1, RaisedIo))"

text \<open>The part of a lookup that reads the file.\<close>

definition get_from_disk ::
  "(string \<Rightarrow> string) \<Rightarrow> (obj \<Rightarrow> nat) \<Rightarrow> (string \<Rightarrow> rat option) \<Rightarrow> world \<Rightarrow> router_env \<Rightarrow> path \<Rightarrow> string \<Rightarrow> string \<Rightarrow>
   router \<Rightarrow> router \<times> obj option outcome" where
  "get_from_disk dg size_of fl w ev groot namespace key r =
     (let digest = cache_digest dg namespace key
      in case map_of (ro_disk r groot) (cache_file digest) of
           Some (Holds (JObj raw)) \<Rightarrow>
             (case write_guard w groot (groot @ [CACHE_DIRNAME, ''.'' @ cache_file digest @ ''.flock'']) of
                Inl e \<Rightarrow> (r, RaisedPolicy e)
              | Inr locks \<Rightarrow>
                  if (locks \<and> rv_lock_fails ev) \<or> rv_read_fails ev then (r, Done None)
                  else case py_float fl (jget raw ''created_at'' (JFloat 0)) of
                    Inl e \<Rightarrow> (r, RaisedConv e)
                  | Inr created \<Rightarrow>
                      (case py_int (jget raw ''ttl_seconds'' (JInt (env_ttl ev))) of
                         Inl e \<Rightarrow> (r, RaisedConv e)
                       | Inr node_ttl \<Rightarrow>
                           if of_int node_ttl < rv_now ev - created then evict_then_miss dg w ev groot namespace key r
                           else case jget raw ''payload'' JNull of
                                  JObj payload \<Rightarrow>
                                    if \<not> payload_within_limit size_of ev payload
                                    then evict_then_miss dg w ev groot namespace key r
                                    else (r\<lparr>ro_memory := memory_put ev digest (created + of_int node_ttl) payload (ro_memory r)\<rparr>,
                                          Done (Some payload))
                                | _ \<Rightarrow> (r, Done None)))
         | None \<Rightarrow> (r, Done None)
         | Some Missing \<Rightarrow> (r, Done None)
         | Some _ \<Rightarrow>
             (case write_guard w groot (groot @ [CACHE_DIRNAME, ''.'' @ cache_file digest @ ''.flock'']) of
                Inl e \<Rightarrow> (r, RaisedPolicy e)
              | Inr _ \<Rightarrow> (r, Done None)))"

definition cache_get ::
  "(string \<Rightarrow> string) \<Rightarrow> (obj \<Rightarrow> nat) \<Rightarrow> (string \<Rightarrow> rat option) \<Rightarrow> world \<Rightarrow> router_env \<Rightarrow> path \<Rightarrow> string \<Rightarrow> string \<Rightarrow>
   router \<Rightarrow> router \<times> obj option outcome" where
  "cache_get dg size_of fl w ev groot namespace key r =
     (let digest = cache_digest dg namespace key
      in case map_of (ro_memory r) digest of
           None \<Rightarrow> get_from_disk dg size_of fl w ev groot namespace key r
         | Some (expires, payload) \<Rightarrow>
             if rv_now ev \<le> expires then
               (if payload_within_limit size_of ev payload then (r, Done (Some payload))
                else (r, case cache_evict_locked dg w groot namespace key of
                           Done _ \<Rightarrow> Done None | RaisedPolicy e \<Rightarrow> RaisedPolicy e | _ \<Rightarrow> SelfDeadlock))
             else get_from_disk dg size_of fl w ev groot namespace key
                    (r\<lparr>ro_memory := AList.delete digest (ro_memory r)\<rparr>))"

definition envelope :: "string \<Rightarrow> string \<Rightarrow> rat \<Rightarrow> int \<Rightarrow> obj \<Rightarrow> obj" where
  "envelope namespace key created ttl payload =
     [(''namespace'', JStr namespace), (''cache_key'', JStr key), (''created_at'', JFloat created),
      (''ttl_seconds'', JInt ttl), (''payload'', JObj payload)]"

record cache_node =
  cn_namespace :: string
  cn_cache_key :: string
  cn_payload :: obj
  cn_created_at :: rat
  cn_ttl_seconds :: int

definition is_expired :: "rat \<Rightarrow> cache_node \<Rightarrow> bool" where
  "is_expired now node \<longleftrightarrow> of_int (cn_ttl_seconds node) < now - cn_created_at node"

definition cache_put ::
  "(string \<Rightarrow> string) \<Rightarrow> (obj \<Rightarrow> nat) \<Rightarrow> world \<Rightarrow> router_env \<Rightarrow> path \<Rightarrow> string \<Rightarrow> string \<Rightarrow> obj \<Rightarrow> int option \<Rightarrow>
   router \<Rightarrow> router \<times> cache_node option outcome" where
  "cache_put dg size_of w ev groot namespace key payload ttl_seconds r =
     (if \<not> payload_within_limit size_of ev payload then (r, Done None)
      else case write_guard w groot (groot @ [CACHE_DIRNAME]) of
        Inl e \<Rightarrow> (r, RaisedPolicy e)
      | Inr False \<Rightarrow> (r, Done None)
      | Inr True \<Rightarrow>
          (let ttl = (case ttl_seconds of None \<Rightarrow> env_ttl ev | Some t \<Rightarrow> t);
               now = rv_now ev; digest = cache_digest dg namespace key
           in if rv_lock_fails ev \<or> rv_write_fails ev then (r, RaisedIo)
              else (r\<lparr>ro_disk := (ro_disk r)(groot := AList.update (cache_file digest)
                         (Holds (JObj (envelope namespace key now ttl payload))) (ro_disk r groot)),
                      ro_memory := memory_put ev digest (now + of_int ttl) payload (ro_memory r)\<rparr>,
                    Done (Some \<lparr>cn_namespace = namespace, cn_cache_key = key, cn_payload = payload,
                                cn_created_at = now, cn_ttl_seconds = ttl\<rparr>))))"

text \<open>
  Reading a cached answer as a model: \<open>parse\<close> is the validation of the payload by the model
  class, \<open>None\<close> when it refuses; \<open>dump\<close> turns a model into a payload.
\<close>

definition validate_cached_model ::
  "(string \<Rightarrow> string) \<Rightarrow> (obj \<Rightarrow> nat) \<Rightarrow> (obj \<Rightarrow> 'm option) \<Rightarrow> world \<Rightarrow> router_env \<Rightarrow> path \<Rightarrow> string \<Rightarrow> string \<Rightarrow> obj \<Rightarrow>
   router \<Rightarrow> router \<times> 'm option outcome" where
  "validate_cached_model dg size_of parse w ev groot namespace key cached r =
     (case (if payload_within_limit size_of ev cached then parse cached else None) of
        Some m \<Rightarrow> (r, Done (Some m))
      | None \<Rightarrow>
          (case cache_evict dg w ev groot namespace key r of
             (r1, Done _) \<Rightarrow> (r1, Done None)
           | (r1, RaisedPolicy e) \<Rightarrow> (r1, RaisedPolicy e)
           | (r1, _) \<Rightarrow> (r1, RaisedIo)))"

text \<open>The value with whether it was a hit; an exception of a call ends the whole.\<close>

definition compute_and_put ::
  "(string \<Rightarrow> string) \<Rightarrow> (obj \<Rightarrow> nat) \<Rightarrow> ('m \<Rightarrow> obj) \<Rightarrow> world \<Rightarrow> router_env \<Rightarrow> path \<Rightarrow> string \<Rightarrow> string \<Rightarrow> 'm \<Rightarrow>
   router \<Rightarrow> router \<times> ('m \<times> bool) outcome" where
  "compute_and_put dg size_of dump w ev groot namespace key result r =
     (case cache_put dg size_of w ev groot namespace key (dump result) None r of
        (r1, Done _) \<Rightarrow> (r1, Done (result, False))
      | (r1, RaisedPolicy e) \<Rightarrow> (r1, RaisedPolicy e)
      | (r1, _) \<Rightarrow> (r1, RaisedIo))"

definition get_or_compute_model ::
  "(string \<Rightarrow> string) \<Rightarrow> (obj \<Rightarrow> nat) \<Rightarrow> (string \<Rightarrow> rat option) \<Rightarrow> (obj \<Rightarrow> 'm option) \<Rightarrow> ('m \<Rightarrow> obj) \<Rightarrow> world \<Rightarrow> router_env \<Rightarrow>
   path \<Rightarrow> string \<Rightarrow> string \<Rightarrow> 'm \<Rightarrow> router \<Rightarrow> router \<times> ('m \<times> bool) outcome" where
  "get_or_compute_model dg size_of fl parse dump w ev groot namespace key result r =
     (case cache_get dg size_of fl w ev groot namespace key r of
        (r1, Done None) \<Rightarrow> compute_and_put dg size_of dump w ev groot namespace key result r1
      | (r1, Done (Some cached)) \<Rightarrow>
          (case validate_cached_model dg size_of parse w ev groot namespace key cached r1 of
             (r2, Done (Some m)) \<Rightarrow> (r2, Done (m, True))
           | (r2, Done None) \<Rightarrow> compute_and_put dg size_of dump w ev groot namespace key result r2
           | (r2, RaisedPolicy e) \<Rightarrow> (r2, RaisedPolicy e)
           | (r2, _) \<Rightarrow> (r2, RaisedIo))
      | (r1, RaisedConv e) \<Rightarrow> (r1, RaisedConv e)
      | (r1, RaisedPolicy e) \<Rightarrow> (r1, RaisedPolicy e)
      | (r1, RaisedIo) \<Rightarrow> (r1, RaisedIo)
      | (r1, SelfDeadlock) \<Rightarrow> (r1, SelfDeadlock))"

text \<open>Whether the purge removes a file of the cache directory.\<close>

definition purge_removes :: "(string \<Rightarrow> rat option) \<Rightarrow> router_env \<Rightarrow> string \<times> disk_file \<Rightarrow> bool" where
  "purge_removes fl ev nf \<longleftrightarrow>
     endswith (fst nf) ''.json'' \<and> fst nf \<notin> set RESERVED_CACHE_JSON \<and> \<not> rv_lock_fails ev \<and>
     (case snd nf of
        Missing \<Rightarrow> False
      | Garbled \<Rightarrow> True
      | Holds j \<Rightarrow>
          rv_read_fails ev \<or>
          (case j of
             JObj raw \<Rightarrow>
               map_of raw ''payload'' \<noteq> None \<and> map_of raw ''namespace'' \<noteq> None \<and>
               (case (py_float fl (jget raw ''created_at'' (JFloat 0)), py_int (jget raw ''ttl_seconds'' (JInt (env_ttl ev)))) of
                  (Inr created, Inr ttl) \<Rightarrow> of_int ttl < rv_now ev - created
                | _ \<Rightarrow> True)
           | _ \<Rightarrow> True))"

definition purge_expired_semantic_cache ::
  "(string \<Rightarrow> rat option) \<Rightarrow> world \<Rightarrow> router_env \<Rightarrow> path \<Rightarrow> router \<Rightarrow> router \<times> nat outcome" where
  "purge_expired_semantic_cache fl w ev groot r =
     (case write_guard w groot (groot @ [CACHE_DIRNAME]) of
        Inl e \<Rightarrow> (r, RaisedPolicy e)
      | Inr False \<Rightarrow> (r, Done 0)
      | Inr True \<Rightarrow>
          (r\<lparr>ro_disk := (ro_disk r)(groot := filter (\<lambda>nf. \<not> purge_removes fl ev nf) (ro_disk r groot))\<rparr>,
           Done (length (filter (purge_removes fl ev) (ro_disk r groot)))))"

definition clear_semantic_cache_memory :: "router \<Rightarrow> router" where
  "clear_semantic_cache_memory r = r\<lparr>ro_memory := []\<rparr>"

definition clear_semantic_cache :: "world \<Rightarrow> path option \<Rightarrow> router \<Rightarrow> router \<times> unit outcome" where
  "clear_semantic_cache w graph_root r =
     (case graph_root of
        None \<Rightarrow> (clear_semantic_cache_memory r, Done ())
      | Some groot \<Rightarrow>
          (case write_guard w groot (groot @ [CACHE_DIRNAME]) of
             Inl e \<Rightarrow> (r, RaisedPolicy e)
           | Inr False \<Rightarrow> (r, Done ())
           | Inr True \<Rightarrow>
               (let r1 = clear_semantic_cache_memory r
                in (r1\<lparr>ro_disk := (ro_disk r1)(groot := filter (\<lambda>nf. \<not> endswith (fst nf) ''.json'' \<or> fst nf \<in> set RESERVED_CACHE_JSON)
                       (ro_disk r1 groot))\<rparr>, Done ()))))"

subsection \<open>Runs\<close>

text \<open>The operations of one process on its cache, each with the environment it runs in.\<close>

datatype router_op =
    OpGet path string string
  | OpPut path string string obj "int option"
  | OpEvict path string string
  | OpPurge path
  | OpClear "path option"

fun run_router_op ::
  "(string \<Rightarrow> string) \<Rightarrow> (obj \<Rightarrow> nat) \<Rightarrow> (string \<Rightarrow> rat option) \<Rightarrow> world \<Rightarrow> router_env \<times> router_op \<Rightarrow> router \<Rightarrow> router" where
  "run_router_op dg size_of fl w (ev, OpGet groot ns key) r = fst (cache_get dg size_of fl w ev groot ns key r)"
| "run_router_op dg size_of fl w (ev, OpPut groot ns key payload ttl) r = fst (cache_put dg size_of w ev groot ns key payload ttl r)"
| "run_router_op dg size_of fl w (ev, OpEvict groot ns key) r = fst (cache_evict dg w ev groot ns key r)"
| "run_router_op dg size_of fl w (ev, OpPurge groot) r = fst (purge_expired_semantic_cache fl w ev groot r)"
| "run_router_op dg size_of fl w (ev, OpClear groot) r = fst (clear_semantic_cache w groot r)"

definition empty_router :: router where
  "empty_router = \<lparr>ro_memory = [], ro_disk = (\<lambda>_. [])\<rparr>"

definition run_router ::
  "(string \<Rightarrow> string) \<Rightarrow> (obj \<Rightarrow> nat) \<Rightarrow> (string \<Rightarrow> rat option) \<Rightarrow> world \<Rightarrow> (router_env \<times> router_op) list \<Rightarrow> router" where
  "run_router dg size_of fl w ops = fold (run_router_op dg size_of fl w) ops empty_router"

text \<open>What a run has put: the graph root, the digest, the expiry time and the payload.\<close>

fun put_of :: "(string \<Rightarrow> string) \<Rightarrow> router_env \<times> router_op \<Rightarrow> (path \<times> string \<times> rat \<times> obj) set" where
  "put_of dg (ev, OpPut groot ns key payload ttl) =
     {(groot, cache_digest dg ns key, rv_now ev + of_int (case ttl of None \<Rightarrow> env_ttl ev | Some t \<Rightarrow> t), payload)}"
| "put_of dg _ = {}"

definition puts_of :: "(string \<Rightarrow> string) \<Rightarrow> (router_env \<times> router_op) list \<Rightarrow> (path \<times> string \<times> rat \<times> obj) set" where
  "puts_of dg ops = (\<Union>eo \<in> set ops. put_of dg eo)"

text \<open>
  The invariant: the memory holds at most its bound of distinct digests, and memory and disk
  hold only what was put.
\<close>

definition memory_entry_ok :: "(path \<times> string \<times> rat \<times> obj) set \<Rightarrow> string \<times> rat \<times> obj \<Rightarrow> bool" where
  "memory_entry_ok L m \<longleftrightarrow> (\<exists>groot. (groot, m) \<in> L)"

definition file_entry_ok :: "(path \<times> string \<times> rat \<times> obj) set \<Rightarrow> path \<Rightarrow> string \<times> disk_file \<Rightarrow> bool" where
  "file_entry_ok L groot nf \<longleftrightarrow>
     (\<exists>d ns key created ttl p. nf = (cache_file d, Holds (JObj (envelope ns key created ttl p))) \<and>
        (groot, d, created + of_int ttl, p) \<in> L)"

definition router_inv :: "(path \<times> string \<times> rat \<times> obj) set \<Rightarrow> router \<Rightarrow> bool" where
  "router_inv L r \<longleftrightarrow> distinct (map fst (ro_memory r)) \<and> list_all (memory_entry_ok L) (ro_memory r) \<and>
     (\<forall>groot. list_all (file_entry_ok L groot) (ro_disk r groot))"

lemma memory_put_mem: "x \<in> set (memory_put ev d e p mem) \<Longrightarrow> x = (d, e, p) \<or> x \<in> set mem"
  by (auto simp: memory_put_def Let_def AList.delete_eq dest!: in_set_dropD)

lemma memory_put_distinct: "distinct (map fst mem) \<Longrightarrow> distinct (map fst (memory_put ev d e p mem))"
proof -
  assume m: "distinct (map fst mem)"
  have "distinct (map fst (AList.delete d mem @ [(d, e, p)]))"
    using m by (simp add: distinct_delete) (auto simp: AList.delete_eq)
  then show ?thesis unfolding memory_put_def Let_def drop_map [symmetric] by (rule distinct_drop)
qed

lemma memory_max_pos: "16 \<le> memory_max_entries ev"
  by (auto simp: memory_max_entries_def env_number_def split: option.splits)

lemma memory_put_bound: "length (memory_put ev d e p mem) \<le> nat (memory_max_entries ev)"
  by (simp add: memory_put_def Let_def)

lemma memory_put_last: "\<exists>m. memory_put ev d e p mem = m @ [(d, e, p)]"
proof -
  have "0 < nat (memory_max_entries ev)" using memory_max_pos [of ev] by simp
  then show ?thesis by (simp add: memory_put_def Let_def)
qed

lemma router_inv_mono: "router_inv L r \<Longrightarrow> L \<subseteq> L' \<Longrightarrow> router_inv L' r"
proof -
  assume r: "router_inv L r" and s: "L \<subseteq> L'"
  have "memory_entry_ok L m \<Longrightarrow> memory_entry_ok L' m" "file_entry_ok L g nf \<Longrightarrow> file_entry_ok L' g nf" for m g nf
    using s unfolding memory_entry_ok_def file_entry_ok_def by blast+
  then show ?thesis using r by (auto simp: router_inv_def intro: list.pred_mono_strong)
qed

lemma list_all_delete: "list_all P xs \<Longrightarrow> list_all P (AList.delete k xs)"
  by (auto simp: AList.delete_eq list_all_iff)

lemma list_all_update: "list_all P xs \<Longrightarrow> P (k, v) \<Longrightarrow> list_all P (AList.update k v xs)"
  by (induction xs) auto

lemma list_all_filter: "list_all P xs \<Longrightarrow> list_all P (filter q xs)"
  by (auto simp: list_all_iff)

lemma router_inv_forget:
  "router_inv L r \<Longrightarrow> router_inv L (r\<lparr>ro_memory := AList.delete d (ro_memory r)\<rparr>)"
  by (simp add: router_inv_def distinct_delete list_all_delete)

lemma router_inv_files:
  "router_inv L r \<Longrightarrow> list_all (file_entry_ok L groot) fs \<Longrightarrow> router_inv L (r\<lparr>ro_disk := (ro_disk r)(groot := fs)\<rparr>)"
  by (simp add: router_inv_def)

lemma router_inv_disk: "router_inv L r \<Longrightarrow> list_all (file_entry_ok L groot) (ro_disk r groot)"
  by (simp add: router_inv_def)

lemma router_inv_remember:
  "router_inv L r \<Longrightarrow> (groot, d, e, p) \<in> L \<Longrightarrow> router_inv L (r\<lparr>ro_memory := memory_put ev d e p (ro_memory r)\<rparr>)"
  by (auto simp: router_inv_def memory_put_distinct memory_entry_ok_def list_all_iff dest!: memory_put_mem)

lemma router_inv_evict: "router_inv L r \<Longrightarrow> router_inv L (fst (cache_evict dg w ev groot ns key r))"
proof -
  assume i: "router_inv L r"
  let ?d = "cache_digest dg ns key"
  let ?r = "r\<lparr>ro_memory := AList.delete ?d (ro_memory r)\<rparr>"
  have m: "router_inv L ?r" using i by (rule router_inv_forget)
  have "router_inv L (drop_file groot (cache_file ?d) ?r)"
    unfolding drop_file_def using m router_inv_disk [OF m] by (intro router_inv_files list_all_delete)
  then show ?thesis using i m
    by (simp add: cache_evict_def Let_def split: sum.splits bool.splits)
qed

lemma router_inv_evict_miss: "router_inv L r \<Longrightarrow> router_inv L (fst (evict_then_miss dg w ev groot ns key r))"
  using router_inv_evict [of L r dg w ev groot ns key]
  by (auto simp: evict_then_miss_def split: prod.splits outcome.splits)

lemma envelope_fields [simp]:
  "jget (envelope ns key created ttl p) ''created_at'' v = JFloat created"
  "jget (envelope ns key created ttl p) ''ttl_seconds'' v = JInt ttl"
  "jget (envelope ns key created ttl p) ''payload'' v = JObj p"
  by (simp_all add: envelope_def jget_def)

lemma cache_file_inj [simp]: "cache_file a = cache_file b \<longleftrightarrow> a = b"
  by (simp add: cache_file_def)

text \<open>What a lookup on disk gives, under the invariant.\<close>

lemma get_from_disk_hit:
  assumes "router_inv L r" "get_from_disk dg size_of fl w ev groot ns key r = (r', Done (Some p))"
  shows "\<exists>e. (groot, cache_digest dg ns key, e, p) \<in> L \<and> rv_now ev \<le> e \<and> payload_within_limit size_of ev p \<and>
     r' = r\<lparr>ro_memory := memory_put ev (cache_digest dg ns key) e p (ro_memory r)\<rparr>"
proof -
  let ?d = "cache_digest dg ns key"
  have no: "evict_then_miss dg w ev groot ns key r \<noteq> (r', Done (Some p))"
    by (auto simp: evict_then_miss_def split: prod.splits outcome.splits)
  obtain raw where raw: "map_of (ro_disk r groot) (cache_file ?d) = Some (Holds (JObj raw))"
    using assms(2) by (auto simp: get_from_disk_def Let_def split: option.splits disk_file.splits json.splits sum.splits)
  then have "(cache_file ?d, Holds (JObj raw)) \<in> set (ro_disk r groot)" by (rule map_of_SomeD)
  then have "file_entry_ok L groot (cache_file ?d, Holds (JObj raw))"
    using router_inv_disk [OF assms(1), of groot] by (simp add: list_all_iff)
  then obtain ns' key' created ttl p' where e: "raw = envelope ns' key' created ttl p'"
    "(groot, ?d, created + of_int ttl, p') \<in> L"
    by (auto simp: file_entry_ok_def)
  then show ?thesis
    using assms(2) no raw
    by (auto simp: get_from_disk_def Let_def split: sum.splits if_splits)
qed

lemma router_inv_get_disk:
  "router_inv L r \<Longrightarrow> router_inv L (fst (get_from_disk dg size_of fl w ev groot ns key r))"
proof -
  assume i: "router_inv L r"
  obtain r' res where g: "get_from_disk dg size_of fl w ev groot ns key r = (r', res)" by fastforce
  show ?thesis
  proof (cases "\<exists>p. res = Done (Some p)")
    case True
    then show ?thesis using get_from_disk_hit [OF i] g router_inv_remember [OF i] by fastforce
  next
    case False
    then have "r' = r \<or> r' = fst (evict_then_miss dg w ev groot ns key r)"
      using g by (auto simp: get_from_disk_def Let_def split: option.splits disk_file.splits json.splits sum.splits if_splits)
    then show ?thesis using i router_inv_evict_miss g by fastforce
  qed
qed

lemma router_inv_get: "router_inv L r \<Longrightarrow> router_inv L (fst (cache_get dg size_of fl w ev groot ns key r))"
  using router_inv_get_disk router_inv_forget
  by (auto simp: cache_get_def Let_def split: option.splits)

lemma router_inv_put:
  assumes "router_inv L r"
  shows "router_inv (insert (groot, cache_digest dg ns key, rv_now ev + of_int (case ttl of None \<Rightarrow> env_ttl ev | Some t \<Rightarrow> t), payload) L)
     (fst (cache_put dg size_of w ev groot ns key payload ttl r))"
proof -
  let ?d = "cache_digest dg ns key" and ?t = "case ttl of None \<Rightarrow> env_ttl ev | Some t \<Rightarrow> t"
  let ?L = "insert (groot, ?d, rv_now ev + of_int ?t, payload) L"
  let ?x = "Holds (JObj (envelope ns key (rv_now ev) ?t payload))"
  let ?r = "r\<lparr>ro_disk := (ro_disk r)(groot := AList.update (cache_file ?d) ?x (ro_disk r groot))\<rparr>"
  have i: "router_inv ?L r" using assms by (rule router_inv_mono) auto
  have x: "file_entry_ok ?L groot (cache_file ?d, ?x)" unfolding file_entry_ok_def by blast
  have "router_inv ?L ?r" using i router_inv_disk [OF i, of groot] x by (intro router_inv_files list_all_update)
  then have "router_inv ?L (?r\<lparr>ro_memory := memory_put ev ?d (rv_now ev + of_int ?t) payload (ro_memory ?r)\<rparr>)"
    by (rule router_inv_remember [where groot = groot]) simp
  then show ?thesis using i
    by (simp add: cache_put_def Let_def split: sum.splits bool.splits)
qed

lemma router_inv_op: "router_inv L r \<Longrightarrow> router_inv (L \<union> put_of dg eo) (run_router_op dg size_of fl w eo r)"
proof (induction dg size_of fl w eo r rule: run_router_op.induct)
  case (1 dg size_of fl w ev groot ns key r)
  then show ?case by (simp add: router_inv_get)
next
  case (2 dg size_of fl w ev groot ns key payload ttl r)
  then show ?case using router_inv_put [of L r groot dg ns key ev ttl payload size_of w] by simp
next
  case (3 dg size_of fl w ev groot ns key r)
  then show ?case by (simp add: router_inv_evict)
next
  case (4 dg size_of fl w ev groot r)
  have "router_inv L (r\<lparr>ro_disk := (ro_disk r)(groot := filter (\<lambda>nf. \<not> purge_removes fl ev nf) (ro_disk r groot))\<rparr>)"
    using 4 router_inv_disk [OF 4] by (intro router_inv_files list_all_filter)
  then show ?case using 4 by (simp add: purge_expired_semantic_cache_def split: sum.splits bool.splits)
next
  case (5 dg size_of fl w ev groot r)
  have c: "router_inv L (r\<lparr>ro_memory := []\<rparr>)" using 5 by (simp add: router_inv_def)
  have "router_inv L ((r\<lparr>ro_memory := []\<rparr>)\<lparr>ro_disk := (ro_disk (r\<lparr>ro_memory := []\<rparr>))(g := filter q (ro_disk (r\<lparr>ro_memory := []\<rparr>) g))\<rparr>)" for g q
    using c router_inv_disk [OF c] by (intro router_inv_files list_all_filter)
  then show ?case using 5 c
    by (simp add: clear_semantic_cache_def clear_semantic_cache_memory_def Let_def split: option.splits sum.splits bool.splits)
qed

lemma router_inv_run: "router_inv (puts_of dg ops) (run_router dg size_of fl w ops)"
proof (induction ops rule: rev_induct)
  case Nil
  then show ?case by (simp add: run_router_def empty_router_def router_inv_def)
next
  case (snoc eo ops)
  then show ?case using router_inv_op [OF snoc, of dg eo size_of fl w]
    by (simp add: run_router_def puts_of_def Un_commute)
qed

text \<open>
  C32. The cache invents nothing and keeps nothing too long. After any operations of a process
  on its cache, for any hash function, what a lookup returns is a payload that was put under
  the same digest and has not expired, and it is within the size limit of the lookup.
\<close>

theorem cache_hit_was_put:
  assumes "cache_get dg size_of fl w ev groot ns key (run_router dg size_of fl w ops) = (r', Done (Some p))"
  shows "\<exists>root' expires. (root', cache_digest dg ns key, expires, p) \<in> puts_of dg ops \<and> rv_now ev \<le> expires \<and>
     payload_within_limit size_of ev p"
proof -
  let ?r = "run_router dg size_of fl w ops" and ?d = "cache_digest dg ns key"
  have i: "router_inv (puts_of dg ops) ?r" by (rule router_inv_run)
  have disk: "\<exists>root' e. (root', ?d, e, p) \<in> puts_of dg ops \<and> rv_now ev \<le> e \<and> payload_within_limit size_of ev p"
    if "router_inv (puts_of dg ops) r0" "get_from_disk dg size_of fl w ev groot ns key r0 = (r', Done (Some p))" for r0
    using get_from_disk_hit [OF that] by blast
  show ?thesis
  proof (cases "map_of (ro_memory ?r) ?d")
    case None
    then show ?thesis using assms disk [OF i] by (simp add: cache_get_def Let_def)
  next
    case (Some m)
    obtain e q where m: "m = (e, q)" by (cases m)
    show ?thesis
    proof (cases "rv_now ev \<le> e")
      case True
      then have "q = p" "payload_within_limit size_of ev p"
        using assms Some m by (auto simp: cache_get_def Let_def split: if_splits outcome.splits)
      moreover have "memory_entry_ok (puts_of dg ops) (?d, e, q)"
        using map_of_SomeD [OF Some] i m by (simp add: router_inv_def list_all_iff)
      ultimately show ?thesis using True by (auto simp: memory_entry_ok_def)
    next
      case False
      then show ?thesis using assms Some m disk [OF router_inv_forget [OF i, of ?d]]
        by (simp add: cache_get_def Let_def)
    qed
  qed
qed

text \<open>What a lookup gives when the memory has a live entry that is small enough.\<close>

lemma cache_get_memory:
  "map_of (ro_memory r) (cache_digest dg ns key) = Some (e, p) \<Longrightarrow> rv_now ev \<le> e \<Longrightarrow> payload_within_limit size_of ev p \<Longrightarrow>
     cache_get dg size_of fl w ev groot ns key r = (r, Done (Some p))"
  by (simp add: cache_get_def Let_def)

subsection \<open>Bounds\<close>

definition memory_fits :: "(obj \<Rightarrow> nat) \<Rightarrow> nat \<Rightarrow> int \<Rightarrow> router \<Rightarrow> bool" where
  "memory_fits size_of n lmt r \<longleftrightarrow>
     length (ro_memory r) \<le> n \<and> list_all (\<lambda>m. int (size_of (snd (snd m))) \<le> lmt) (ro_memory r)"

lemma length_delete: "length (AList.delete k xs) \<le> length xs"
  by (simp add: AList.delete_eq)

lemma fits_forget: "memory_fits size_of n lmt r \<Longrightarrow> memory_fits size_of n lmt (r\<lparr>ro_memory := AList.delete d (ro_memory r)\<rparr>)"
  using length_delete [of d "ro_memory r"] by (simp add: memory_fits_def list_all_delete)

lemma fits_disk [simp]: "memory_fits size_of n lmt (r\<lparr>ro_disk := x\<rparr>) = memory_fits size_of n lmt r"
  by (simp add: memory_fits_def)

lemma fits_remember:
  "memory_fits size_of n lmt r \<Longrightarrow> nat (memory_max_entries ev) = n \<Longrightarrow> int (size_of p) \<le> lmt \<Longrightarrow>
     memory_fits size_of n lmt (r\<lparr>ro_memory := memory_put ev d e p (ro_memory r)\<rparr>)"
  using memory_put_bound [of ev d e p "ro_memory r"]
  by (auto simp: memory_fits_def list_all_iff dest!: memory_put_mem)

lemma fits_evict: "memory_fits size_of n lmt r \<Longrightarrow> memory_fits size_of n lmt (fst (cache_evict dg w ev groot ns key r))"
  using fits_forget [of size_of n lmt r "cache_digest dg ns key"]
  by (simp add: cache_evict_def drop_file_def Let_def split: sum.splits bool.splits)

lemma fits_evict_miss: "memory_fits size_of n lmt r \<Longrightarrow> memory_fits size_of n lmt (fst (evict_then_miss dg w ev groot ns key r))"
  using fits_evict [of size_of n lmt r dg w ev groot ns key]
  by (auto simp: evict_then_miss_def split: prod.splits outcome.splits)

definition limits_are :: "nat \<Rightarrow> int \<Rightarrow> router_env \<Rightarrow> bool" where
  "limits_are n lmt ev \<longleftrightarrow> nat (memory_max_entries ev) = n \<and> max_cache_payload_bytes ev = lmt"

lemma fits_get_disk:
  "memory_fits size_of n lmt r \<Longrightarrow> limits_are n lmt ev \<Longrightarrow>
     memory_fits size_of n lmt (fst (get_from_disk dg size_of fl w ev groot ns key r))"
  using fits_evict_miss [of size_of n lmt r dg w ev groot ns key]
  by (auto simp: get_from_disk_def Let_def limits_are_def payload_within_limit_def intro: fits_remember
      split: option.splits disk_file.splits json.splits sum.splits)

lemma fits_op: "memory_fits size_of n lmt r \<Longrightarrow> limits_are n lmt (fst eo) \<Longrightarrow> memory_fits size_of n lmt (run_router_op dg size_of fl w eo r)"
proof (induction dg size_of fl w eo r rule: run_router_op.induct)
  case (1 dg size_of fl w ev groot ns key r)
  then show ?case using fits_get_disk fits_forget by (auto simp: cache_get_def Let_def split: option.splits)
next
  case (2 dg size_of fl w ev groot ns key payload ttl r)
  let ?r = "r\<lparr>ro_disk := (ro_disk r)(groot := AList.update (cache_file (cache_digest dg ns key))
     (Holds (JObj (envelope ns key (rv_now ev) (case ttl of None \<Rightarrow> env_ttl ev | Some t \<Rightarrow> t) payload))) (ro_disk r groot))\<rparr>"
  show ?case using 2 fits_remember [of size_of n lmt ?r ev payload]
    by (simp add: cache_put_def Let_def limits_are_def payload_within_limit_def split: sum.splits bool.splits)
next
  case (3 dg size_of fl w ev groot ns key r)
  then show ?case by (simp add: fits_evict)
next
  case (4 dg size_of fl w ev groot r)
  then show ?case by (simp add: purge_expired_semantic_cache_def split: sum.splits bool.splits)
next
  case (5 dg size_of fl w ev groot r)
  have "memory_fits size_of n lmt (r\<lparr>ro_memory := []\<rparr>)" by (simp add: memory_fits_def)
  then show ?case using 5
    by (simp add: clear_semantic_cache_def clear_semantic_cache_memory_def Let_def split: option.splits sum.splits bool.splits)
qed

lemma fits_run: "(\<And>eo. eo \<in> set ops \<Longrightarrow> limits_are n lmt (fst eo)) \<Longrightarrow> memory_fits size_of n lmt (run_router dg size_of fl w ops)"
proof (induction ops rule: rev_induct)
  case Nil
  then show ?case by (simp add: run_router_def empty_router_def memory_fits_def)
next
  case (snoc eo ops)
  then show ?case using fits_op [of size_of n lmt _ eo dg fl w] by (simp add: run_router_def)
qed

lemma evict_miss_no_deadlock: "snd (evict_then_miss dg w ev groot ns key r) \<noteq> SelfDeadlock"
  by (auto simp: evict_then_miss_def split: prod.splits outcome.splits)

lemma disk_no_deadlock: "snd (get_from_disk dg size_of fl w ev groot ns key r) \<noteq> SelfDeadlock"
  using evict_miss_no_deadlock
  by (auto simp: get_from_disk_def Let_def split: option.splits disk_file.splits json.splits sum.splits)

text \<open>
  C34. While the limits of the environment stay the same, the memory of the cache never holds
  more entries than its bound, and a lookup never waits for itself: it does not reach the
  eviction that takes the module lock a second time.
\<close>

theorem cache_bounded_and_returns:
  assumes "\<And>eo. eo \<in> set ops \<Longrightarrow> limits_are n lmt (fst eo)" "limits_are n lmt ev"
  shows "length (ro_memory (run_router dg size_of fl w ops)) \<le> n \<and>
     snd (cache_get dg size_of fl w ev groot ns key (run_router dg size_of fl w ops)) \<noteq> SelfDeadlock"
proof -
  let ?r = "run_router dg size_of fl w ops"
  have f: "memory_fits size_of n lmt ?r" using assms(1) by (rule fits_run)
  have "payload_within_limit size_of ev p" if "map_of (ro_memory ?r) d = Some (e, p)" for d e p
    using map_of_SomeD [OF that] f assms(2)
    by (auto simp: memory_fits_def list_all_iff payload_within_limit_def limits_are_def)
  then show ?thesis
    using f disk_no_deadlock
    by (auto simp: memory_fits_def cache_get_def Let_def split: option.splits)
qed

lemma write_guard_total: "write_guard w groot p = Inr b \<Longrightarrow> \<exists>b'. write_guard w groot q = Inr b'"
  by (auto simp: write_guard_def guard_graph_mutation_def make_policy_def ensure_write_allowed_def
      split: sum.splits bool.splits option.splits policy_error.splits if_splits)

lemma map_of_last: "d \<notin> fst ` set m \<Longrightarrow> map_of (m @ [(d, x)]) d = Some x"
  by (induction m) auto

text \<open>
  C33. What was put is found again. After a successful put, a lookup with the same namespace
  and key, under the same limits and before the entry expires, gives the payload, whatever
  the hash function and whatever the cache held; and so does a lookup in a process that
  starts with an empty memory and reads the file.
\<close>

theorem cache_put_then_get:
  assumes "cache_put dg size_of w ev groot ns key payload ttl r = (r1, Done (Some node))"
    and "distinct (map fst (ro_memory r))" "limits_are n lmt ev" "limits_are n lmt ev'"
    and "\<not> is_expired (rv_now ev') node" "\<not> rv_lock_fails ev'" "\<not> rv_read_fails ev'"
  shows "cache_get dg size_of fl w ev' groot ns key r1 = (r1, Done (Some payload)) \<and>
     snd (cache_get dg size_of fl w ev' groot ns key (clear_semantic_cache_memory r1)) = Done (Some payload)"
proof -
  let ?d = "cache_digest dg ns key" and ?t = "case ttl of None \<Rightarrow> env_ttl ev | Some t \<Rightarrow> t"
  have g: "write_guard w groot (groot @ [CACHE_DIRNAME]) = Inr True"
    and size: "payload_within_limit size_of ev payload"
    and r1: "r1 = r\<lparr>ro_disk := (ro_disk r)(groot := AList.update (cache_file ?d)
                         (Holds (JObj (envelope ns key (rv_now ev) ?t payload))) (ro_disk r groot)),
                      ro_memory := memory_put ev ?d (rv_now ev + of_int ?t) payload (ro_memory r)\<rparr>"
    and node: "cn_created_at node = rv_now ev" "cn_ttl_seconds node = ?t"
    using assms(1) by (auto simp: cache_put_def Let_def split: if_splits sum.splits bool.splits)
  have size': "payload_within_limit size_of ev' payload"
    using size assms(3,4) by (simp add: payload_within_limit_def limits_are_def)
  have live: "\<not> of_int ?t < rv_now ev' - rv_now ev" using assms(5) node by (simp add: is_expired_def)
  obtain m where m: "memory_put ev ?d (rv_now ev + of_int ?t) payload (ro_memory r) = m @ [(?d, rv_now ev + of_int ?t, payload)]"
    using memory_put_last by metis
  have "distinct (map fst (m @ [(?d, rv_now ev + of_int ?t, payload)]))"
    using memory_put_distinct [OF assms(2)] m by metis
  then have "?d \<notin> fst ` set m" by auto
  then have "map_of (ro_memory r1) ?d = Some (rv_now ev + of_int ?t, payload)"
    using map_of_last [of ?d m "(rv_now ev + of_int ?t, payload)"] by (simp add: r1 m)
  then have 1: "cache_get dg size_of fl w ev' groot ns key r1 = (r1, Done (Some payload))"
    using live size' by (intro cache_get_memory) auto
  obtain locks where l: "write_guard w groot (groot @ [CACHE_DIRNAME, ''.'' @ cache_file ?d @ ''.flock'']) = Inr locks"
    using write_guard_total [OF g] by metis
  have "map_of (ro_disk (clear_semantic_cache_memory r1) groot) (cache_file ?d) = Some (Holds (JObj (envelope ns key (rv_now ev) ?t payload)))"
    by (simp add: r1 clear_semantic_cache_memory_def update_conv')
  then have "snd (get_from_disk dg size_of fl w ev' groot ns key (clear_semantic_cache_memory r1)) = Done (Some payload)"
    using l live size' assms(6,7) by (simp add: get_from_disk_def Let_def)
  then have 2: "snd (cache_get dg size_of fl w ev' groot ns key (clear_semantic_cache_memory r1)) = Done (Some payload)"
    by (simp add: cache_get_def Let_def clear_semantic_cache_memory_def)
  show ?thesis using 1 2 by blast
qed

subsection \<open>Concrete runs\<close>

definition calm_env :: "string \<Rightarrow> rat \<Rightarrow> router_env" where
  "calm_env limit now = \<lparr>rv_max_payload = limit, rv_memory_entries = [], rv_ttl = [], rv_now = now,
     rv_lock_fails = False, rv_read_fails = False, rv_write_fails = False\<rparr>"

definition answer :: obj where
  "answer = [(''summary'', JStr ''s'')]"

lemma calm_limits: "limits_are 512 262144 (calm_env [] now)"
  by (simp add: limits_are_def calm_env_def memory_max_entries_def max_cache_payload_bytes_def env_number_def)

definition one_put :: "(router_env \<times> router_op) list" where
  "one_put = [(calm_env [] 100, OpPut [''g''] ''index'' ''k'' answer None)]"

lemma cache_hit_was_put_witness:
  "\<exists>r' p. cache_get id length (\<lambda>_. None) (example_world [] '''') (calm_env [] 200) [''g''] ''index'' ''k''
       (run_router id length (\<lambda>_. None) (example_world [] '''') one_put) = (r', Done (Some p)) \<and>
     (\<exists>root' expires. (root', cache_digest id ''index'' ''k'', expires, p) \<in> puts_of id one_put \<and> 200 \<le> expires)"
proof -
  let ?g = "cache_get id length (\<lambda>_. None) (example_world [] '''') (calm_env [] 200) [''g''] ''index'' ''k''
       (run_router id length (\<lambda>_. None) (example_world [] '''') one_put)"
  have "(case snd ?g of Done (Some _) \<Rightarrow> True | _ \<Rightarrow> False)" by code_simp
  then obtain r' p where g: "?g = (r', Done (Some p))"
    by (cases ?g) (auto split: outcome.splits option.splits)
  show ?thesis using cache_hit_was_put [OF g] g by (auto simp: calm_env_def)
qed

lemma cache_bounded_and_returns_witness:
  "length (ro_memory (run_router id length (\<lambda>_. None) (example_world [] '''') one_put)) \<le> 512 \<and>
     snd (cache_get id length (\<lambda>_. None) (example_world [] '''') (calm_env [] 200) [''g''] ''index'' ''k''
       (run_router id length (\<lambda>_. None) (example_world [] '''') one_put)) \<noteq> SelfDeadlock"
  by (rule cache_bounded_and_returns [OF _ calm_limits]) (auto simp: one_put_def intro: calm_limits)

lemma cache_put_then_get_witness:
  "\<exists>r1 node. cache_put id length (example_world [] '''') (calm_env [] 100) [''g''] ''index'' ''k'' answer None empty_router = (r1, Done (Some node)) \<and>
     cache_get id length (\<lambda>_. None) (example_world [] '''') (calm_env [] 200) [''g''] ''index'' ''k'' r1 = (r1, Done (Some answer))"
proof -
  let ?p = "cache_put id length (example_world [] '''') (calm_env [] 100) [''g''] ''index'' ''k'' answer None empty_router"
  have "(case snd ?p of Done (Some node) \<Rightarrow> \<not> is_expired 200 node | _ \<Rightarrow> False)" by code_simp
  then obtain r1 node where p: "?p = (r1, Done (Some node))" "\<not> is_expired 200 node"
    by (cases ?p) (auto split: outcome.splits option.splits)
  have "\<not> is_expired (rv_now (calm_env [] 200)) node" "\<not> rv_lock_fails (calm_env [] 200)" "\<not> rv_read_fails (calm_env [] 200)"
    using p(2) by (simp_all add: calm_env_def)
  from cache_put_then_get [OF p(1) _ calm_limits calm_limits this] show ?thesis
    using p(1) by (simp add: empty_router_def)
qed

subsection \<open>What goes wrong\<close>

text \<open>
  The digest has no part of the graph root: a process that works on two graphs answers a
  lookup for the second one with what it stored for the first.
\<close>

lemma answer_of_other_graph:
  "snd (cache_get id length (\<lambda>_. None) (example_world [] '''') (calm_env [] 200) [''h''] ''index'' ''k''
     (run_router id length (\<lambda>_. None) (example_world [] '''') one_put)) = Done (Some answer)"
  by code_simp

text \<open>
  When the size limit is lowered while an entry is in memory, the lookup evicts it with the
  module lock held, and waits for that lock.
\<close>

lemma lowered_limit_deadlocks:
  "snd (cache_get id (\<lambda>_. 5000) (\<lambda>_. None) (example_world [] '''') (calm_env ''4096'' 200) [''g''] ''index'' ''k''
     (run_router id (\<lambda>_. 5000) (\<lambda>_. None) (example_world [] '''') one_put)) = SelfDeadlock"
  by code_simp

text \<open>A hit does not renew an entry: the one read last is the first to be dropped.\<close>

lemma hit_keeps_order:
  "map_of (ro_memory r) (cache_digest dg ns key) = Some (e, p) \<Longrightarrow> rv_now ev \<le> e \<Longrightarrow> payload_within_limit size_of ev p \<Longrightarrow>
     ro_memory (fst (cache_get dg size_of fl w ev groot ns key r)) = ro_memory r"
  by (simp add: cache_get_memory)

end
