(* ===== verification/TagUnify.thy ===== *)
theory TagUnify
  imports PropEdit GraphPaths "HOL-Library.AList" "HOL-Library.Char_ord" "HOL-Library.List_Lexorder"
    "HOL-Library.Product_Lexorder" "HOL-Library.Multiset"
begin

section \<open>Unifying the spellings of tags\<close>

text \<open>
  Model of \<open>src/graph/tag_unify.py\<close>: the scan of all pages for \<open>#tag\<close> spellings that differ in
  case only, the choice of a canonical spelling, and the rewriting of the pages. The regular
  expressions become position scans; a match is a pair of positions in its line. Both walks
  over the graph take a listing of the directory and, for each page, the edits of other
  programs that land before the page is read (in the scan) and during its rewriting.
\<close>

subsection \<open>Tags in a line\<close>

text \<open>\<open>\w\<close> of a string pattern, and the class of characters of a tag.\<close>

definition word_char :: "char \<Rightarrow> bool" where
  "word_char c \<longleftrightarrow> is_digit c \<or> is_alpha_ascii c \<or> c = CHR ''_''
     \<or> c \<in> {CHR 0xAA, CHR 0xB2, CHR 0xB3, CHR 0xB5, CHR 0xB9, CHR 0xBA, CHR 0xBC, CHR 0xBD, CHR 0xBE}
     \<or> (192 \<le> code_of c \<and> code_of c \<noteq> 215 \<and> code_of c \<noteq> 247)"

definition tag_char :: "char \<Rightarrow> bool" where
  "tag_char c \<longleftrightarrow> word_char c \<or> c = CHR ''.'' \<or> c = CHR ''/'' \<or> c = CHR ''-''"

text \<open>\<open>_TAG_RE.finditer(line)\<close>, from position \<open>i\<close> on.\<close>

function tag_scan :: "nat \<Rightarrow> string \<Rightarrow> (nat \<times> nat) list" where
  "tag_scan i [] = []"
| "tag_scan i (c # cs) =
     (let tag = takeWhile tag_char cs; e = i + 1 + length tag
      in if c = CHR ''#'' \<and> tag \<noteq> [] then (i, e) # tag_scan e (dropWhile tag_char cs)
         else tag_scan (i + 1) cs)"
  by pat_completeness auto
termination
  by (relation "measure (\<lambda>(_, s). length s)") (auto simp: le_imp_less_Suc length_dropWhile_le)

definition in_inline_code :: "string \<Rightarrow> nat \<Rightarrow> bool" where
  "in_inline_code line i \<longleftrightarrow> count_sub [TICK] (take i line) mod 2 = 1"

definition in_wikilink :: "string \<Rightarrow> nat \<Rightarrow> bool" where
  "in_wikilink line i \<longleftrightarrow> count_sub '']]'' (take i line) < count_sub ''[['' (take i line)"

definition property_value_quote_ranges :: "string \<Rightarrow> (nat \<times> nat) list" where
  "property_value_quote_ranges line =
     (case parse_logseq_property_line (rstrip_by (\<lambda>c. c = LF) line) of
        None \<Rightarrow> []
      | Some pp \<Rightarrow> double_quoted_spans_in_value (pl_value_raw pp) (pl_value_start pp))"

text \<open>\<open>s.rfind(p)\<close>.\<close>

definition rfind :: "string \<Rightarrow> string \<Rightarrow> int" where
  "rfind p s =
     (case filter (\<lambda>i. startswith (drop i s) p) (rev [0..<length s + 1]) of [] \<Rightarrow> -1 | i # _ \<Rightarrow> int i)"

definition in_url_fragment :: "string \<Rightarrow> nat \<Rightarrow> bool" where
  "in_url_fragment line i =
     (let head = take i line; last_http = max (rfind ''http://'' head) (rfind ''https://'' head)
      in if last_http < 0 then False
         else let middle = slice (nat last_http) i head in TAB \<notin> set middle \<and> CHR '' '' \<notin> set middle)"

definition valid_tag_match :: "string \<Rightarrow> nat \<Rightarrow> nat \<Rightarrow> bool" where
  "valid_tag_match line s e =
     (if 0 < s \<and> line ! (s - 1) = CHR ''#'' then False
      else if in_inline_code line s then False
      else if in_wikilink line s then False
      else if in_url_fragment line s then False
      else \<not> list_ex (\<lambda>(a, b). (a \<le> s \<and> s < b) \<or> (a < e \<and> e \<le> b) \<or> (s < a \<and> b < e))
              (property_value_quote_ranges line))"

subsection \<open>The scan of the graph\<close>

record tag_cluster =
  tc_fold_key :: string
  tc_counts :: "(string \<times> nat) list"

definition register :: "string \<Rightarrow> tag_cluster \<Rightarrow> tag_cluster" where
  "register raw c =
     c\<lparr>tc_counts := AList.update raw ((case map_of (tc_counts c) raw of None \<Rightarrow> 0 | Some n \<Rightarrow> n) + 1) (tc_counts c)\<rparr>"

text \<open>\<open>max\<close> with the key \<open>(count, -length)\<close> keeps the first of the largest items.\<close>

fun best_spelling :: "string \<times> nat \<Rightarrow> (string \<times> nat) list \<Rightarrow> string \<times> nat" where
  "best_spelling b [] = b"
| "best_spelling b (x # xs) =
     best_spelling (if (snd b, - int (length (fst b))) < (snd x, - int (length (fst x))) then x else b) xs"

definition canonical :: "tag_cluster \<Rightarrow> string" where
  "canonical c = (case tc_counts c of [] \<Rightarrow> [] | x # xs \<Rightarrow> fst (best_spelling x xs))"

record tag_row =
  tr_fold_key :: string
  tr_canonical :: string
  tr_variants :: "(string \<times> nat) list"
  tr_total :: nat

text \<open>\<open>TagLintRow.as_dict\<close> lists the variants by falling count.\<close>

definition row_as_dict :: "tag_row \<Rightarrow> tag_row" where
  "row_as_dict r = r\<lparr>tr_variants := sort_key (\<lambda>(k, n). (- int n, k)) (tr_variants r)\<rparr>"

type_synonym clusters = "(string \<times> tag_cluster) list"

definition scan_match :: "string \<Rightarrow> nat \<times> nat \<Rightarrow> clusters \<Rightarrow> clusters" where
  "scan_match line m clusters =
     (let (s, e) = m; tag = slice (s + 1) e line; key = casefold tag
      in if \<not> valid_tag_match line s e then clusters
         else AList.update key
                (register (CHR ''#'' # tag)
                  (case map_of clusters key of None \<Rightarrow> \<lparr>tc_fold_key = key, tc_counts = []\<rparr> | Some c \<Rightarrow> c)) clusters)"

definition scan_line :: "string \<Rightarrow> clusters \<Rightarrow> clusters" where
  "scan_line line clusters = fold (scan_match line) (tag_scan 0 line) clusters"

definition scan_page_text :: "string \<Rightarrow> clusters \<Rightarrow> clusters" where
  "scan_page_text text clusters = fold scan_line (splitlines text) clusters"

fun scan_pages :: "path \<Rightarrow> (path \<Rightarrow> edit list) \<Rightarrow> path list \<Rightarrow> clusters \<Rightarrow> world \<Rightarrow> world \<times> (py_exn + clusters)" where
  "scan_pages groot before [] clusters w = (w, Inr clusters)"
| "scan_pages groot before (p # ps) clusters w =
     (let w1 = apply_edits (before p) w
      in case read_graph_file_text w1 p groot of
           Inl OsError \<Rightarrow> scan_pages groot before ps clusters w1
         | Inl e \<Rightarrow> (w1, Inl e)
         | Inr text \<Rightarrow> scan_pages groot before ps (scan_page_text text clusters) w1)"

definition rows_of_clusters :: "clusters \<Rightarrow> tag_row list" where
  "rows_of_clusters clusters =
     sort_key (\<lambda>r. (- int (tr_total r), tr_fold_key r))
       (map (\<lambda>c. \<lparr>tr_fold_key = tc_fold_key c, tr_canonical = canonical c, tr_variants = tc_counts c,
                  tr_total = sum_list (map snd (tc_counts c))\<rparr>)
         (filter (\<lambda>c. 2 \<le> length (tc_counts c)) (map snd clusters)))"

definition scan_tag_clusters ::
  "path \<Rightarrow> path list \<Rightarrow> (path \<Rightarrow> edit list) \<Rightarrow> world \<Rightarrow> world \<times> (py_exn + tag_row list)" where
  "scan_tag_clusters graph_root listing before w =
     (let groot = resolved w graph_root
      in case scan_pages groot before (iter_alias_source_paths w listing groot) [] w of
           (w1, Inl e) \<Rightarrow> (w1, Inl e)
         | (w1, Inr clusters) \<Rightarrow> (w1, Inr (rows_of_clusters clusters)))"

subsection \<open>Rewriting a text\<close>

text \<open>A match of \<open>(?<![#\w/])#(stem)(?![\w/-])\<close> at a position of the line, and all matches.\<close>

definition variant_at :: "string \<Rightarrow> string \<Rightarrow> nat \<Rightarrow> bool" where
  "variant_at stem line i \<longleftrightarrow>
     (i = 0 \<or> \<not> (line ! (i - 1) = CHR ''#'' \<or> word_char (line ! (i - 1)) \<or> line ! (i - 1) = CHR ''/'')) \<and>
     startswith (drop i line) (CHR ''#'' # stem) \<and>
     (case drop (i + 1 + length stem) line of
        [] \<Rightarrow> True
      | c # _ \<Rightarrow> \<not> (word_char c \<or> c = CHR ''/'' \<or> c = CHR ''-''))"

function variant_matches :: "string \<Rightarrow> string \<Rightarrow> nat \<Rightarrow> (nat \<times> nat) list" where
  "variant_matches stem line i =
     (if length line \<le> i then []
      else if variant_at stem line i
      then (i, i + 1 + length stem) # variant_matches stem line (i + 1 + length stem)
      else variant_matches stem line (i + 1))"
  by pat_completeness auto
termination
  by (relation "measure (\<lambda>(_, line, i). length line - i)") auto

declare variant_matches.simps [simp del]

type_synonym tag_mapping = "(string \<times> string) list"
type_synonym tag_op = "nat \<times> nat \<times> string"

definition tag_ops :: "tag_mapping \<Rightarrow> string \<Rightarrow> tag_op list" where
  "tag_ops mapping line =
     concat (map (\<lambda>(raw, canon).
       if raw = canon then []
       else map (\<lambda>(s, e). (s, e, canon))
              (filter (\<lambda>(s, e). valid_tag_match line s e) (variant_matches (drop 1 raw) line 0))) mapping)"

fun merge_ops :: "int \<Rightarrow> tag_op list \<Rightarrow> tag_op list" where
  "merge_ops last_end [] = []"
| "merge_ops last_end ((s, e, rep) # ops) =
     (if int s < last_end then merge_ops last_end ops else (s, e, rep) # merge_ops (int e) ops)"

definition merged_ops :: "tag_mapping \<Rightarrow> string \<Rightarrow> tag_op list" where
  "merged_ops mapping line = merge_ops (-1) (sort_key fst (tag_ops mapping line))"

definition apply_op :: "string \<Rightarrow> tag_op \<Rightarrow> string" where
  "apply_op s op = (let (a, b, rep) = op in take a s @ rep @ drop b s)"

definition unify_tags_single_line :: "tag_mapping \<Rightarrow> string \<Rightarrow> string \<times> nat" where
  "unify_tags_single_line mapping line =
     (let merged = merged_ops mapping line
      in if merged = [] then (line, 0)
         else (foldl apply_op line (sort_key (\<lambda>op. - int (fst op)) merged), length merged))"

text \<open>\<open>re.finditer(r"\r\n|\n|\r", text)\<close> cuts a text into terminated lines and a tail.\<close>

fun eol_pieces :: "string \<Rightarrow> (string \<times> string) list \<times> string" where
  "eol_pieces [] = ([], [])"
| "eol_pieces (c # cs) =
     (if c = CR \<and> cs \<noteq> [] \<and> hd cs = LF
      then let (ps, t) = eol_pieces (tl cs) in (([], [CR, LF]) # ps, t)
      else if c = LF \<or> c = CR then let (ps, t) = eol_pieces cs in (([], [c]) # ps, t)
      else case eol_pieces cs of
             ([], t) \<Rightarrow> ([], c # t)
           | ((l, nl) # ps, t) \<Rightarrow> ((c # l, nl) # ps, t))"

fun unify_pieces :: "tag_mapping \<Rightarrow> nat set \<Rightarrow> nat \<Rightarrow> (string \<times> string) list \<Rightarrow> string \<Rightarrow> string \<times> nat" where
  "unify_pieces mapping dead i [] tail =
     (if i \<in> dead then (tail, 0) else unify_tags_single_line mapping tail)"
| "unify_pieces mapping dead i ((line, nl) # ps) tail =
     (let (new_line, n) = (if i \<in> dead then (line, 0) else unify_tags_single_line mapping line);
          (out, k) = unify_pieces mapping dead (i + 1) ps tail
      in (new_line @ nl @ out, n + k))"

definition unify_tags_in_text :: "tag_mapping \<Rightarrow> nat set \<Rightarrow> string \<Rightarrow> string \<times> nat" where
  "unify_tags_in_text mapping protected text =
     (let (ps, tail) = eol_pieces text in unify_pieces mapping protected 0 ps tail)"

subsection \<open>The run over the graph\<close>

record tag_file_result =
  tf_relative_path :: string
  tf_replacements :: nat
  tf_preview :: "string option"

record tag_run_result =
  tu_ok :: bool
  tu_code :: string
  tu_dry_run :: bool
  tu_clusters :: "tag_row list"
  tu_files :: "tag_file_result list"
  tu_total_replacements :: nat

fun decimal :: "nat \<Rightarrow> string" where
  "decimal n = (if n < 10 then [char_of (48 + n)] else decimal (n div 10) @ [char_of (48 + n mod 10)])"

text \<open>
  One page, under its lock. \<open>exn\<close> is the text of a read error. The write has no baseline: the
  edits \<open>il_copy\<close> and \<open>il_write\<close> land between the read and the write.
\<close>

definition tag_unify_process_file ::
  "string \<Rightarrow> path \<Rightarrow> path \<Rightarrow> tag_mapping \<Rightarrow> bool \<Rightarrow> nat \<Rightarrow> int \<Rightarrow> interference \<Rightarrow> world \<Rightarrow>
     world \<times> (py_exn + tag_file_result option \<times> nat \<times> nat)" where
  "tag_unify_process_file exn p groot mapping dry_run preview_count max_files_preview il w =
     (case page_rmw_lock p (il_lock il) w of
        Inl e \<Rightarrow> (w, Inl e)
      | Inr w1 \<Rightarrow>
          (case (case relative_to p groot of
                   None \<Rightarrow> Inl (ValueError ''is not in the subpath'') | Some rel \<Rightarrow> Inr (join ''/'' rel)) of
             Inl not_below \<Rightarrow>
               (case read_graph_file_text w1 p groot of
                  Inl OsError \<Rightarrow> (w1, Inl not_below)
                | Inl e \<Rightarrow> (w1, Inl e)
                | Inr raw \<Rightarrow>
                    if snd (unify_tags_in_text mapping (compute_page_protected_line_indices raw) raw) = 0
                    then (w1, Inr (None, 0, preview_count)) else (w1, Inl not_below))
           | Inr rel \<Rightarrow>
               (case read_graph_file_text w1 p groot of
                  Inl OsError \<Rightarrow>
                    (w1, Inr (Some \<lparr>tf_relative_path = rel, tf_replacements = 0,
                       tf_preview = Some (''_read_error: '' @ exn @ ''_'')\<rparr>, 0, preview_count))
                | Inl e \<Rightarrow> (w1, Inl e)
                | Inr raw \<Rightarrow>
                    (let (new_text, n) = unify_tags_in_text mapping (compute_page_protected_line_indices raw) raw;
                         shown = int preview_count < max_files_preview;
                         preview = (if shown then Some (''_'' @ decimal n @ '' replacement(s) in `'' @ rel @ ''`_'') else None);
                         preview_count' = (if shown then preview_count + 1 else preview_count);
                         res = \<lparr>tf_relative_path = rel, tf_replacements = n, tf_preview = preview\<rparr>
                     in if n = 0 then (w1, Inr (None, 0, preview_count))
                        else if dry_run then (w1, Inr (Some res, n, preview_count'))
                        else (let w2 = apply_edits (il_copy il) w1
                              in case copy2 p (backup_path p) w2 of
                                   None \<Rightarrow> (w2, Inl OsError)
                                 | Some w3 \<Rightarrow>
                                     (case atomic_write_bytes p new_text groot True None None
                                             (apply_edits (il_write il) w3) of
                                        (w4, Inl e) \<Rightarrow> (w4, Inl e)
                                      | (w4, Inr _) \<Rightarrow> (w4, Inr (Some res, n, preview_count'))))))))"

fun tag_unify_files ::
  "string \<Rightarrow> path \<Rightarrow> tag_mapping \<Rightarrow> bool \<Rightarrow> int \<Rightarrow> (path \<Rightarrow> interference) \<Rightarrow> path list \<Rightarrow>
     tag_file_result list \<times> nat \<times> nat \<Rightarrow> world \<Rightarrow> world \<times> (py_exn + tag_file_result list \<times> nat)" where
  "tag_unify_files exn groot mapping dry_run mx il [] (rs, n, pc) w = (w, Inr (rs, n))"
| "tag_unify_files exn groot mapping dry_run mx il (p # ps) (rs, n, pc) w =
     (case tag_unify_process_file exn p groot mapping dry_run pc mx (il p) w of
        (w1, Inl e) \<Rightarrow> (w1, Inl e)
      | (w1, Inr (None, _, pc')) \<Rightarrow> tag_unify_files exn groot mapping dry_run mx il ps (rs, n, pc') w1
      | (w1, Inr (Some r, k, pc')) \<Rightarrow>
          tag_unify_files exn groot mapping dry_run mx il ps (rs @ [r], n + k, pc') w1)"

definition build_mapping :: "tag_row list \<Rightarrow> tag_mapping" where
  "build_mapping rows =
     fold (\<lambda>r m. fold (\<lambda>(variant, _) m.
         if variant \<noteq> tr_canonical r then AList.update variant (tr_canonical r) m else m) (tr_variants r) m) rows []"

definition lint_unify_logseq_tags ::
  "string \<Rightarrow> path \<Rightarrow> bool \<Rightarrow> int \<Rightarrow> path list \<Rightarrow> (path \<Rightarrow> edit list) \<Rightarrow> path list \<Rightarrow> (path \<Rightarrow> interference) \<Rightarrow>
     world \<Rightarrow> world \<times> (py_exn + tag_run_result)" where
  "lint_unify_logseq_tags exn graph_root dry_run max_files_preview listing before listing' il w =
     (let groot = resolved w graph_root
      in case scan_tag_clusters groot listing before w of
           (w1, Inl e) \<Rightarrow> (w1, Inl e)
         | (w1, Inr rows) \<Rightarrow>
             (let mapping = build_mapping rows;
                  outcome = (\<lambda>code fs n. \<lparr>tu_ok = True, tu_code = code, tu_dry_run = dry_run,
                     tu_clusters = map row_as_dict rows, tu_files = fs, tu_total_replacements = n\<rparr>)
              in if mapping = [] then (w1, Inr (outcome ''noop'' [] 0))
                 else case tag_unify_files exn groot mapping dry_run max_files_preview il
                             (iter_alias_source_paths w1 listing' groot) ([], 0, 0) w1 of
                   (w2, Inl e) \<Rightarrow> (w2, Inl e)
                 | (w2, Inr (rs, n)) \<Rightarrow>
                     if dry_run \<and> n = 0 then (w2, Inr (outcome ''dry_run_ok'' rs 0))
                     else (w2, Inr (outcome (if dry_run then ''dry_run_ok'' else ''applied'')
                              (filter (\<lambda>r. 0 < tf_replacements r) rs) n))))"

subsection \<open>The rewriting of a line\<close>

lemma variant_matches_mem:
  "(s, e) \<in> set (variant_matches stem line i) \<Longrightarrow>
     variant_at stem line s \<and> e = s + 1 + length stem \<and> e \<le> length line \<and> slice s e line = CHR ''#'' # stem"
proof (induction stem line i rule: variant_matches.induct)
  case (1 stem line i)
  have here: "variant_at stem line i \<Longrightarrow> i + 1 + length stem \<le> length line \<and>
      slice i (i + 1 + length stem) line = CHR ''#'' # stem"
  proof -
    assume "variant_at stem line i"
    then obtain t where t: "drop i line = CHR ''#'' # stem @ t"
      by (auto simp: variant_at_def startswith_iff)
    then have "length line - i = Suc (length stem + length t)" by (metis length_Cons length_append length_drop)
    with t show ?thesis by (simp add: slice_def)
  qed
  show ?case
  proof (cases "length line \<le> i")
    case True
    with 1 show ?thesis by (simp add: variant_matches.simps [of stem line i])
  next
    case False
    with 1 here show ?thesis
      by (cases "variant_at stem line i") (auto simp: variant_matches.simps [of stem line i])
  qed
qed

lemma tag_ops_mem:
  "(s, e, c) \<in> set (tag_ops m line) \<Longrightarrow>
     \<exists>raw. (raw, c) \<in> set m \<and> raw \<noteq> c \<and> variant_at (drop 1 raw) line s \<and> valid_tag_match line s e \<and>
       s < e \<and> e \<le> length line \<and> slice s e line = CHR ''#'' # drop 1 raw"
  unfolding tag_ops_def by (fastforce dest: variant_matches_mem split: if_splits)

text \<open>Operations in a row: each starts where the one before has ended, or later.\<close>

fun op_chain :: "nat \<Rightarrow> tag_op list \<Rightarrow> bool" where
  "op_chain i [] \<longleftrightarrow> True"
| "op_chain i ((a, b, r) # ops) \<longleftrightarrow> i \<le> a \<and> a < b \<and> op_chain b ops"

lemma merge_ops_subset: "set (merge_ops n ops) \<subseteq> set ops"
  by (induction n ops rule: merge_ops.induct) auto

lemma merge_ops_chain: "list_all (\<lambda>(a, b, r). a < b) ops \<Longrightarrow> op_chain (nat n) (merge_ops n ops)"
  by (induction n ops rule: merge_ops.induct) auto

lemma op_chain_mono: "op_chain i ops \<Longrightarrow> j \<le> i \<Longrightarrow> op_chain j ops"
  by (cases "(i, ops)" rule: op_chain.cases) auto

lemma op_chain_bound: "op_chain i ops \<Longrightarrow> op \<in> set ops \<Longrightarrow> i \<le> fst op"
proof (induction i ops rule: op_chain.induct)
  case (2 i a b r ops)
  show ?case
  proof (cases "op = (a, b, r)")
    case False
    then have "b \<le> fst op" using 2 by simp
    then show ?thesis using 2(2) by simp
  qed (use 2 in simp)
qed simp

lemma op_chain_sorted: "op_chain i ops \<Longrightarrow> sorted_wrt (\<lambda>x y. fst x < fst y) ops"
proof (induction i ops rule: op_chain.induct)
  case (2 i a b r ops)
  then show ?case using op_chain_bound by fastforce
qed simp

lemma sort_op_chain: "op_chain i ops \<Longrightarrow> sort_key (\<lambda>op. - int (fst op)) ops = rev ops"
proof -
  assume c: "op_chain i ops"
  have s: "sorted_wrt (\<lambda>x y. fst x < fst y) ops" using c by (rule op_chain_sorted)
  have inj: "inj_on (\<lambda>op. - int (fst op)) (set ops)"
    using s
  proof (induction ops)
    case (Cons x xs)
    then show ?case by (auto simp: inj_on_def)
  qed simp
  have "sorted (map (\<lambda>op. - int (fst op)) (rev ops))"
    unfolding sorted_map sorted_wrt_rev by (rule sorted_wrt_mono_rel [OF _ s]) auto
  then show ?thesis using inj by (intro sort_key_inj_key_eq) auto
qed

text \<open>The text that the operations stand for, from left to right.\<close>

fun splice_ops :: "nat \<Rightarrow> string \<Rightarrow> tag_op list \<Rightarrow> string" where
  "splice_ops i line [] = drop i line"
| "splice_ops i line ((a, b, r) # ops) = slice i a line @ r @ splice_ops b line ops"

lemma take_slice: "i \<le> a \<Longrightarrow> take i xs @ slice i a xs = take a xs"
  unfolding slice_def by (metis le_add_diff_inverse take_add)

lemma drop_slice: "i \<le> a \<Longrightarrow> slice i a xs @ drop a xs = drop i xs"
  unfolding slice_def by (metis append_take_drop_id drop_drop le_add_diff_inverse2)

lemma apply_ops_splice:
  "op_chain i ops \<Longrightarrow> list_all (\<lambda>(a, b, r). b \<le> length line) ops \<Longrightarrow> i \<le> length line \<Longrightarrow>
     foldl apply_op line (rev ops) = take i line @ splice_ops i line ops"
proof (induction i ops rule: op_chain.induct)
  case (2 i a b r ops)
  then have "foldl apply_op line (rev ops) = take b line @ splice_ops b line ops" by simp
  moreover have "take i line @ slice i a line = take a line" using 2 by (intro take_slice) simp
  ultimately show ?case using 2 by (simp add: apply_op_def flip: append_assoc)
qed simp

lemma merged_ops_mem: "op \<in> set (merged_ops m line) \<Longrightarrow> op \<in> set (tag_ops m line)"
  unfolding merged_ops_def using merge_ops_subset by fastforce

lemma merged_ops_chain: "op_chain 0 (merged_ops m line)"
proof -
  have "list_all (\<lambda>(a, b, r). a < b) (sort_key fst (tag_ops m line))"
    using tag_ops_mem by (fastforce simp: list_all_iff)
  from merge_ops_chain [OF this, of "-1"] show ?thesis by (simp add: merged_ops_def)
qed

lemma merged_ops_bound: "list_all (\<lambda>(a, b, r). b \<le> length line) (merged_ops m line)"
  using merged_ops_mem tag_ops_mem by (fastforce simp: list_all_iff)

lemma single_line_splice: "fst (unify_tags_single_line m line) = splice_ops 0 line (merged_ops m line)"
proof -
  have "foldl apply_op line (rev (merged_ops m line)) = splice_ops 0 line (merged_ops m line)"
    using apply_ops_splice [OF merged_ops_chain merged_ops_bound] by simp
  then show ?thesis
    by (simp add: unify_tags_single_line_def Let_def sort_op_chain [OF merged_ops_chain])
qed

text \<open>A mapping between spellings of the same tags.\<close>

definition same_tag :: "string \<times> string \<Rightarrow> bool" where
  "same_tag rc \<longleftrightarrow> casefold (fst rc) = casefold (snd rc) \<and> take 1 (fst rc) = ''#'' \<and> take 1 (snd rc) = ''#'' \<and>
     list_all tag_char (drop 1 (fst rc)) \<and> list_all tag_char (drop 1 (snd rc))"

definition case_mapping :: "tag_mapping \<Rightarrow> bool" where
  "case_mapping m \<longleftrightarrow> list_all same_tag m"

lemma hash_decomp: "take 1 s = ''#'' \<Longrightarrow> CHR ''#'' # drop 1 s = s"
  by (cases s) auto

lemma tag_ops_same:
  assumes "case_mapping m" and "(s, e, c) \<in> set (tag_ops m line)"
  shows "casefold c = casefold (slice s e line) \<and> c \<noteq> [] \<and> LF \<notin> set c \<and> CR \<notin> set c"
proof -
  obtain raw where raw: "(raw, c) \<in> set m" "slice s e line = CHR ''#'' # drop 1 raw"
    using tag_ops_mem [OF assms(2)] by blast
  then have "same_tag (raw, c)" using assms(1) by (auto simp: case_mapping_def list_all_iff)
  then have st: "casefold raw = casefold c" "take 1 raw = ''#''" "take 1 c = ''#''" "list_all tag_char (drop 1 c)"
    by (auto simp: same_tag_def)
  have nt: "\<not> tag_char LF" "\<not> tag_char CR" by code_simp+
  obtain t where t: "c = CHR ''#'' # t" using hash_decomp [OF st(3)] by metis
  have "LF \<notin> set t" "CR \<notin> set t" using st(4) nt unfolding t list_all_iff by auto
  then have "c \<noteq> [] \<and> LF \<notin> set c \<and> CR \<notin> set c" by (simp add: t)
  then show ?thesis using st(1) hash_decomp [OF st(2)] raw(2) by simp
qed

lemma splice_casefold:
  "op_chain i ops \<Longrightarrow> (\<And>a b r. (a, b, r) \<in> set ops \<Longrightarrow> casefold r = casefold (slice a b line)) \<Longrightarrow>
     casefold (splice_ops i line ops) = casefold (drop i line)"
proof (induction i ops rule: op_chain.induct)
  case (2 i a b r ops)
  have "drop i line = slice i a line @ drop a line" "drop a line = slice a b line @ drop b line"
    using 2(2) drop_slice [of i a line] drop_slice [of a b line] by simp_all
  then have d: "drop i line = slice i a line @ slice a b line @ drop b line" by simp
  have "casefold (splice_ops b line ops) = casefold (drop b line)" using 2 by simp
  moreover have "casefold r = casefold (slice a b line)" using 2(3) by simp
  ultimately show ?case by (simp add: d casefold_append)
qed simp

lemma single_line_casefold: "case_mapping m \<Longrightarrow> casefold (fst (unify_tags_single_line m line)) = casefold line"
  unfolding single_line_splice
  using splice_casefold [OF merged_ops_chain] tag_ops_same merged_ops_mem by (metis drop0)

subsection \<open>The rewriting of a text\<close>

definition plain :: "string \<Rightarrow> bool" where
  "plain l \<longleftrightarrow> LF \<notin> set l \<and> CR \<notin> set l"

lemma plain_simps [simp]: "plain []" "plain (c # l) \<longleftrightarrow> c \<noteq> LF \<and> c \<noteq> CR \<and> plain l"
  "plain (l @ m) \<longleftrightarrow> plain l \<and> plain m"
  by (auto simp: plain_def)

definition piece_text :: "(string \<times> string) list \<Rightarrow> string \<Rightarrow> string" where
  "piece_text ps tail = concat (map (\<lambda>(l, nl). l @ nl) ps) @ tail"

lemma piece_text_simps [simp]: "piece_text [] tail = tail"
  "piece_text ((l, nl) # ps) tail = l @ nl @ piece_text ps tail"
  by (simp_all add: piece_text_def)

fun pieces_ok :: "(string \<times> string) list \<Rightarrow> string \<Rightarrow> bool" where
  "pieces_ok [] tail \<longleftrightarrow> plain tail"
| "pieces_ok ((l, nl) # ps) tail \<longleftrightarrow>
     plain l \<and> nl \<in> {[LF], [CR], [CR, LF]} \<and> (nl = [CR] \<longrightarrow> ps = [] \<or> hd ps \<noteq> ([], [LF])) \<and> pieces_ok ps tail"

lemma eol_pieces_plain:
  "plain l \<Longrightarrow> eol_pieces (l @ s) =
     (case eol_pieces s of ([], t) \<Rightarrow> ([], l @ t) | ((m, nl) # ps, t) \<Rightarrow> ((l @ m, nl) # ps, t))"
proof (induction l)
  case Nil
  then show ?case by (cases "eol_pieces s") (auto split: list.splits)
next
  case (Cons c l)
  then show ?case by (cases "eol_pieces s") (auto split: list.splits)
qed

lemma eol_pieces_text: "eol_pieces s = (ps, t) \<Longrightarrow> piece_text ps t = s"
proof (induction s arbitrary: ps t rule: eol_pieces.induct)
  case (2 c cs)
  show ?case
  proof (cases "c = CR \<and> cs \<noteq> [] \<and> hd cs = LF")
    case True
    then have "cs = LF # tl cs" by (metis list.collapse)
    with True 2(1) 2(4) show ?thesis by (cases "eol_pieces (tl cs)") auto
  next
    case False
    with 2(2,3,4) show ?thesis by (cases "eol_pieces cs") (auto split: if_splits list.splits)
  qed
qed simp

lemma piece_text_hd: "pieces_ok ps t \<Longrightarrow> piece_text ps t \<noteq> [] \<Longrightarrow> hd (piece_text ps t) = LF \<Longrightarrow>
    ps \<noteq> [] \<and> hd ps = ([], [LF])"
proof (cases ps)
  case Nil
  then show "pieces_ok ps t \<Longrightarrow> piece_text ps t \<noteq> [] \<Longrightarrow> hd (piece_text ps t) = LF \<Longrightarrow> ?thesis"
    by (cases t) auto
next
  case (Cons p qs)
  then show "pieces_ok ps t \<Longrightarrow> piece_text ps t \<noteq> [] \<Longrightarrow> hd (piece_text ps t) = LF \<Longrightarrow> ?thesis"
    by (cases p; cases "fst p") auto
qed

lemma eol_pieces_ok: "eol_pieces s = (ps, t) \<Longrightarrow> pieces_ok ps t"
proof (induction s arbitrary: ps t rule: eol_pieces.induct)
  case (2 c cs)
  show ?case
  proof (cases "c = CR \<and> cs \<noteq> [] \<and> hd cs = LF")
    case True
    with 2(1) 2(4) show ?thesis by (cases "eol_pieces (tl cs)") auto
  next
    case False
    obtain qs u where q: "eol_pieces cs = (qs, u)" by (cases "eol_pieces cs")
    have ok: "pieces_ok qs u" using 2(2,3) False q by auto
    have "c = CR \<Longrightarrow> qs = [] \<or> hd qs \<noteq> ([], [LF])"
      using False eol_pieces_text [OF q] by (cases qs) auto
    then show ?thesis using 2(4) False q ok by (auto split: if_splits list.splits)
  qed
qed simp

lemma eol_pieces_inverse: "pieces_ok ps t \<Longrightarrow> eol_pieces (piece_text ps t) = (ps, t)"
proof (induction ps t rule: pieces_ok.induct)
  case (1 tail)
  then show ?case using eol_pieces_plain [of tail "[]"] by simp
next
  case (2 l nl ps tail)
  have cr: "nl = [CR] \<Longrightarrow> \<not> (piece_text ps tail \<noteq> [] \<and> hd (piece_text ps tail) = LF)"
    using 2 piece_text_hd [of ps tail] by auto
  have "eol_pieces (nl @ piece_text ps tail) = (([], nl) # ps, tail)"
    using 2 cr by auto
  then show ?case using 2 eol_pieces_plain [of l "nl @ piece_text ps tail"] by simp
qed

text \<open>What becomes of line \<open>i\<close>, and of all lines of a text.\<close>

definition rewritten_line :: "tag_mapping \<Rightarrow> nat set \<Rightarrow> nat \<Rightarrow> string \<Rightarrow> string" where
  "rewritten_line m dead i l = (if i \<in> dead then l else splice_ops 0 l (merged_ops m l))"

fun rewritten :: "tag_mapping \<Rightarrow> nat set \<Rightarrow> nat \<Rightarrow> (string \<times> string) list \<Rightarrow> (string \<times> string) list" where
  "rewritten m dead i [] = []"
| "rewritten m dead i ((l, nl) # ps) = (rewritten_line m dead i l, nl) # rewritten m dead (i + 1) ps"

lemma unify_pieces_text:
  "fst (unify_pieces m dead i ps t) =
     piece_text (rewritten m dead i ps) (rewritten_line m dead (i + length ps) t)"
proof (induction ps arbitrary: i)
  case Nil
  then show ?case by (simp add: rewritten_line_def single_line_splice)
next
  case (Cons p ps)
  obtain l nl where p: "p = (l, nl)" by (cases p)
  obtain out k where o: "unify_pieces m dead (i + 1) ps t = (out, k)" by (cases "unify_pieces m dead (i + 1) ps t")
  have "out = piece_text (rewritten m dead (i + 1) ps) (rewritten_line m dead (i + length (p # ps)) t)"
    using Cons [of "i + 1"] o by simp
  then show ?case
    using o by (simp add: p rewritten_line_def flip: single_line_splice split: prod.splits)
qed

lemma rewritten_line_casefold: "case_mapping m \<Longrightarrow> casefold (rewritten_line m dead i l) = casefold l"
  using single_line_casefold [of m l] by (simp add: rewritten_line_def single_line_splice)

lemma splice_plain: "plain line \<Longrightarrow> (\<And>a b r. (a, b, r) \<in> set ops \<Longrightarrow> plain r) \<Longrightarrow> plain (splice_ops i line ops)"
proof (induction i line ops rule: splice_ops.induct)
  case (1 i line)
  then show ?case by (auto simp: plain_def dest: in_set_dropD)
next
  case (2 i line a b r ops)
  have "plain (slice i a line)" using 2(2) by (auto simp: plain_def slice_def dest!: in_set_takeD in_set_dropD)
  moreover have "plain r" using 2(3) [of a b r] by simp
  moreover have "plain (splice_ops b line ops)" using 2 by (meson list.set_intros(2))
  ultimately show ?case by simp
qed

lemma rewritten_line_plain: "case_mapping m \<Longrightarrow> plain l \<Longrightarrow> plain (rewritten_line m dead i l)"
proof -
  assume m: "case_mapping m" and l: "plain l"
  have "plain r" if "(a, b, r) \<in> set (merged_ops m l)" for a b r
    using tag_ops_same [OF m merged_ops_mem [OF that]] by (simp add: plain_def)
  then show ?thesis unfolding rewritten_line_def using l splice_plain by auto
qed

lemma rewritten_line_Nil: "case_mapping m \<Longrightarrow> rewritten_line m dead i l = [] \<longleftrightarrow> l = []"
  using rewritten_line_casefold [of m dead i l] by (metis casefold_eq_Nil)

lemma rewritten_ok: "case_mapping m \<Longrightarrow> pieces_ok ps t \<Longrightarrow> pieces_ok (rewritten m dead i ps) (rewritten_line m dead (i + length ps) t)"
proof (induction ps arbitrary: i)
  case Nil
  then show ?case by (simp add: rewritten_line_plain)
next
  case (Cons p ps)
  obtain l nl where p: "p = (l, nl)" by (cases p)
  have "nl = [CR] \<Longrightarrow> rewritten m dead (i + 1) ps = [] \<or> hd (rewritten m dead (i + 1) ps) \<noteq> ([], [LF])"
    using Cons.prems by (cases ps) (auto simp: p rewritten_line_Nil)
  then show ?case using Cons.IH [of "i + 1"] Cons.prems by (simp add: p rewritten_line_plain)
qed

lemma rewritten_casefold:
  "case_mapping m \<Longrightarrow> casefold (piece_text (rewritten m dead i ps) (rewritten_line m dead j t)) = casefold (piece_text ps t)"
  by (induction ps arbitrary: i) (auto simp: rewritten_line_casefold casefold_append)

lemma unify_text:
  "eol_pieces text = (ps, t) \<Longrightarrow> fst (unify_tags_in_text m dead text) =
     piece_text (rewritten m dead 0 ps) (rewritten_line m dead (length ps) t)"
  using unify_pieces_text [of m dead 0 ps t] by (simp add: unify_tags_in_text_def)

lemma unify_casefold: "case_mapping m \<Longrightarrow> casefold (fst (unify_tags_in_text m dead text)) = casefold text"
  by (cases "eol_pieces text") (simp add: unify_text rewritten_casefold eol_pieces_text)

text \<open>
  C37. The rewriting of a text is the rewriting of its lines. A new text has the lines of the
  old one, with their ends: a protected line as it was, any other line with the chosen
  spelling at each kept occurrence of a variant and all other characters in place. The pass
  from the last occurrence to the first that the code makes is the same as one from left to
  right.
\<close>

theorem tag_rewrite_line_by_line:
  assumes "case_mapping m" and "eol_pieces text = (ps, t)"
  shows "eol_pieces (fst (unify_tags_in_text m dead text)) =
    (rewritten m dead 0 ps, rewritten_line m dead (length ps) t)"
  using unify_text [OF assms(2)] eol_pieces_inverse rewritten_ok [OF assms(1) eol_pieces_ok [OF assms(2)], of dead 0]
  by simp

lemma tag_rewrite_line_by_line_witness:
  "fst (unify_tags_in_text [(''#Foo'', ''#foo'')] {1} (join [LF] [''a #Foo'', ''#Foo'', ''#Foo, b''])) =
     join [LF] [''a #foo'', ''#Foo'', ''#foo, b'']"
proof -
  let ?m = "[(''#Foo'', ''#foo'')]" and ?t = "join [LF] [''a #Foo'', ''#Foo'', ''#Foo, b'']"
  have m: "case_mapping ?m" by code_simp
  have e: "eol_pieces ?t = ([(''a #Foo'', [LF]), (''#Foo'', [LF])], ''#Foo, b'')" by code_simp
  have r: "rewritten ?m {1} 0 [(''a #Foo'', [LF]), (''#Foo'', [LF])] = [(''a #foo'', [LF]), (''#Foo'', [LF])]"
    "rewritten_line ?m {1} 2 ''#Foo, b'' = ''#foo, b''" by code_simp+
  have "eol_pieces (fst (unify_tags_in_text ?m {1} ?t)) = ([(''a #foo'', [LF]), (''#Foo'', [LF])], ''#foo, b'')"
    using tag_rewrite_line_by_line [OF m e, of "{1}"] r by (simp add: numeral_2_eq_2)
  then show ?thesis using eol_pieces_text by fastforce
qed

subsection \<open>What the scan counts\<close>

definition tag_key :: "string \<Rightarrow> string" where
  "tag_key raw = casefold (drop 1 raw)"

definition line_tags :: "string \<Rightarrow> string list" where
  "line_tags line =
     map (\<lambda>(s, e). CHR ''#'' # slice (s + 1) e line) (filter (\<lambda>(s, e). valid_tag_match line s e) (tag_scan 0 line))"

definition text_tags :: "string \<Rightarrow> string list" where
  "text_tags text = concat (map line_tags (splitlines text))"

text \<open>The texts that the scan reads, under the edits of others; an unreadable page is skipped.\<close>

fun pages_read :: "path \<Rightarrow> (path \<Rightarrow> edit list) \<Rightarrow> path list \<Rightarrow> world \<Rightarrow> string list" where
  "pages_read groot before [] w = []"
| "pages_read groot before (p # ps) w =
     (let w1 = apply_edits (before p) w
      in (case read_graph_file_text w1 p groot of Inl _ \<Rightarrow> [] | Inr text \<Rightarrow> [text]) @ pages_read groot before ps w1)"

definition add_tag :: "string \<Rightarrow> clusters \<Rightarrow> clusters" where
  "add_tag raw cl =
     AList.update (tag_key raw)
       (register raw (case map_of cl (tag_key raw) of
          None \<Rightarrow> \<lparr>tc_fold_key = tag_key raw, tc_counts = []\<rparr> | Some c \<Rightarrow> c)) cl"

lemma scan_match_add: "scan_match line (s, e) cl =
    (if valid_tag_match line s e then add_tag (CHR ''#'' # slice (s + 1) e line) cl else cl)"
proof -
  have d: "drop 1 (CHR ''#'' # x) = x" for x :: string by simp
  show ?thesis unfolding scan_match_def add_tag_def tag_key_def Let_def prod.case d by simp
qed

lemma scan_line_tags: "scan_line line cl = fold add_tag (line_tags line) cl"
proof -
  have "fold (scan_match line) ms cl =
      fold add_tag (map (\<lambda>(s, e). CHR ''#'' # slice (s + 1) e line) (filter (\<lambda>(s, e). valid_tag_match line s e) ms)) cl"
    for ms
    by (induction ms arbitrary: cl) (auto simp: scan_match_add)
  then show ?thesis by (simp add: scan_line_def line_tags_def)
qed

lemma scan_text_tags: "scan_page_text text cl = fold add_tag (text_tags text) cl"
proof -
  have "fold scan_line ls cl = fold add_tag (concat (map line_tags ls)) cl" for ls
    by (induction ls arbitrary: cl) (simp_all add: scan_line_tags)
  then show ?thesis by (simp add: scan_page_text_def text_tags_def)
qed

lemma scan_pages_tags:
  "scan_pages groot before ps cl w = (w', Inr cl') \<Longrightarrow>
     cl' = fold add_tag (concat (map text_tags (pages_read groot before ps w))) cl"
  by (induction ps arbitrary: cl w) (auto simp: Let_def scan_text_tags split: sum.splits py_exn.splits)

definition cluster_state :: "string list \<Rightarrow> string \<Rightarrow> tag_cluster \<Rightarrow> bool" where
  "cluster_state ts k c \<longleftrightarrow> tc_fold_key c = k \<and> distinct (map fst (tc_counts c)) \<and>
     map_of (tc_counts c) = (\<lambda>v. if v \<in> set ts \<and> tag_key v = k then Some (count_list ts v) else None)"

lemma count_list_snoc: "count_list (ts @ [t]) v = count_list ts v + (if t = v then 1 else 0)"
  by (induction ts) auto

lemma cluster_state_other: "tag_key t \<noteq> k \<Longrightarrow> cluster_state ts k c \<Longrightarrow> cluster_state (ts @ [t]) k c"
  by (auto simp: cluster_state_def count_list_snoc fun_eq_iff)

lemma cluster_state_register:
  "cluster_state ts (tag_key t) c \<Longrightarrow> cluster_state (ts @ [t]) (tag_key t) (register t c)"
  by (auto simp: cluster_state_def register_def update_conv distinct_update count_list_snoc count_list_0_iff fun_eq_iff)

lemma cluster_state_new: "tag_key t \<notin> tag_key ` set ts \<Longrightarrow>
    cluster_state ts (tag_key t) \<lparr>tc_fold_key = tag_key t, tc_counts = []\<rparr>"
  by (auto simp: cluster_state_def fun_eq_iff) (metis image_eqI)

lemma clusters_of_tags:
  "distinct (map fst (fold add_tag ts [])) \<and>
   (\<forall>k. case map_of (fold add_tag ts []) k of
      None \<Rightarrow> k \<notin> tag_key ` set ts
    | Some c \<Rightarrow> k \<in> tag_key ` set ts \<and> cluster_state ts k c)"
proof (induction ts rule: rev_induct)
  case (snoc t ts)
  let ?cl = "fold add_tag ts []" and ?k = "tag_key t"
  have st: "case map_of ?cl k of None \<Rightarrow> k \<notin> tag_key ` set ts
      | Some c \<Rightarrow> k \<in> tag_key ` set ts \<and> cluster_state ts k c" for k
    using snoc by blast
  have "case map_of (add_tag t ?cl) k of None \<Rightarrow> k \<notin> tag_key ` set (ts @ [t])
      | Some c \<Rightarrow> k \<in> tag_key ` set (ts @ [t]) \<and> cluster_state (ts @ [t]) k c" for k
  proof (cases "k = ?k")
    case True
    have "cluster_state ts ?k (case map_of ?cl ?k of
        None \<Rightarrow> \<lparr>tc_fold_key = ?k, tc_counts = []\<rparr> | Some c \<Rightarrow> c)"
      using st [of ?k] cluster_state_new by (auto split: option.splits)
    then show ?thesis using True by (auto simp: add_tag_def update_conv intro: cluster_state_register)
  next
    case False
    then show ?thesis using st [of k]
      by (auto simp: add_tag_def update_conv intro: cluster_state_other split: option.splits)
  qed
  moreover have "distinct (map fst (add_tag t ?cl))"
    using snoc unfolding add_tag_def by (intro distinct_update) blast
  ultimately show ?case by simp
qed simp

lemma pick_larger:
  fixes f :: "'a \<Rightarrow> 'b :: linorder"
  shows "f b \<le> f (if f b < f x then x else b) \<and> f x \<le> f (if f b < f x then x else b)"
  by auto

lemma best_spelling_max:
  "best_spelling b xs \<in> insert b (set xs) \<and>
   (\<forall>x \<in> insert b (set xs). (snd x, - int (length (fst x))) \<le>
      (snd (best_spelling b xs), - int (length (fst (best_spelling b xs)))))"
proof (induction b xs rule: best_spelling.induct)
  case (2 b x xs)
  let ?key = "\<lambda>x :: string \<times> nat. (snd x, - int (length (fst x)))"
  let ?b = "if ?key b < ?key x then x else b"
  have le: "?key b \<le> ?key ?b" "?key x \<le> ?key ?b"
    using pick_larger [of ?key b x] by blast+
  have e: "best_spelling b (x # xs) = best_spelling ?b xs" by simp
  from 2 have m: "best_spelling ?b xs \<in> insert ?b (set xs)"
    "\<forall>y \<in> insert ?b (set xs). ?key y \<le> ?key (best_spelling ?b xs)" by blast+
  from m(1) have "best_spelling ?b xs \<in> insert b (set (x # xs))" by (auto split: if_splits)
  moreover have "?key y \<le> ?key (best_spelling ?b xs)" if "y \<in> insert b (set (x # xs))" for y
  proof -
    have "?key ?b \<le> ?key (best_spelling ?b xs)" using m(2) by blast
    then have "?key b \<le> ?key (best_spelling ?b xs)" "?key x \<le> ?key (best_spelling ?b xs)"
      using le order_trans by blast+
    then show ?thesis using that m(2) by auto
  qed
  ultimately show ?case unfolding e by blast
qed simp

lemma sum_counts: "distinct (map fst cs) \<Longrightarrow> sum_list (map snd cs) = (\<Sum>v \<in> fst ` set cs. the (map_of cs v))"
proof (induction cs)
  case (Cons c cs)
  then have "(\<Sum>v \<in> fst ` set cs. the (map_of (c # cs) v)) = (\<Sum>v \<in> fst ` set cs. the (map_of cs v))"
    by (intro sum.cong) (auto split: if_splits, metis fst_conv image_eqI)
  with Cons show ?case by (cases c) auto
qed simp

lemma count_list_filter: "P v \<Longrightarrow> count_list (filter P ts) v = count_list ts v"
  by (induction ts) auto

text \<open>A row of the report, for the list \<open>ts\<close> of all tags of the pages.\<close>

definition row_of_tags :: "string list \<Rightarrow> tag_row \<Rightarrow> bool" where
  "row_of_tags ts r \<longleftrightarrow>
     map_of (tr_variants r) =
       (\<lambda>v. if v \<in> set ts \<and> tag_key v = tr_fold_key r then Some (count_list ts v) else None) \<and>
     tr_total r = length (filter (\<lambda>v. tag_key v = tr_fold_key r) ts) \<and>
     tr_canonical r \<in> set ts \<and> tag_key (tr_canonical r) = tr_fold_key r \<and>
     list_all (\<lambda>v. tag_key v = tr_fold_key r \<longrightarrow>
       count_list ts v < count_list ts (tr_canonical r) \<or>
       (count_list ts v = count_list ts (tr_canonical r) \<and> length (tr_canonical r) \<le> length v)) ts"

lemma cluster_row:
  assumes "cluster_state ts k c" and "tc_counts c \<noteq> []"
  shows "row_of_tags ts \<lparr>tr_fold_key = tc_fold_key c, tr_canonical = canonical c, tr_variants = tc_counts c,
                  tr_total = sum_list (map snd (tc_counts c))\<rparr>"
proof -
  have k: "tc_fold_key c = k" and d: "distinct (map fst (tc_counts c))"
    and m: "map_of (tc_counts c) = (\<lambda>v. if v \<in> set ts \<and> tag_key v = k then Some (count_list ts v) else None)"
    using assms(1) by (auto simp: cluster_state_def)
  have mem: "(v, n) \<in> set (tc_counts c) \<longleftrightarrow> v \<in> set ts \<and> tag_key v = k \<and> n = count_list ts v" for v n
    unfolding map_of_eq_Some_iff [OF d, symmetric] m by auto
  obtain x xs where x: "tc_counts c = x # xs" using assms(2) by (cases "tc_counts c") auto
  obtain v n where b: "best_spelling x xs = (v, n)" by (cases "best_spelling x xs")
  then have cv: "canonical c = v" by (simp add: canonical_def x)
  have best: "(v, n) \<in> set (tc_counts c)"
    "\<And>u. u \<in> set ts \<Longrightarrow> tag_key u = k \<Longrightarrow> (count_list ts u, - int (length u)) \<le> (n, - int (length v))"
  proof -
    have e: "insert x (set xs) = set (tc_counts c)" by (simp add: x)
    note mx = best_spelling_max [of x xs, unfolded e b fst_conv snd_conv]
    show "(v, n) \<in> set (tc_counts c)" using mx by blast
    show "(count_list ts u, - int (length u)) \<le> (n, - int (length v))" if "u \<in> set ts" "tag_key u = k" for u
    proof -
      have "(u, count_list ts u) \<in> set (tc_counts c)" using mem that by blast
      with mx have "(snd (u, count_list ts u), - int (length (fst (u, count_list ts u)))) \<le> (n, - int (length v))"
        by blast
      then show ?thesis unfolding fst_conv snd_conv .
    qed
  qed
  have keys: "fst ` set (tc_counts c) = {v \<in> set ts. tag_key v = k}" using mem by force
  have "sum_list (map snd (tc_counts c)) = (\<Sum>v \<in> {v \<in> set ts. tag_key v = k}. count_list ts v)"
    unfolding sum_counts [OF d] keys by (intro sum.cong) (auto simp: m)
  also have "\<dots> = (\<Sum>v \<in> set (filter (\<lambda>v. tag_key v = k) ts). count_list (filter (\<lambda>v. tag_key v = k) ts) v)"
    by (intro sum.cong) (auto simp: count_list_filter)
  also have "\<dots> = length (filter (\<lambda>v. tag_key v = k) ts)" by (intro sum_count_set) auto
  finally have tot: "sum_list (map snd (tc_counts c)) = length (filter (\<lambda>v. tag_key v = k) ts)" .
  have "v \<in> set ts \<and> tag_key v = k \<and> n = count_list ts v" using best(1) mem by blast
  then have v: "v \<in> set ts" "tag_key v = k" "n = count_list ts v" by blast+
  have "count_list ts u < count_list ts v \<or> (count_list ts u = count_list ts v \<and> length v \<le> length u)"
    if "u \<in> set ts" "tag_key u = k" for u
    using best(2) [OF that] v(3) by auto
  then show ?thesis using v tot m by (auto simp: row_of_tags_def k cv list_all_iff)
qed

lemma two_spellings: "distinct (map fst cs) \<Longrightarrow> 2 \<le> length cs \<longleftrightarrow> (\<exists>u v. u \<noteq> v \<and> u \<in> fst ` set cs \<and> v \<in> fst ` set cs)"
proof (cases cs)
  case (Cons x xs)
  then show "distinct (map fst cs) \<Longrightarrow> ?thesis"
    by (cases xs) force+
qed simp

lemma tag_rows_of_scan:
  assumes "scan_tag_clusters groot listing before w = (w', Inr rows)"
    and "ts = concat (map text_tags (pages_read (resolved w groot) before
           (iter_alias_source_paths w listing (resolved w groot)) w))"
  shows "list_all (row_of_tags ts) rows \<and> sorted (map (\<lambda>r. (- int (tr_total r), tr_fold_key r)) rows) \<and>
    (k \<in> tr_fold_key ` set rows \<longleftrightarrow> (\<exists>u \<in> set ts. \<exists>v \<in> set ts. u \<noteq> v \<and> tag_key u = k \<and> tag_key v = k))"
proof -
  let ?cl = "fold add_tag ts []"
  have rows: "rows = rows_of_clusters ?cl"
    using assms by (auto simp: scan_tag_clusters_def Let_def dest!: scan_pages_tags split: prod.splits sum.splits)
  have dist: "distinct (map fst ?cl)" and st: "\<And>k c. map_of ?cl k = Some c \<Longrightarrow> cluster_state ts k c"
    "\<And>k. map_of ?cl k = None \<Longrightarrow> k \<notin> tag_key ` set ts"
  proof -
    show "distinct (map fst ?cl)" using clusters_of_tags [of ts] by blast
    show "cluster_state ts k c" if "map_of ?cl k = Some c" for k c
      using clusters_of_tags [of ts, THEN conjunct2, rule_format, of k] that by simp
    show "k \<notin> tag_key ` set ts" if "map_of ?cl k = None" for k
      using clusters_of_tags [of ts, THEN conjunct2, rule_format, of k] that by simp
  qed
  have mem: "c \<in> set (map snd ?cl) \<Longrightarrow> map_of ?cl (tc_fold_key c) = Some c" for c
  proof -
    assume "c \<in> set (map snd ?cl)"
    then obtain k where "map_of ?cl k = Some c" using dist by (auto simp: map_of_eq_Some_iff)
    then show ?thesis using st(1) by (auto simp: cluster_state_def)
  qed
  have "row_of_tags ts r" if "r \<in> set rows" for r
    using that mem st(1) cluster_row by (fastforce simp: rows rows_of_clusters_def)
  moreover have "(k \<in> tr_fold_key ` set rows) \<longleftrightarrow> (\<exists>c. map_of ?cl k = Some c \<and> 2 \<le> length (tc_counts c))"
    (is "?l \<longleftrightarrow> ?r")
  proof
    assume ?l
    then show ?r using mem by (force simp: rows rows_of_clusters_def)
  next
    assume ?r
    then obtain c where c: "map_of ?cl k = Some c" "2 \<le> length (tc_counts c)" by blast
    then have "tc_fold_key c = k" using st(1) by (auto simp: cluster_state_def)
    moreover have "c \<in> set (map snd ?cl)" using map_of_SomeD [OF c(1)] by force
    ultimately show ?l using c(2) by (force simp: rows rows_of_clusters_def)
  qed
  moreover have "(\<exists>c. map_of ?cl k = Some c \<and> 2 \<le> length (tc_counts c)) \<longleftrightarrow>
      (\<exists>u \<in> set ts. \<exists>v \<in> set ts. u \<noteq> v \<and> tag_key u = k \<and> tag_key v = k)"
  proof (cases "map_of ?cl k")
    case None
    then show ?thesis using st(2) by auto
  next
    case (Some c)
    have d: "distinct (map fst (tc_counts c))" using st(1) [OF Some] by (simp add: cluster_state_def)
    have "fst ` set (tc_counts c) = dom (map_of (tc_counts c))" by (simp add: dom_map_of_conv_image_fst)
    also have "\<dots> = {v \<in> set ts. tag_key v = k}" using st(1) [OF Some] by (auto simp: cluster_state_def dom_def)
    finally show ?thesis using two_spellings [OF d] Some by auto
  qed
  ultimately show ?thesis
    by (simp add: list_all_iff) (simp add: rows rows_of_clusters_def sorted_sort_key del: map_map)
qed

text \<open>
  C36. What the tag report counts. Over the texts that the scan has read there is a row for a
  case-folded tag exactly when two spellings of it occur; the row gives the number of valid
  occurrences of every spelling and their sum, and its canonical spelling is one that occurs
  most often, a shortest one of those.
\<close>

theorem tag_report_counts_spellings:
  assumes "scan_tag_clusters groot listing before w = (w', Inr rows)"
    and "ts = concat (map text_tags (pages_read (resolved w groot) before
           (iter_alias_source_paths w listing (resolved w groot)) w))"
  shows "list_all (row_of_tags ts) rows \<and> sorted (map (\<lambda>r. (- int (tr_total r), tr_fold_key r)) rows) \<and>
    (k \<in> tr_fold_key ` set rows \<longleftrightarrow> (\<exists>u \<in> set ts. \<exists>v \<in> set ts. u \<noteq> v \<and> tag_key u = k \<and> tag_key v = k))"
  by (rule tag_rows_of_scan [OF assms])

lemma tag_report_counts_spellings_witness:
  "\<exists>rows. snd (scan_tag_clusters [''g''] [[''g'', ''pages'', ''A.md'']] (\<lambda>_. [])
      (example_world (join [LF] [''a #Foo b #foo'', ''#foo and `#FOO`'', ''#bar'']) '''')) = Inr rows \<and>
    list_all (row_of_tags [''#Foo'', ''#foo'', ''#foo'', ''#bar'']) rows \<and> tr_fold_key ` set rows = {''foo''}"
proof -
  let ?w = "example_world (join [LF] [''a #Foo b #foo'', ''#foo and `#FOO`'', ''#bar'']) ''''"
  let ?ls = "[[''g'', ''pages'', ''A.md'']]" and ?b = "\<lambda>_ :: path. [] :: edit list"
  have ts: "[''#Foo'', ''#foo'', ''#foo'', ''#bar''] = concat (map text_tags (pages_read (resolved ?w [''g'']) ?b
           (iter_alias_source_paths ?w ?ls (resolved ?w [''g''])) ?w))" by code_simp
  have "(case snd (scan_tag_clusters [''g''] ?ls ?b ?w) of Inl _ \<Rightarrow> False | Inr rows \<Rightarrow> map tr_fold_key rows = [''foo''])"
    by code_simp
  then obtain w' rows where s: "scan_tag_clusters [''g''] ?ls ?b ?w = (w', Inr rows)" "map tr_fold_key rows = [''foo'']"
    by (cases "scan_tag_clusters [''g''] ?ls ?b ?w") (auto split: sum.splits)
  have "tr_fold_key ` set rows = {''foo''}" using arg_cong [OF s(2), of set] by simp
  then show ?thesis using tag_report_counts_spellings [OF s(1) ts] s(1) by auto
qed

subsection \<open>A run changes letter case only\<close>

lemma text_tags_shape: "raw \<in> set (text_tags text) \<Longrightarrow> take 1 raw = ''#'' \<and> list_all tag_char (drop 1 raw)"
proof -
  have scan: "(s, e) \<in> set (tag_scan i cs) \<Longrightarrow> i \<le> s \<and> s + 1 \<le> e \<and> e \<le> i + length cs \<and>
      list_all tag_char (slice (s + 1 - i) (e - i) cs)" for s e i cs
  proof (induction i cs rule: tag_scan.induct)
    case (2 i c cs)
    let ?t = "takeWhile tag_char cs"
    let ?d = "dropWhile tag_char cs" and ?e = "i + 1 + length ?t"
    have cs: "cs = ?t @ ?d" by simp
    have len: "length cs = length ?t + length ?d" by (metis cs length_append)
    show ?case
    proof (cases "c = CHR ''#'' \<and> ?t \<noteq> []")
      case hit: True
      show ?thesis
      proof (cases "(s, e) = (i, ?e)")
        case True
        have "slice 1 (1 + length ?t) (c # cs) = ?t"
          by (metis One_nat_def add_diff_cancel_left' cs drop0 drop_Suc_Cons slice_def append_eq_conv_conj)
        moreover have "list_all tag_char ?t" by (auto simp: list_all_iff dest: set_takeWhileD)
        ultimately show ?thesis using True len by simp
      next
        case False
        then have mem: "(s, e) \<in> set (tag_scan ?e ?d)" using 2(3) hit by (auto simp: Let_def)
        have ih: "?e \<le> s \<and> s + 1 \<le> e \<and> e \<le> ?e + length ?d \<and> list_all tag_char (slice (s + 1 - ?e) (e - ?e) ?d)"
          using 2(1) [OF refl refl hit mem] .
        have "slice (s + 1 - i) (e - i) (c # cs) = slice (s + 1 - ?e) (e - ?e) ?d"
        proof -
          have le: "length ?t + i \<le> s" using ih by simp
          have "drop (s + 1 - i) (c # cs) = drop (s - i) cs" using ih by (simp add: Suc_diff_le)
          also have "\<dots> = drop (s - i) (?t @ ?d)" by simp
          also have "\<dots> = drop (s - i - length ?t) ?d"
            using le by (simp only: drop_append) simp
          finally have "drop (s + 1 - i) (c # cs) = drop (s + 1 - ?e) ?d" using ih by (simp add: algebra_simps)
          moreover have "e - i - (s + 1 - i) = e - ?e - (s + 1 - ?e)" using ih by simp
          ultimately show ?thesis by (simp add: slice_def)
        qed
        then show ?thesis using ih len by simp
      qed
    next
      case False
      then have mem: "(s, e) \<in> set (tag_scan (i + 1) cs)" using 2(3) by (auto simp: Let_def)
      have ih: "i + 1 \<le> s \<and> s + 1 \<le> e \<and> e \<le> i + 1 + length cs \<and> list_all tag_char (slice (s + 1 - (i + 1)) (e - (i + 1)) cs)"
        using 2(2) [OF refl refl False mem] .
      have "slice (s + 1 - i) (e - i) (c # cs) = slice (s + 1 - (i + 1)) (e - (i + 1)) cs"
        using ih by (simp add: slice_def Suc_diff_le)
      then show ?thesis using ih by simp
    qed
  qed simp
  assume "raw \<in> set (text_tags text)"
  then obtain line s e where "(s, e) \<in> set (tag_scan 0 line)" "raw = CHR ''#'' # slice (s + 1) e line"
    by (auto simp: text_tags_def line_tags_def)
  then show ?thesis using scan [of s e 0 line] by simp
qed

lemma set_AList_update: "set (AList.update k v al) \<subseteq> insert (k, v) (set al)"
  by (induction al) auto

lemma build_mapping_mem:
  assumes "(v, c) \<in> set (build_mapping rows)"
  shows "\<exists>r \<in> set rows. c = tr_canonical r \<and> v \<in> fst ` set (tr_variants r)"
proof -
  have inner: "(v, c) \<in> set (fold (\<lambda>(variant, _) m. if variant \<noteq> tr_canonical r
        then AList.update variant (tr_canonical r) m else m) vs m) \<Longrightarrow>
      (v, c) \<in> set m \<or> (c = tr_canonical r \<and> v \<in> fst ` set vs)" for r m and vs :: "(string \<times> nat) list"
  proof (induction vs arbitrary: m)
    case (Cons x vs)
    from Cons(1) [OF Cons(2) [unfolded fold_simps]] show ?case
      using set_AList_update [of "fst x" "tr_canonical r" m] by (auto simp: case_prod_beta split: if_splits)
  qed simp
  have "(v, c) \<in> set (fold (\<lambda>r m. fold (\<lambda>(variant, _) m.
         if variant \<noteq> tr_canonical r then AList.update variant (tr_canonical r) m else m) (tr_variants r) m) rows m) \<Longrightarrow>
      (v, c) \<in> set m \<or> (\<exists>r \<in> set rows. c = tr_canonical r \<and> v \<in> fst ` set (tr_variants r))" for m
  proof (induction rows arbitrary: m)
    case (Cons r rows)
    from Cons(1) [OF Cons(2) [unfolded fold_simps]] show ?case by (auto dest!: inner)
  qed simp
  from this [of "[]"] assms show ?thesis by (simp add: build_mapping_def)
qed

lemma scan_case_mapping:
  assumes "scan_tag_clusters groot listing before w = (w', Inr rows)"
  shows "case_mapping (build_mapping rows)"
proof -
  define ts where "ts = concat (map text_tags (pages_read (resolved w groot) before
           (iter_alias_source_paths w listing (resolved w groot)) w))"
  note rep = tag_rows_of_scan [OF assms ts_def]
  have shape: "take 1 u = ''#'' \<and> list_all tag_char (drop 1 u)" if "u \<in> set ts" for u
    using that text_tags_shape by (auto simp: ts_def)
  have "same_tag (v, c)" if "(v, c) \<in> set (build_mapping rows)" for v c
  proof -
    obtain r where r: "r \<in> set rows" "c = tr_canonical r" "v \<in> fst ` set (tr_variants r)"
      using build_mapping_mem [OF \<open>(v, c) \<in> set (build_mapping rows)\<close>] by blast
    have row: "row_of_tags ts r" using rep r(1) by (auto simp: list_all_iff)
    have "fst ` set (tr_variants r) = dom (map_of (tr_variants r))" by (simp add: dom_map_of_conv_image_fst)
    then have v: "v \<in> set ts" "tag_key v = tr_fold_key r"
      using r(3) row by (auto simp: row_of_tags_def split: if_splits)
    have c: "c \<in> set ts" "tag_key c = tr_fold_key r" using r(2) row by (auto simp: row_of_tags_def)
    have "casefold u = casefold ''#'' @ tag_key u" if "u \<in> set ts" for u
      using shape [OF that] hash_decomp [of u] casefold_append [of "''#''" "drop 1 u"] by (simp add: tag_key_def)
    then show ?thesis using v c shape by (simp add: same_tag_def)
  qed
  then show ?thesis by (auto simp: case_mapping_def list_all_iff)
qed

lemma process_file_written:
  assumes "tag_unify_process_file exn p groot m False pc mx il w = (w', Inr (Some r, n, pc'))" and "0 < n"
  shows "\<exists>w1 text t. page_rmw_lock p (il_lock il) w = Inr w1 \<and> read_graph_file_text w1 p groot = Inr text \<and>
    files w' (resolved w p) =
      Some \<lparr>body = fst (unify_tags_in_text m (compute_page_protected_line_indices text) text), mtime = t\<rparr>"
proof -
  obtain w1 where lk: "page_rmw_lock p (il_lock il) w = Inr w1"
    using assms by (cases "page_rmw_lock p (il_lock il) w") (auto simp: tag_unify_process_file_def)
  obtain rel where rel: "relative_to p groot = Some rel"
    using assms lk by (cases "relative_to p groot")
      (auto simp: tag_unify_process_file_def split: sum.splits py_exn.splits if_splits)
  obtain tx where rd: "read_graph_file_text w1 p groot = Inr tx"
    using assms lk rel by (cases "read_graph_file_text w1 p groot")
      (auto simp: tag_unify_process_file_def split: py_exn.splits)
  obtain nt k where u: "unify_tags_in_text m (compute_page_protected_line_indices tx) tx = (nt, k)" by fastforce
  have k: "k \<noteq> 0" using assms lk rel rd u by (auto simp: tag_unify_process_file_def Let_def split: if_splits)
  obtain w3 where cp: "copy2 p (backup_path p) (apply_edits (il_copy il) w1) = Some w3"
    using assms lk rel rd u k by (cases "copy2 p (backup_path p) (apply_edits (il_copy il) w1)")
      (auto simp: tag_unify_process_file_def Let_def)
  let ?wr = "atomic_write_bytes p nt groot True None None (apply_edits (il_write il) w3)"
  have wr: "?wr = (w', Inr ())"
    using assms lk rel rd u k cp by (cases ?wr) (auto simp: tag_unify_process_file_def Let_def split: sum.splits)
  have "resolve w3 = resolve w"
    using lk cp by (auto simp: page_rmw_lock_def copy2_def split: sum.splits option.splits)
  then have "resolved (apply_edits (il_write il) w3) p = resolved w p" by (auto intro: resolved_cong)
  then show ?thesis using atomic_write_spec [OF wr] lk rd u by auto
qed

text \<open>
  C35. Unifying tags changes letter case only. Whatever pages the scan has read, and whatever
  other programs do meanwhile: a page that the run rewrites ends as the text read under its
  lock up to the case of letters, so no word, link or line of that text is lost.
\<close>

theorem tag_unify_changes_case_only:
  assumes "scan_tag_clusters groot listing before w0 = (w0', Inr rows)"
    and "tag_unify_process_file exn p groot' (build_mapping rows) False pc mx il w = (w', Inr (Some r, n, pc'))"
    and "0 < n"
  shows "\<exists>w1 text f. page_rmw_lock p (il_lock il) w = Inr w1 \<and> read_graph_file_text w1 p groot' = Inr text \<and>
    files w' (resolved w p) = Some f \<and> casefold (body f) = casefold text"
  using process_file_written [OF assms(2,3)] unify_casefold [OF scan_case_mapping [OF assms(1)]] by fastforce

definition quiet :: interference where
  "quiet = \<lparr>il_lock = Some [], il_copy = [], il_write = []\<rparr>"

lemma tag_unify_changes_case_only_witness:
  "\<exists>w' f. fst (tag_unify_process_file [] [''g'', ''pages'', ''A.md''] [''g''] [(''#Foo'', ''#foo'')] False 0 15 quiet
      (example_world (join [LF] [''a #foo b #foo'', ''#Foo'']) '''')) = w' \<and>
    files w' [''g'', ''pages'', ''A.md''] = Some f \<and> casefold (body f) = join [LF] [''a #foo b #foo'', ''#foo'']"
proof -
  let ?w = "example_world (join [LF] [''a #foo b #foo'', ''#Foo'']) ''''" and ?p = "[''g'', ''pages'', ''A.md'']"
  let ?s = "scan_tag_clusters [''g''] [?p] (\<lambda>_. []) ?w"
  have "(case snd ?s of Inl _ \<Rightarrow> False | Inr rows \<Rightarrow> build_mapping rows = [(''#Foo'', ''#foo'')])" by code_simp
  then obtain w0 rows where s: "?s = (w0, Inr rows)" "build_mapping rows = [(''#Foo'', ''#foo'')]"
    by (cases ?s) (auto split: sum.splits)
  let ?r = "tag_unify_process_file [] ?p [''g''] [(''#Foo'', ''#foo'')] False 0 15 quiet ?w"
  have "(case snd ?r of Inl _ \<Rightarrow> False | Inr (x, n, _) \<Rightarrow> x \<noteq> None \<and> n = 1)" by code_simp
  then obtain w' r pc' where r: "?r = (w', Inr (Some r, 1, pc'))"
    by (cases ?r) (auto split: sum.splits)
  have "guard_graph_mutation_from_env Some '''' (Some [''g'']) ?p = Inr ()" by code_simp
  then have lk: "page_rmw_lock ?p (il_lock quiet) ?w = Inr ?w"
    by (simp add: page_rmw_lock_def quiet_def example_world_def)
  have rd: "read_graph_file_text ?w ?p [''g''] = Inr (join [LF] [''a #foo b #foo'', ''#Foo''])" by code_simp
  have cf: "casefold (join [LF] [''a #foo b #foo'', ''#Foo'']) = join [LF] [''a #foo b #foo'', ''#foo'']" by code_simp
  have "resolved ?w ?p = ?p" by (simp add: resolved_def example_world_def)
  then show ?thesis
    using tag_unify_changes_case_only [OF s(1), unfolded s(2), OF r] lk rd cf r by auto
qed

text \<open>A dry run that no other program disturbs leaves the store as it is.\<close>

lemma tag_dry_run_files:
  "tag_unify_process_file exn p groot m True pc mx quiet w = (w', res) \<Longrightarrow> w' = w"
  by (auto simp: tag_unify_process_file_def page_rmw_lock_def quiet_def Let_def
      split: sum.splits option.splits py_exn.splits if_splits prod.splits)

lemma scan_pages_quiet: "scan_pages groot (\<lambda>_. []) ps cl w = (w', res) \<Longrightarrow> w' = w"
  by (induction ps arbitrary: cl) (auto simp: Let_def split: sum.splits py_exn.splits)

lemma tag_dry_run_changes_nothing:
  "lint_unify_logseq_tags exn groot True mx listing (\<lambda>_. []) listing' (\<lambda>_. quiet) w = (w', res) \<Longrightarrow> w' = w"
proof -
  have files: "tag_unify_files exn g m True mx (\<lambda>_. quiet) ps (rs, n, pc) w = (w2, r) \<Longrightarrow> w2 = w"
    for g m ps rs n pc w2 r
  proof (induction ps arbitrary: rs n pc)
    case (Cons p ps)
    then show ?case by (auto split: prod.splits sum.splits option.splits dest!: tag_dry_run_files)
  qed simp
  show "lint_unify_logseq_tags exn groot True mx listing (\<lambda>_. []) listing' (\<lambda>_. quiet) w = (w', res) \<Longrightarrow> w' = w"
    by (auto simp: lint_unify_logseq_tags_def scan_tag_clusters_def Let_def
        split: prod.splits sum.splits if_splits dest!: files scan_pages_quiet)
qed

subsection \<open>Where the tool departs from its intent\<close>

text \<open>
  \<open>splitlines\<close>, which numbers the protected lines, ends a line at a form feed and at other
  separators at which the rewriting does not: behind two form feeds the protection of a fenced
  line is two lines off.
\<close>

lemma form_feed_shifts_protection:
  "(let t = join [LF] [[CHR 0x0C, CHR 0x0C], ''```'', ''#Foo'', ''```''] in
     fst (unify_tags_in_text [(''#Foo'', ''#foo'')] (compute_page_protected_line_indices t) t) =
       join [LF] [[CHR 0x0C, CHR 0x0C], ''```'', ''#foo'', ''```''])"
  "(let t = join [LF] [''x'', ''```'', ''#Foo'', ''```''] in
     fst (unify_tags_in_text [(''#Foo'', ''#foo'')] (compute_page_protected_line_indices t) t) = t)"
  by code_simp+

text \<open>
  A dot belongs to a tag for the scan but ends a variant for the rewriting, which so changes the
  beginning of another tag; a tag right after a letter is counted but never rewritten.
\<close>

lemma dotted_tag_is_cut: "text_tags ''#Foo.Bar'' = [''#Foo.Bar''] \<and>
    unify_tags_in_text [(''#Foo'', ''#foo'')] {} ''#Foo.Bar'' = (''#foo.Bar'', 1)"
  by code_simp

lemma counted_but_not_rewritten: "text_tags ''a#Foo'' = [''#Foo''] \<and>
    unify_tags_in_text [(''#Foo'', ''#foo'')] {} ''a#Foo'' = (''a#Foo'', 0)"
  by code_simp

text \<open>The preview takes the page lock, which a read-only process is refused.\<close>

lemma read_only_preview_raises:
  "(case snd (lint_unify_logseq_tags [] [''g''] True 15 [[''g'', ''pages'', ''A.md'']] (\<lambda>_. [])
       [[''g'', ''pages'', ''A.md'']] (\<lambda>_. quiet) (example_world ''#foo #foo #Foo'' ''true'')) of
      Inl (PolicyError _) \<Rightarrow> True | _ \<Rightarrow> False)"
  by code_simp

text \<open>An edit that lands between the read under the lock and the write is overwritten.\<close>

lemma edit_during_unify_is_lost:
  "(let p = [''g'', ''pages'', ''A.md''] in
     map_option body (files (fst (tag_unify_process_file [] p [''g''] [(''#Foo'', ''#foo'')] False 0 15
       (quiet\<lparr>il_write := [(p, ''new words'')]\<rparr>) (example_world ''#Foo'' ''''))) p) = Some ''#foo'')"
  by code_simp

end
