(* ===== verification/DaemonCycle.thy ===== *)
theory DaemonCycle
  imports PageQueue SemanticWrite
begin

section \<open>The turns of the daemon\<close>

text \<open>
  Model of \<open>src/agent/daemon_llm_cycle.py\<close> and of the part of \<open>maintenance_daemon.py\<close> that drains
  the page queue: settling a page without the model, the turn of one page with the model, and
  the loops of a cycle with their budget.

  What runs outside is the record \<open>turn_env\<close> of a page: the answer of the language model and of
  the cognitive pipeline, the tokens they spend, and the edits of other programs in every
  window of the turn (the edits of the pipeline itself are among them). \<open>cycle_ctx\<close> is what
  the turn changes: the store, the daemon's state, the token counters, and the checkpoint,
  whose saves succeed or fail as \<open>cx_saves\<close> says. The snapshot of the state that a save takes is
  the state itself (its JSON round trip is a property of \<open>DaemonState\<close>). The registry of links,
  log records and the heartbeat thread, which saves the same state again, are left out.
\<close>

subsection \<open>Context\<close>

record cognitive_outcome =
  cg_pages_created :: "string list"
  cg_details :: "string list"

record lint_config =
  lc_any_enabled :: bool
  lc_semantic_routing :: bool
  lc_backpropagate_links :: bool
  lc_disable_semantic_corrections :: bool

record turn_env =
  te_iso :: string
  te_now :: rat
  te_exn_text :: "py_exn \<Rightarrow> string"
  te_lock_error :: bool
  te_snap :: "edit list"
  te_read :: "edit list"
  te_cognitive :: "edit list \<times> int \<times> int \<times> (py_exn + cognitive_outcome)"
  te_reread :: "edit list"
  te_resnap :: "edit list"
  te_llm :: "edit list \<times> int \<times> int \<times> (py_exn + index_result \<times> int \<times> int)"
  te_alias :: "alias_index option"
  te_titles :: "string list"
  te_stamp :: string
  te_il :: interference
  te_links :: "nat \<Rightarrow> nat \<Rightarrow> interference"
  te_settle :: "edit list"
  te_after_write :: "py_exn option"
  te_quarantine :: interference
  te_requarantine :: "edit list"
  te_ast :: "py_exn option"

record cycle_ctx =
  cx_world :: world
  cx_state :: daemon_state
  cx_prompt :: int
  cx_completion :: int
  cx_saves :: "bool list"
  cx_saved :: "daemon_state option"
  cx_persist_failed :: bool

abbreviation edit_world :: "edit list \<Rightarrow> cycle_ctx \<Rightarrow> cycle_ctx" where
  "edit_world es cx \<equiv> cx\<lparr>cx_world := apply_edits es (cx_world cx)\<rparr>"

abbreviation on_state :: "(daemon_state \<Rightarrow> daemon_state) \<Rightarrow> cycle_ctx \<Rightarrow> cycle_ctx" where
  "on_state f cx \<equiv> cx\<lparr>cx_state := f (cx_state cx)\<rparr>"

text \<open>\<open>sanitize_for_console\<close>: escape sequences, then control characters, are removed.\<close>

definition in_range :: "nat \<Rightarrow> nat \<Rightarrow> char \<Rightarrow> bool" where
  "in_range a b c \<longleftrightarrow> a \<le> code_of c \<and> code_of c \<le> b"

definition ansi_escape_at :: "string \<Rightarrow> nat option" where
  "ansi_escape_at s =
     (case s of
        e # c # rest \<Rightarrow>
          if e \<noteq> CHR 0x1B then None
          else if in_range 0x40 0x5A c \<or> in_range 0x5C 0x5F c then Some 2
          else if c \<noteq> CHR ''['' then None
          else let ps = takeWhile (in_range 0x30 0x3F) rest; rest1 = dropWhile (in_range 0x30 0x3F) rest;
                   is = takeWhile (in_range 0x20 0x2F) rest1
               in (case dropWhile (in_range 0x20 0x2F) rest1 of
                     [] \<Rightarrow> None
                   | f # _ \<Rightarrow> if in_range 0x40 0x7E f then Some (3 + length ps + length is) else None)
      | _ \<Rightarrow> None)"

function drop_escapes :: "string \<Rightarrow> string" where
  "drop_escapes [] = []"
| "drop_escapes (c # s) =
     (case ansi_escape_at (c # s) of
        None \<Rightarrow> c # drop_escapes s
      | Some n \<Rightarrow> drop_escapes (drop (n - 1) s))"
  by pat_completeness auto
termination by (relation "measure length") auto

definition control_char :: "char \<Rightarrow> bool" where
  "control_char c \<longleftrightarrow> in_range 0 8 c \<or> c = CHR 0x0B \<or> c = CHR 0x0C \<or> in_range 0x0E 0x1F c \<or> c = CHR 0x7F"

definition sanitize_for_console :: "string \<Rightarrow> string" where
  "sanitize_for_console s = filter (\<lambda>c. \<not> control_char c) (drop_escapes s)"

definition sync_live_telemetry :: "string option \<Rightarrow> bool \<Rightarrow> cycle_ctx \<Rightarrow> cycle_ctx" where
  "sync_live_telemetry cluster_id mark_running cx =
     on_state (\<lambda>s. s\<lparr>ds_session_prompt_tokens := cx_prompt cx, ds_session_completion_tokens := cx_completion cx,
       ds_current_cluster := (case cluster_id of None \<Rightarrow> ds_current_cluster s | Some c \<Rightarrow> Some c),
       ds_status := (if mark_running \<and> ds_status s \<noteq> ''stopped'' then ''running'' else ds_status s)\<rparr>) cx"

definition persist_daemon_state :: "bool \<Rightarrow> cycle_ctx \<Rightarrow> cycle_ctx" where
  "persist_daemon_state mark_running cx =
     (let cx1 = sync_live_telemetry None mark_running cx;
          ok = (case cx_saves cx1 of [] \<Rightarrow> True | b # _ \<Rightarrow> b);
          cx2 = cx1\<lparr>cx_saves := tl (cx_saves cx1), cx_persist_failed := \<not> ok\<rparr>
      in if ok then cx2\<lparr>cx_saved := Some (cx_state cx2)\<rparr> else cx2)"

definition save_cycle_checkpoint :: "cycle_ctx \<Rightarrow> cycle_ctx" where
  "save_cycle_checkpoint cx = persist_daemon_state False cx"

definition record_daemon_impact ::
  "cognitive_outcome option \<Rightarrow> correction_outcome option \<Rightarrow> nat \<Rightarrow> daemon_state \<Rightarrow> daemon_state" where
  "record_daemon_impact cognitive lint links s =
     (let count = (\<lambda>P ds. int (length (filter P ds)));
          hygienic = (\<lambda>d. startswith d ''properties:'' \<or> startswith d ''alias:'' \<or> startswith d ''marpa:'');
          s1 = (case cognitive of
                  None \<Rightarrow> s
                | Some cg \<Rightarrow>
                    s\<lparr>ds_ai_pages_created := ds_ai_pages_created s + int (length (cg_pages_created cg)),
                      ds_hygiene_corrections := ds_hygiene_corrections s + count hygienic (cg_details cg),
                      ds_ai_blocks_healed := ds_ai_blocks_healed s +
                        count (\<lambda>d. \<not> hygienic d \<and> startswith d ''split:'') (cg_details cg)\<rparr>);
          s2 = (case lint of None \<Rightarrow> s1 | Some out \<Rightarrow> s1\<lparr>ds_ai_blocks_healed := ds_ai_blocks_healed s1 + int (oc_applied out)\<rparr>)
      in if 0 < links then s2\<lparr>ds_ai_links_injected := ds_ai_links_injected s2 + int links\<rparr> else s2)"

definition set_entry :: "string \<Rightarrow> file_state \<Rightarrow> daemon_state \<Rightarrow> daemon_state" where
  "set_entry key rec s = s\<lparr>ds_files := AList.update key rec (ds_files s)\<rparr>"

definition entry :: "rat \<Rightarrow> string \<Rightarrow> string \<Rightarrow> json \<Rightarrow> file_state" where
  "entry m stamped status err = \<lparr>fs_mtime = m, fs_processed_at = stamped, fs_status = status, fs_error = err,
     fs_backoff_until = None, fs_backoff_seconds = None\<rparr>"

subsection \<open>Pages that need no model\<close>

text \<open>
  The page is annotated (a failure of that is only logged) and skipped with the time stamp it
  has then.
\<close>

definition quarantine_structural_lint ::
  "(nat \<Rightarrow> string) \<Rightarrow> turn_env \<Rightarrow> path \<Rightarrow> path \<Rightarrow> string \<Rightarrow> rat \<Rightarrow> string \<Rightarrow> string list \<Rightarrow> cycle_ctx \<Rightarrow>
     cycle_ctx \<times> (py_exn + unit)" where
  "quarantine_structural_lint str_of te groot p key m msg malformed cx =
     (case relative_to p groot of
        None \<Rightarrow> (cx, Inl (ValueError ''is not in the subpath''))
      | Some _ \<Rightarrow>
          (let w1 = apply_edits (te_requarantine te)
                      (fst (append_structural_lint_warning str_of groot p malformed (te_quarantine te) (cx_world cx)));
               recorded = (case read_file_mtime w1 p of None \<Rightarrow> m | Some r \<Rightarrow> r)
           in (on_state (set_entry key (entry recorded (te_iso te) ''skipped'' (JStr msg))) (cx\<lparr>cx_world := w1\<rparr>), Inr ())))"

definition malformed_message :: string where
  "malformed_message = ''Malformed UUID detected in block ref. Must be standard 36-char format.''"

text \<open>\<open>True\<close>: the page is settled.\<close>

definition try_fast_track_cycle_file ::
  "(nat \<Rightarrow> string) \<Rightarrow> turn_env \<Rightarrow> path \<Rightarrow> bool \<Rightarrow> path \<Rightarrow> cycle_ctx \<Rightarrow> cycle_ctx \<times> (py_exn + bool)" where
  "try_fast_track_cycle_file str_of te groot bootstrap_complete p cx =
     (case graph_relative_path_key (cx_world cx) p groot of
        Inl e \<Rightarrow> (cx, Inl e)
      | Inr key \<Rightarrow>
          (case read_file_mtime (cx_world cx) p of
             None \<Rightarrow> (cx, Inr False)
           | Some m \<Rightarrow>
               (let cx1 = edit_world (te_read te) (on_state (\<lambda>s. s\<lparr>ds_last_file := JStr (sanitize_for_console key)\<rparr>) cx)
                in case read_graph_file_text (cx_world cx1) p groot of
                     Inl OsError \<Rightarrow> (cx1, Inr False)
                   | Inl e \<Rightarrow> (cx1, Inl e)
                   | Inr content \<Rightarrow>
                       (let malformed = find_malformed_block_refs content (compute_page_protected_line_indices content)
                        in if malformed \<noteq> [] then
                             (case quarantine_structural_lint str_of te groot p key m malformed_message malformed cx1 of
                                (cx2, Inl e) \<Rightarrow> (cx2, Inl e)
                              | (cx2, Inr _) \<Rightarrow> (cx2, Inr True))
                           else if semantic_index_section_present content \<and> \<not> bootstrap_complete
                           then (on_state (set_entry key (entry m (te_iso te) ''skipped'' JNull)) cx1, Inr True)
                           else if strip content = []
                           then (on_state (set_entry key (entry m (te_iso te) ''skipped'' JNull)) cx1, Inr True)
                           else (cx1, Inr False)))))"

definition settle_journal_structural_cycle_file ::
  "turn_env \<Rightarrow> path \<Rightarrow> string option \<Rightarrow> path \<Rightarrow> cycle_ctx \<Rightarrow> cycle_ctx \<times> (py_exn + bool)" where
  "settle_journal_structural_cycle_file te groot cluster_id p cx =
     (case graph_relative_path_key (cx_world cx) p groot of
        Inl e \<Rightarrow> (cx, Inl e)
      | Inr key \<Rightarrow>
          (case read_file_mtime (cx_world cx) p of
             None \<Rightarrow> (cx, Inl OsError)
           | Some m \<Rightarrow>
               (let flight = (\<lambda>b s. if cluster_id = None then s else s\<lparr>ds_phase2_cluster_file_in_flight := b\<rparr>);
                    cx1 = save_cycle_checkpoint (sync_live_telemetry cluster_id True
                            (on_state (\<lambda>s. flight True (s\<lparr>ds_last_file := JStr (sanitize_for_console key)\<rparr>)) cx));
                    cx2 = edit_world (te_read te) cx1;
                    cx3 = edit_world (te_settle te) cx2;
                    (cx4, failure) =
                      (case read_graph_file_text (cx_world cx2) p groot of
                         Inl e \<Rightarrow> (cx2, Some e)
                       | Inr _ \<Rightarrow>
                           (case te_ast te of
                              Some e \<Rightarrow> (cx2, Some e)
                            | None \<Rightarrow> (cx3, if read_file_mtime (cx_world cx3) p = None then Some OsError else None)));
                    rec = (case failure of
                             Some e \<Rightarrow> entry m (te_iso te) ''error'' (JStr (te_exn_text te e))
                           | None \<Rightarrow> entry (case read_file_mtime (cx_world cx4) p of None \<Rightarrow> m | Some r \<Rightarrow> r)
                                        (te_iso te) ''processed'' JNull)
                in (save_cycle_checkpoint (on_state (\<lambda>s. flight False (set_entry key rec s)) cx4), Inr False))))"

subsection \<open>The turn of one page\<close>

text \<open>How the guarded part of a turn ends, with the flag of tokens reported as used.\<close>

datatype turn_end = Aborted bool | Completed bool | Raised py_exn bool

text \<open>
  The read of the page before the cognitive pipeline: baseline, then text; and the read after
  it: text, then baseline.
\<close>

definition first_read :: "turn_env \<Rightarrow> path \<Rightarrow> path \<Rightarrow> cycle_ctx \<Rightarrow> cycle_ctx \<times> (py_exn + baseline option \<times> string)" where
  "first_read te groot p cx =
     (let cx1 = edit_world (te_snap te) cx; base = map_option IntBase (occ_snapshot (cx_world cx1) p);
          cx2 = edit_world (te_read te) cx1
      in case stat_file (cx_world cx2) p of
           None \<Rightarrow> (cx2, Inr (base, []))
         | Some _ \<Rightarrow>
             (case read_graph_file_text (cx_world cx2) p groot of
                Inl e \<Rightarrow> (cx2, Inl e)
              | Inr content \<Rightarrow> (cx2, Inr (base, content))))"

definition cognitive_pass ::
  "turn_env \<Rightarrow> path \<Rightarrow> bool \<Rightarrow> lint_config \<Rightarrow> string option \<Rightarrow> path \<Rightarrow> baseline option \<times> string \<Rightarrow> cycle_ctx \<Rightarrow>
     cycle_ctx \<times> (py_exn + baseline option \<times> string)" where
  "cognitive_pass te groot bootstrap_complete cfg cluster_id p known cx =
     (if \<not> (bootstrap_complete \<and> lc_any_enabled cfg) then (cx, Inr known)
      else let (es, prompt, completion, r) = te_cognitive te;
          cx1 = (edit_world es cx)\<lparr>cx_prompt := cx_prompt cx + prompt, cx_completion := cx_completion cx + completion\<rparr>
      in case r of
           Inl e \<Rightarrow> (cx1, Inl e)
         | Inr cg \<Rightarrow>
             (let cx2 = save_cycle_checkpoint (sync_live_telemetry cluster_id True
                          (on_state (record_daemon_impact (Some cg) None 0) cx1));
                  cx3 = edit_world (te_reread te) cx2; cx4 = edit_world (te_resnap te) cx3
              in case stat_file (cx_world cx3) p of
                   None \<Rightarrow> (cx3, Inr known)
                 | Some _ \<Rightarrow>
                     (case read_graph_file_text (cx_world cx3) p groot of
                        Inl e \<Rightarrow> (cx3, Inl e)
                      | Inr content \<Rightarrow>
                          (cx4, Inr (case occ_snapshot (cx_world cx4) p of
                             None \<Rightarrow> fst known | Some n \<Rightarrow> Some (IntBase n), content)))))"

definition drifted :: "path \<Rightarrow> baseline option \<Rightarrow> world \<Rightarrow> bool" where
  "drifted p base w = (case base of None \<Rightarrow> False | Some b \<Rightarrow> file_mtime_drifted w p b)"

text \<open>The end of the turn after the model has answered: apply, settle, catalogue, embeddings.\<close>

definition apply_and_settle ::
  "turn_env \<Rightarrow> path \<Rightarrow> bool \<Rightarrow> lint_config \<Rightarrow> path \<Rightarrow> string \<Rightarrow> string \<Rightarrow> int \<times> int \<Rightarrow> baseline option \<Rightarrow>
     index_result \<Rightarrow> bool \<Rightarrow> cycle_ctx \<Rightarrow> cycle_ctx \<times> turn_end" where
  "apply_and_settle te groot bootstrap_complete cfg p key title before base result used cx =
     (let alias = (if bootstrap_complete then te_alias te else None);
          idx = (case te_alias te of None \<Rightarrow> empty_index | Some i \<Rightarrow> i)
      in case apply_semantic_page_result (te_stamp te) (te_titles te) idx groot p title result
                (bootstrap_complete \<and> lc_backpropagate_links cfg) alias (lc_disable_semantic_corrections cfg) base
                (te_il te) (te_links te) (cx_world cx) of
           (w1, Inl e) \<Rightarrow> (cx\<lparr>cx_world := w1\<rparr>, Raised e used)
         | (w1, Inr out) \<Rightarrow>
             (let cx1 = on_state (record_daemon_impact None (Some out) (oc_links_backpropagated out)) (cx\<lparr>cx_world := w1\<rparr>)
              in if oc_write_aborted out
                 then (cx1, Aborted (used \<or> fst before < cx_prompt cx1 \<or> snd before < cx_completion cx1))
                 else (let cx2 = edit_world (te_settle te) cx1
                       in case read_file_mtime (cx_world cx2) p of
                            None \<Rightarrow> (cx2, Raised OsError used)
                          | Some m \<Rightarrow>
                              (on_state (set_entry key (entry m (te_iso te) ''processed'' JNull)) cx2,
                               case te_after_write te of Some e \<Rightarrow> Raised e used | None \<Rightarrow> Completed used))))"

text \<open>The model is asked unless the page has changed; its answer is used unless the page has changed.\<close>

definition infer_and_apply ::
  "turn_env \<Rightarrow> path \<Rightarrow> bool \<Rightarrow> lint_config \<Rightarrow> path \<Rightarrow> string \<Rightarrow> string \<Rightarrow> int \<times> int \<Rightarrow> baseline option \<Rightarrow>
     cycle_ctx \<Rightarrow> cycle_ctx \<times> turn_end" where
  "infer_and_apply te groot bootstrap_complete cfg p key title before base cx =
     (if drifted p base (cx_world cx) then (cx, Aborted False)
      else let (es, prompt, completion, r) = te_llm te;
               cx1 = (edit_world es cx)\<lparr>cx_prompt := cx_prompt cx + prompt,
                 cx_completion := cx_completion cx + completion\<rparr>
           in case r of
                Inl e \<Rightarrow> (cx1, Raised e False)
              | Inr (result, used_prompt, used_completion) \<Rightarrow>
                  if drifted p base (cx_world cx1) then (cx1, Aborted False)
                  else apply_and_settle te groot bootstrap_complete cfg p key title before base result
                         (0 < used_prompt + used_completion) cx1)"

text \<open>The guarded part; the text is the last one that was read.\<close>

definition turn_body ::
  "turn_env \<Rightarrow> path \<Rightarrow> bool \<Rightarrow> lint_config \<Rightarrow> string option \<Rightarrow> path \<Rightarrow> string \<Rightarrow> string \<Rightarrow> cycle_ctx \<Rightarrow>
     cycle_ctx \<times> string \<times> turn_end" where
  "turn_body te groot bootstrap_complete cfg cluster_id p key title cx =
     (case first_read te groot p cx of
        (cx1, Inl e) \<Rightarrow> (cx1, [], Raised e False)
      | (cx1, Inr known) \<Rightarrow>
          (case cognitive_pass te groot bootstrap_complete cfg cluster_id p known cx1 of
             (cx2, Inl e) \<Rightarrow> (cx2, snd known, Raised e False)
           | (cx2, Inr (base, content)) \<Rightarrow>
               (let (cx3, fin) = infer_and_apply te groot bootstrap_complete cfg p key title
                                   (cx_prompt cx, cx_completion cx) base cx2
                in (cx3, content, fin))))"

text \<open>The two exception handlers.\<close>

definition handle_failure ::
  "(nat \<Rightarrow> string) \<Rightarrow> turn_env \<Rightarrow> path \<Rightarrow> path \<Rightarrow> string \<Rightarrow> rat \<Rightarrow> string \<Rightarrow> py_exn \<Rightarrow> cycle_ctx \<Rightarrow>
     cycle_ctx \<times> (py_exn + unit)" where
  "handle_failure str_of te groot p key m content e cx =
     (if e = OsError \<and> te_lock_error te then
        (case lookup_file_state (cx_world cx) groot (cx_state cx) p of
           Inl e' \<Rightarrow> (cx, Inl e')
         | Inr (k, prior) \<Rightarrow>
             (on_state (\<lambda>s. record_page_lock_backoff s k m (te_exn_text te e) prior (te_iso te) (te_now te)) cx, Inr ()))
      else (case e of
        MalformedBlockRef _ \<Rightarrow>
          quarantine_structural_lint str_of te groot p key m (te_exn_text te e)
            (find_malformed_block_refs content (compute_page_protected_line_indices content)) cx
      | _ \<Rightarrow> (on_state (set_entry key (entry m (te_iso te) ''error'' (JStr (te_exn_text te e)))) cx, Inr ())))"

text \<open>The counters of phase 2 at the end of a turn.\<close>

definition count_turn :: "bool \<Rightarrow> string \<Rightarrow> bool \<Rightarrow> daemon_state \<Rightarrow> daemon_state" where
  "count_turn bootstrap_complete key llm_called s =
     (let s1 = (if llm_called \<and> bootstrap_complete then s\<lparr>ds_phase2_llm_turns := ds_phase2_llm_turns s + 1\<rparr> else s)
      in if bootstrap_complete \<and> (case map_of (ds_files s1) key of None \<Rightarrow> False | Some rec \<Rightarrow> fs_status rec = ''processed'')
         then (let vault_total = ds_phase2_cognitive_total s1
               in s1\<lparr>ds_phase2_cognitive_done :=
                    (if 0 < vault_total then min vault_total (ds_phase2_cognitive_done s1 + 1)
                     else ds_phase2_cognitive_done s1 + 1)\<rparr>)
         else s1)"

definition process_llm_cycle_file ::
  "(nat \<Rightarrow> string) \<Rightarrow> turn_env \<Rightarrow> path \<Rightarrow> bool \<Rightarrow> lint_config \<Rightarrow> string option \<Rightarrow> path \<Rightarrow> cycle_ctx \<Rightarrow>
     cycle_ctx \<times> (py_exn + bool)" where
  "process_llm_cycle_file str_of te groot bootstrap_complete cfg cluster_id p cx =
     (if is_journal_page_path (cx_world cx) groot p then settle_journal_structural_cycle_file te groot cluster_id p cx
      else case graph_relative_path_key (cx_world cx) p groot of
        Inl e \<Rightarrow> (cx, Inl e)
      | Inr key \<Rightarrow>
          (case (read_file_mtime (cx_world cx) p, page_title_from_path (cx_world cx) groot p) of
             (None, _) \<Rightarrow> (cx, Inl OsError)
           | (Some m, Inl e) \<Rightarrow> (cx, Inl e)
           | (Some m, Inr title) \<Rightarrow>
               (let flight = (\<lambda>b s. if cluster_id = None then s else s\<lparr>ds_phase2_cluster_file_in_flight := b\<rparr>);
                    cx1 = save_cycle_checkpoint (sync_live_telemetry cluster_id True
                            (on_state (\<lambda>s. flight True (s\<lparr>ds_last_file := JStr (sanitize_for_console key)\<rparr>)) cx));
                    (cx2, content, fin) = turn_body te groot bootstrap_complete cfg cluster_id p key title cx1
                in case fin of
                     Aborted called \<Rightarrow> (on_state (flight False) cx2, Inr called)
                   | _ \<Rightarrow>
                       (let (cx3, failure) = (case fin of Raised e _ \<Rightarrow> handle_failure str_of te groot p key m content e cx2
                                              | _ \<Rightarrow> (cx2, Inr ()));
                            used = (case fin of Raised _ u \<Rightarrow> u | Completed u \<Rightarrow> u | Aborted u \<Rightarrow> u);
                            cx4 = on_state (flight False) cx3
                        in case failure of
                             Inl e \<Rightarrow> (cx4, Inl e)
                           | Inr _ \<Rightarrow>
                               (let called = (used \<or> cx_prompt cx1 < cx_prompt cx4 \<or> cx_completion cx1 < cx_completion cx4)
                                in (save_cycle_checkpoint (on_state (count_turn bootstrap_complete key called) cx4), Inr called))))))"

subsection \<open>The loops of a cycle\<close>

definition JOURNAL_CLUSTER_ID :: string where
  "JOURNAL_CLUSTER_ID = ''journals''"

definition CLUSTER_IDS_WITHOUT_FOCUS :: "string list" where
  "CLUSTER_IDS_WITHOUT_FOCUS = [JOURNAL_CLUSTER_ID]"

definition title_clusters :: "(string \<times> string list) list \<Rightarrow> (string \<times> string) list" where
  "title_clusters clusters = rev (concat (map (\<lambda>(cluster_id, titles). map (\<lambda>t. (t, cluster_id)) titles) clusters))"

type_synonym path_groups = "path list \<times> (string \<times> path list) list \<times> path list"

text \<open>Journal pages, the pages of each cluster, and the other pages.\<close>

fun sort_out_paths ::
  "world \<Rightarrow> path \<Rightarrow> (string \<times> string) list \<Rightarrow> path list \<Rightarrow> path_groups \<Rightarrow> py_exn + path_groups" where
  "sort_out_paths w groot to_cluster [] acc = Inr acc"
| "sort_out_paths w groot to_cluster (p # ps) (journals, by_cluster, unclustered) =
     (if is_journal_page_path w groot p
      then sort_out_paths w groot to_cluster ps (journals @ [p], by_cluster, unclustered)
      else case page_title_from_path w groot p of
        Inl e \<Rightarrow> Inl e
      | Inr title \<Rightarrow>
          (case map_of to_cluster title of
             None \<Rightarrow> sort_out_paths w groot to_cluster ps (journals, by_cluster, unclustered @ [p])
           | Some c \<Rightarrow>
               sort_out_paths w groot to_cluster ps
                 (journals, AList.update c ((case map_of by_cluster c of None \<Rightarrow> [] | Some qs \<Rightarrow> qs) @ [p]) by_cluster,
                  unclustered)))"

definition group_pending_by_cluster ::
  "world \<Rightarrow> path \<Rightarrow> (string \<times> string list) list \<Rightarrow> path list \<Rightarrow> py_exn + (string \<times> path list) list" where
  "group_pending_by_cluster w groot clusters pending =
     (case sort_out_paths w groot (title_clusters clusters) pending ([], [], []) of
        Inl e \<Rightarrow> Inl e
      | Inr (journals, by_cluster, unclustered) \<Rightarrow>
          Inr (sort_key fst by_cluster @ (if unclustered = [] then [] else [(''unclustered'', unclustered)]) @
               (if journals = [] then [] else [(JOURNAL_CLUSTER_ID, journals)])))"

definition set_status :: "string \<Rightarrow> daemon_state \<Rightarrow> daemon_state" where
  "set_status status s = s\<lparr>ds_status := status\<rparr>"

text \<open>
  The pass over the pages that need no model. \<open>stop p\<close>: a stop was requested before the turn of
  \<open>p\<close>. The result is the budget left, the pages settled, and whether the loop was stopped.
\<close>

fun fast_loop ::
  "(nat \<Rightarrow> string) \<Rightarrow> (path \<Rightarrow> turn_env) \<Rightarrow> (path \<Rightarrow> bool) \<Rightarrow> path \<Rightarrow> bool \<Rightarrow> path list \<Rightarrow> int \<Rightarrow> nat \<Rightarrow> cycle_ctx \<Rightarrow>
     cycle_ctx \<times> (py_exn + int \<times> nat \<times> bool)" where
  "fast_loop str_of env stop groot bc [] budget n cx = (cx, Inr (budget, n, False))"
| "fast_loop str_of env stop groot bc (p # ps) budget n cx =
     (if stop p then (on_state (set_status ''stopped'') cx, Inr (budget, n, True))
      else if budget \<le> 0 then (cx, Inr (budget, n, False))
      else case try_fast_track_cycle_file str_of (env p) groot bc p cx of
        (cx1, Inl e) \<Rightarrow> (cx1, Inl e)
      | (cx1, Inr True) \<Rightarrow>
          fast_loop str_of env stop groot bc ps (budget - 1) (n + 1) (save_cycle_checkpoint cx1)
      | (cx1, Inr False) \<Rightarrow> fast_loop str_of env stop groot bc ps budget n cx1)"

text \<open>The pages of one group; \<open>cluster_cycle\<close> and \<open>focus\<close> as in the source.\<close>

fun llm_files ::
  "(nat \<Rightarrow> string) \<Rightarrow> (path \<Rightarrow> turn_env) \<Rightarrow> (path \<Rightarrow> bool) \<Rightarrow> path \<Rightarrow> bool \<Rightarrow> lint_config \<Rightarrow> bool \<Rightarrow> string option \<Rightarrow>
     int \<Rightarrow> path list \<Rightarrow> int \<Rightarrow> cycle_ctx \<Rightarrow> cycle_ctx \<times> (py_exn + int \<times> bool)" where
  "llm_files str_of env stop groot bc cfg cluster_cycle focus budget [] turns cx = (cx, Inr (turns, False))"
| "llm_files str_of env stop groot bc cfg cluster_cycle focus budget (p # ps) turns cx =
     (if stop p then (on_state (set_status ''stopped'') cx, Inr (turns, True))
      else if budget \<le> turns then (cx, Inr (turns, False))
      else case process_llm_cycle_file str_of (env p) groot bc cfg focus p cx of
        (cx1, Inl e) \<Rightarrow> (cx1, Inl e)
      | (cx1, Inr called) \<Rightarrow>
          (let cx2 = (if cluster_cycle
                      then on_state (\<lambda>s. s\<lparr>ds_current_cluster_files_done := ds_current_cluster_files_done s + 1\<rparr>) cx1
                      else cx1)
           in llm_files str_of env stop groot bc cfg cluster_cycle focus budget ps (if called then turns + 1 else turns)
                (save_cycle_checkpoint (sync_live_telemetry None True cx2))))"

definition begin_group :: "bool \<Rightarrow> string \<Rightarrow> nat \<Rightarrow> cycle_ctx \<Rightarrow> cycle_ctx" where
  "begin_group cluster_cycle cluster_id n cx =
     (let shown = (\<lambda>c k s. s\<lparr>ds_current_cluster := c, ds_current_cluster_files_total := int k,
                      ds_current_cluster_files_done := 0, ds_phase2_cluster_file_in_flight := False\<rparr>)
      in if cluster_cycle
         then save_cycle_checkpoint (sync_live_telemetry (Some cluster_id) True (on_state (shown (Some cluster_id) n) cx))
         else on_state (shown None 0) cx)"

fun llm_groups ::
  "(nat \<Rightarrow> string) \<Rightarrow> (path \<Rightarrow> turn_env) \<Rightarrow> (path \<Rightarrow> bool) \<Rightarrow> (string \<Rightarrow> bool) \<Rightarrow> path \<Rightarrow> bool \<Rightarrow> lint_config \<Rightarrow> bool \<Rightarrow>
     int \<Rightarrow> (string \<times> path list) list \<Rightarrow> int \<Rightarrow> bool \<Rightarrow> cycle_ctx \<Rightarrow> cycle_ctx \<times> (py_exn + int \<times> bool)" where
  "llm_groups str_of env stop stop_group groot bc cfg cluster_cycle budget [] turns stopped cx = (cx, Inr (turns, stopped))"
| "llm_groups str_of env stop stop_group groot bc cfg cluster_cycle budget ((cluster_id, paths) # gs) turns stopped cx =
     (if stopped \<or> stop_group cluster_id then (on_state (set_status ''stopped'') cx, Inr (turns, True))
      else if budget \<le> turns then (cx, Inr (turns, False))
      else let focus = (if cluster_cycle \<and> cluster_id \<notin> set CLUSTER_IDS_WITHOUT_FOCUS then Some cluster_id else None)
           in case llm_files str_of env stop groot bc cfg cluster_cycle focus budget paths turns
                     (begin_group cluster_cycle cluster_id (length paths) cx) of
             (cx1, Inl e) \<Rightarrow> (cx1, Inl e)
           | (cx1, Inr (turns1, stopped1)) \<Rightarrow>
               llm_groups str_of env stop stop_group groot bc cfg cluster_cycle budget gs turns1 stopped1 cx1)"

text \<open>
  The part of \<open>run_cycle\<close> from the queue of the cycle to the end of its loops. \<open>fast\<close> and \<open>env\<close> are
  the environments of the two passes, \<open>listing\<close> and \<open>now\<close> the second look at the queue, \<open>clusters\<close>
  the current clusters of titles. The result is the pages settled without the model and the
  turns counted.
\<close>

definition drain_queue ::
  "(nat \<Rightarrow> string) \<Rightarrow> (path \<Rightarrow> turn_env) \<Rightarrow> (path \<Rightarrow> turn_env) \<Rightarrow> (path \<Rightarrow> bool) \<Rightarrow> bool \<Rightarrow> (path \<Rightarrow> bool) \<Rightarrow>
     (string \<Rightarrow> bool) \<Rightarrow> path \<Rightarrow> bool \<Rightarrow> bool \<Rightarrow> lint_config \<Rightarrow> (string \<times> string list) list \<Rightarrow> int \<Rightarrow> path list \<Rightarrow> rat \<Rightarrow>
     path list \<Rightarrow> cycle_ctx \<Rightarrow> cycle_ctx \<times> (py_exn + nat \<times> int)" where
  "drain_queue str_of fast env stop_fast stop_between stop stop_group groot bc bootstrap_failed cfg clusters
     max_files_per_cycle listing now pending cx =
     (case fast_loop str_of fast stop_fast groot bc pending (max 1 max_files_per_cycle) 0 cx of
        (cx1, Inl e) \<Rightarrow> (cx1, Inl e)
      | (cx1, Inr (budget, fast_count, stopped)) \<Rightarrow>
          if stopped \<or> stop_between
          then (let cx2 = sync_live_telemetry None False cx1 in (cx2\<lparr>cx_saved := Some (cx_state cx2)\<rparr>, Inr (fast_count, 0)))
          else (let cluster_cycle = (bc \<and> (lc_semantic_routing cfg \<or> lc_backpropagate_links cfg))
                in case (if bootstrap_failed \<and> \<not> bc then Inr []
                         else list_pending_files (cx_world cx1) listing groot now (cx_state cx1) (Some bc)) of
                     Inl e \<Rightarrow> (cx1, Inl e)
                   | Inr pending_llm \<Rightarrow>
                       (case (if cluster_cycle then group_pending_by_cluster (cx_world cx1) groot clusters pending_llm
                              else Inr [(''flat'', pending_llm)]) of
                          Inl e \<Rightarrow> (cx1, Inl e)
                        | Inr groups \<Rightarrow>
                            (case llm_groups str_of env stop stop_group groot bc cfg cluster_cycle budget groups 0 False cx1 of
                               (cx2, Inl e) \<Rightarrow> (cx2, Inl e)
                             | (cx2, Inr (turns, _)) \<Rightarrow> (cx2, Inr (fast_count, turns))))))"

subsection \<open>The budget of a cycle\<close>

lemma fast_loop_budget:
  "fast_loop str_of env stop groot bc ps budget n cx = (cx', Inr (b, n', stopped)) \<Longrightarrow> 0 \<le> budget \<Longrightarrow>
     0 \<le> b \<and> b + int n' = budget + int n"
proof (induction ps arbitrary: budget n cx)
  case (Cons p ps)
  show ?case
  proof (cases "stop p \<or> budget \<le> 0")
    case True
    with Cons.prems show ?thesis by (auto split: if_splits)
  next
    case False
    obtain cx1 r where t: "try_fast_track_cycle_file str_of (env p) groot bc p cx = (cx1, r)" by fastforce
    show ?thesis
    proof (cases r)
      case (Inl e)
      with Cons.prems False t show ?thesis by simp
    next
      case (Inr settled)
      show ?thesis
      proof (cases settled)
        case True
        with Cons.prems False t Inr
        have "fast_loop str_of env stop groot bc ps (budget - 1) (n + 1) (save_cycle_checkpoint cx1) = (cx', Inr (b, n', stopped))"
          by simp
        from Cons.IH [OF this] False show ?thesis by simp
      next
        case False': False
        with Cons.prems False t Inr have "fast_loop str_of env stop groot bc ps budget n cx1 = (cx', Inr (b, n', stopped))"
          by simp
        from Cons.IH [OF this] Cons.prems show ?thesis by simp
      qed
    qed
  qed
qed simp

lemma llm_files_budget:
  "llm_files str_of env stop groot bc cfg cc focus budget ps turns cx = (cx', Inr (turns', stopped)) \<Longrightarrow>
     turns \<le> budget \<Longrightarrow> turns \<le> turns' \<and> turns' \<le> budget"
proof (induction ps arbitrary: turns cx)
  case (Cons p ps)
  show ?case
  proof (cases "stop p \<or> budget \<le> turns")
    case True
    with Cons.prems show ?thesis by (auto split: if_splits)
  next
    case False
    obtain cx1 r where t: "process_llm_cycle_file str_of (env p) groot bc cfg focus p cx = (cx1, r)" by fastforce
    show ?thesis
    proof (cases r)
      case (Inl e)
      with Cons.prems False t show ?thesis by simp
    next
      case (Inr called)
      define t2 where "t2 = (if called then turns + 1 else turns)"
      have t2: "turns \<le> t2" "t2 \<le> budget" using False by (auto simp: t2_def)
      obtain cx2 where "llm_files str_of env stop groot bc cfg cc focus budget ps t2 cx2 = (cx', Inr (turns', stopped))"
        using Cons.prems(1) False t Inr by (auto simp: Let_def t2_def)
      from Cons.IH [OF this t2(2)] t2(1) show ?thesis by simp
    qed
  qed
qed simp

lemma llm_groups_budget:
  "llm_groups str_of env stop stop_group groot bc cfg cc budget gs turns st cx = (cx', Inr (turns', stopped)) \<Longrightarrow>
     turns \<le> budget \<Longrightarrow> turns \<le> turns' \<and> turns' \<le> budget"
proof (induction gs arbitrary: turns st cx)
  case (Cons g gs)
  obtain c ps where g: "g = (c, ps)" by (cases g)
  show ?case
  proof (cases "st \<or> stop_group c \<or> budget \<le> turns")
    case True
    with Cons.prems show ?thesis by (auto simp: g split: if_splits)
  next
    case False
    define focus where "focus = (if cc \<and> c \<notin> set CLUSTER_IDS_WITHOUT_FOCUS then Some c else None)"
    obtain cx1 r where t: "llm_files str_of env stop groot bc cfg cc focus budget ps turns (begin_group cc c (length ps) cx) = (cx1, r)"
      by fastforce
    show ?thesis
    proof (cases r)
      case (Inl e)
      with Cons.prems False t show ?thesis by (simp add: g focus_def)
    next
      case (Inr x)
      obtain t1 s1 where x: "x = (t1, s1)" by (cases x)
      have "turns \<le> t1 \<and> t1 \<le> budget" using llm_files_budget [of _ _ _ _ _ _ _ _ budget] t Inr x Cons.prems(2) by blast
      moreover have "llm_groups str_of env stop stop_group groot bc cfg cc budget gs t1 s1 cx1 = (cx', Inr (turns', stopped))"
        using Cons.prems(1) False t Inr x by (simp add: g focus_def)
      ultimately show ?thesis using Cons.IH by fastforce
    qed
  qed
qed simp

text \<open>
  C40. The budget of a cycle. The pages settled without the model and the turns counted together
  never exceed \<open>max_files_per_cycle\<close> (which counts as 1 when it is smaller), whatever the queue
  holds, the model answers and other programs do.
\<close>

theorem cycle_respects_budget:
  assumes "drain_queue str_of fast env stop_fast stop_between stop stop_group groot bc failed cfg clusters
      max_files listing now pending cx = (cx', Inr (fast_count, turns))"
  shows "0 \<le> turns \<and> int fast_count + turns \<le> max 1 max_files"
proof -
  obtain cx1 r where f: "fast_loop str_of fast stop_fast groot bc pending (max 1 max_files) 0 cx = (cx1, r)" by fastforce
  obtain b n st where r: "r = Inr (b, n, st)" using assms f by (cases r) (auto simp: drain_queue_def)
  have b: "0 \<le> b" "b + int n = max 1 max_files" using fast_loop_budget [OF f [unfolded r]] by simp_all
  show ?thesis
  proof (cases "st \<or> stop_between")
    case True
    then show ?thesis using assms f r b by (auto simp: drain_queue_def Let_def)
  next
    case False
    obtain gs cc cx2 s2 where "llm_groups str_of env stop stop_group groot bc cfg cc b gs 0 False cx1 = (cx2, Inr (turns, s2))"
      "fast_count = n"
      using assms f r False by (auto simp: drain_queue_def Let_def split: sum.splits prod.splits)
    from llm_groups_budget [OF this(1) b(1)] b this(2) show ?thesis by simp
  qed
qed

subsection \<open>The groups of a cycle\<close>

lemma update_values_mset:
  "mset (concat (map snd (AList.update c ((case map_of al c of None \<Rightarrow> [] | Some qs \<Rightarrow> qs) @ [p]) al))) =
     mset (concat (map snd al)) + {# p #}"
  by (induction al) auto

lemma sort_out_paths_mset:
  "sort_out_paths w groot to_cluster ps (j, bcl, u) = Inr (j', bcl', u') \<Longrightarrow>
     mset (concat (map snd bcl')) + mset u' + mset j' = mset (concat (map snd bcl)) + mset u + mset j + mset ps"
  by (induction ps arbitrary: j bcl u) (auto simp: update_values_mset split: if_splits sum.splits option.splits)

lemma mset_concat_snd: "mset (concat (map snd xs)) = sum_mset (image_mset (\<lambda>x. mset (snd x)) (mset xs))"
  by (induction xs) auto

lemma concat_sort_mset: "mset (concat (map snd (sort_key f al))) = mset (concat (map snd al))"
  by (simp add: mset_concat_snd)

text \<open>Every pending page is in exactly one group, as often as it is pending.\<close>

lemma groups_partition_queue:
  assumes "group_pending_by_cluster w groot clusters pending = Inr groups"
  shows "mset (concat (map snd groups)) = mset pending"
proof -
  obtain j bcl u where s: "sort_out_paths w groot (title_clusters clusters) pending ([], [], []) = Inr (j, bcl, u)"
    and g: "groups = sort_key fst bcl @ (if u = [] then [] else [(''unclustered'', u)]) @
               (if j = [] then [] else [(JOURNAL_CLUSTER_ID, j)])"
    using assms by (auto simp: group_pending_by_cluster_def split: sum.splits prod.splits)
  have "mset (concat (map snd groups)) = mset (concat (map snd bcl)) + mset u + mset j"
    by (simp add: g concat_sort_mset)
  then show ?thesis using sort_out_paths_mset [OF s] by simp
qed

subsection \<open>A turn settles its own page only\<close>

abbreviation ledger :: "cycle_ctx \<Rightarrow> (string \<times> file_state) list" where
  "ledger cx \<equiv> ds_files (cx_state cx)"

lemma sync_simps [simp]:
  "ledger (sync_live_telemetry c b cx) = ledger cx" "cx_world (sync_live_telemetry c b cx) = cx_world cx"
  "cx_prompt (sync_live_telemetry c b cx) = cx_prompt cx" "cx_completion (sync_live_telemetry c b cx) = cx_completion cx"
  by (simp_all add: sync_live_telemetry_def)

lemma save_simps [simp]:
  "ledger (save_cycle_checkpoint cx) = ledger cx" "cx_world (save_cycle_checkpoint cx) = cx_world cx"
  "cx_prompt (save_cycle_checkpoint cx) = cx_prompt cx" "cx_completion (save_cycle_checkpoint cx) = cx_completion cx"
  by (simp_all add: save_cycle_checkpoint_def persist_daemon_state_def Let_def)

lemma impact_simps [simp]: "ds_files (record_daemon_impact cg lint n s) = ds_files s"
  by (simp add: record_daemon_impact_def Let_def split: option.splits)

lemma count_turn_simps [simp]: "ds_files (count_turn bc key called s) = ds_files s"
  by (simp add: count_turn_def Let_def split: option.splits)

lemma set_entry_simps [simp]: "ds_files (set_entry key rec s) = AList.update key rec (ds_files s)"
  by (simp add: set_entry_def)

text \<open>\<open>own_entry key\<close>: from one ledger to the next, at most the entry of \<open>key\<close> has changed, to a settled one.\<close>

definition TURN_STATUSES :: "string list" where
  "TURN_STATUSES = [''processed'', ''skipped'', ''error'', ''lock_backoff'']"

definition own_entry :: "string \<Rightarrow> cycle_ctx \<Rightarrow> cycle_ctx \<Rightarrow> bool" where
  "own_entry key cx cx' \<longleftrightarrow> resolve (cx_world cx') = resolve (cx_world cx) \<and>
     (ledger cx' = ledger cx \<or>
      (\<exists>rec. fs_status rec \<in> set TURN_STATUSES \<and> map_of (ledger cx') = (map_of (ledger cx))(key \<mapsto> rec)))"

lemma own_entry_refl: "resolve (cx_world cx') = resolve (cx_world cx) \<Longrightarrow> ledger cx' = ledger cx \<Longrightarrow> own_entry key cx cx'"
  by (simp add: own_entry_def)

lemma own_entry_trans: "own_entry key cx cx1 \<Longrightarrow> own_entry key cx1 cx2 \<Longrightarrow> own_entry key cx cx2"
  by (auto simp: own_entry_def)

lemma own_entry_rec:
  "resolve (cx_world cx') = resolve (cx_world cx) \<Longrightarrow> ledger cx' = AList.update key rec (ledger cx) \<Longrightarrow>
     fs_status rec \<in> set TURN_STATUSES \<Longrightarrow> own_entry key cx cx'"
  unfolding own_entry_def by (metis update_conv')

lemma own_entry_set:
  "resolve (cx_world cx') = resolve (cx_world cx) \<Longrightarrow> ledger cx' = AList.update key (entry m iso2 st err) (ledger cx) \<Longrightarrow>
     st \<in> set TURN_STATUSES \<Longrightarrow> own_entry key cx cx'"
  by (rule own_entry_rec [where rec = "entry m iso2 st err"]) (simp_all add: entry_def)

text \<open>No handler changes how paths resolve.\<close>

lemma resolve_conditional: "atomic_write_bytes_if_unchanged fp data groot v vbr s w = (w', r) \<Longrightarrow> resolve w' = resolve w"
  using conditional_write_spec by (fastforce simp: conditional_write_post_def)

lemma resolve_lock: "page_rmw_lock p waiting w = Inr w' \<Longrightarrow> resolve w' = resolve w"
  by (auto simp: page_rmw_lock_def split: sum.splits option.splits)

lemma resolve_warning: "append_structural_lint_warning str_of groot p malformed il w = (w', r) \<Longrightarrow> resolve w' = resolve w"
  by (auto simp: append_structural_lint_warning_def Let_def split: option.splits sum.splits if_splits
      dest!: resolve_conditional resolve_lock)

lemma resolve_backprop_page: "backprop_page groot src c target tp il w = (w', r) \<Longrightarrow> resolve w' = resolve w"
  by (auto simp: backprop_page_def Let_def split: option.splits sum.splits if_splits prod.splits
      dest!: resolve_conditional resolve_lock)

lemma resolve_backprop_targets:
  "backprop_targets groot titles idx src c il n ts w = (w', r) \<Longrightarrow> resolve w' = resolve w"
proof (induction ts arbitrary: n w w' r)
  case (Cons t ts)
  show ?case
  proof (cases "t = src \<or> \<not> page_file_exists titles idx t \<or> resolve_page_path w groot t = None")
    case True
    then show ?thesis using Cons by (auto split: option.splits)
  next
    case False
    then obtain tp where tp: "resolve_page_path w groot t = Some tp" by auto
    obtain w1 r1 where b: "backprop_page groot src c t tp (il n) w = (w1, r1)" by fastforce
    show ?thesis
    proof (cases r1)
      case (Inl e)
      then show ?thesis using Cons.prems False tp b resolve_backprop_page [OF b] by simp
    next
      case (Inr m)
      obtain w2 r2 where t2: "backprop_targets groot titles idx src c il (Suc n) ts w1 = (w2, r2)" by fastforce
      have "w' = w2" using Cons.prems False tp b Inr t2 by (auto split: sum.splits)
      then show ?thesis using Cons.IH [OF t2] resolve_backprop_page [OF b] by simp
    qed
  qed
qed simp

lemma resolve_backprop_corrections:
  "backprop_corrections groot titles idx alias src us il k cs w = (w', r) \<Longrightarrow> resolve w' = resolve w"
proof (induction cs arbitrary: k w w' r)
  case (Cons c cs)
  show ?case
  proof (cases "co_lint c \<noteq> AutoWikilink \<or> co_uuid c \<notin> set us")
    case True
    then show ?thesis using Cons by auto
  next
    case False
    obtain w1 r1 where b: "backprop_targets groot titles idx src c (il k) 0 (new_wikilinks alias (co_original c) (co_corrected c)) w = (w1, r1)"
      by fastforce
    obtain w2 r2 where t2: "backprop_corrections groot titles idx alias src us il (Suc k) cs w1 = (w2, r2)" by fastforce
    have "w' = w1 \<or> w' = w2" using Cons.prems False b t2 by (auto split: sum.splits)
    then show ?thesis using Cons.IH [OF t2] resolve_backprop_targets [OF b] by auto
  qed
qed simp

lemma resolve_transaction:
  "semantic_transaction stamp groot p title result dis base il w = (w', r) \<Longrightarrow> resolve w' = resolve w"
proof -
  have aw: "atomic_write_bytes fp data g vbr v s w1 = (w2, r2) \<Longrightarrow> resolve w2 = resolve w1" for fp data g vbr v s w1 w2 r2
    using atomic_write_spec by blast
  show "semantic_transaction stamp groot p title result dis base il w = (w', r) \<Longrightarrow> resolve w' = resolve w"
    by (auto simp: semantic_transaction_def Let_def split: option.splits sum.splits if_splits prod.splits bool.splits
        dest!: resolve_conditional aw)
qed

lemma resolve_apply:
  "apply_semantic_page_result stamp titles idx groot p title result bp alias dis base il links w = (w', r) \<Longrightarrow> resolve w' = resolve w"
  by (auto simp: apply_semantic_page_result_def run_backlink_backpropagator_def
      split: option.splits sum.splits if_splits prod.splits bool.splits
      dest!: resolve_lock resolve_transaction resolve_backprop_corrections)

lemma key_cong: "resolve w' = resolve w \<Longrightarrow> graph_relative_path_key w' p groot = graph_relative_path_key w p groot"
  using resolved_cong [of w' w] by (simp add: graph_relative_path_key_def assert_path_within_graph_def)

lemma lookup_key: "lookup_file_state w groot s p = Inr (k, prior) \<Longrightarrow> graph_relative_path_key w p groot = Inr k"
  by (auto simp: lookup_file_state_def split: sum.splits option.splits)

lemma own_first_read: "first_read te groot p cx = (cx', r) \<Longrightarrow> own_entry key cx cx'"
  by (auto simp: first_read_def Let_def intro!: own_entry_refl split: option.splits sum.splits)

lemma own_cognitive: "cognitive_pass te groot bc cfg c p known cx = (cx', r) \<Longrightarrow> own_entry key cx cx'"
  by (auto simp: cognitive_pass_def Let_def intro!: own_entry_refl split: option.splits sum.splits prod.splits if_splits)

lemma own_apply:
  assumes "apply_and_settle te groot bc cfg p key title before base result used cx = (cx', fin)"
  shows "own_entry key cx cx'"
proof -
  obtain w1 r where a: "apply_semantic_page_result (te_stamp te) (te_titles te) (case te_alias te of None \<Rightarrow> empty_index | Some i \<Rightarrow> i)
      groot p title result (bc \<and> lc_backpropagate_links cfg) (if bc then te_alias te else None)
      (lc_disable_semantic_corrections cfg) base (te_il te) (te_links te) (cx_world cx) = (w1, r)" by fastforce
  have w1: "resolve w1 = resolve (cx_world cx)" by (rule resolve_apply [OF a])
  show ?thesis
  proof (cases r)
    case (Inl e)
    then show ?thesis using assms a w1 by (auto simp: apply_and_settle_def intro!: own_entry_refl)
  next
    case (Inr out)
    let ?m = "read_file_mtime (apply_edits (te_settle te) w1) p"
    show ?thesis
    proof (cases "oc_write_aborted out \<or> ?m = None")
      case True
      then show ?thesis using assms a w1 Inr
        by (auto simp: apply_and_settle_def Let_def intro!: own_entry_refl split: if_splits)
    next
      case False
      then obtain m where "?m = Some m" by auto
      then have "ledger cx' = AList.update key (entry m (te_iso te) ''processed'' JNull) (ledger cx)"
        "resolve (cx_world cx') = resolve (cx_world cx)"
        using assms a w1 Inr False by (auto simp: apply_and_settle_def Let_def)
      then show ?thesis by (intro own_entry_set) (auto simp: TURN_STATUSES_def)
    qed
  qed
qed

lemma own_infer:
  assumes "infer_and_apply te groot bc cfg p key title before base cx = (cx', fin)"
  shows "own_entry key cx cx'"
proof -
  obtain es np nc r where l: "te_llm te = (es, np, nc, r)" by (cases "te_llm te")
  define cx1 where "cx1 = (edit_world es cx)\<lparr>cx_prompt := cx_prompt cx + np, cx_completion := cx_completion cx + nc\<rparr>"
  have o1: "own_entry key cx cx1" by (rule own_entry_refl) (simp_all add: cx1_def)
  have o0: "own_entry key cx cx" by (rule own_entry_refl) simp_all
  have step: "infer_and_apply te groot bc cfg p key title before base cx =
      (if drifted p base (cx_world cx) then (cx, Aborted False)
       else case r of Inl e \<Rightarrow> (cx1, Raised e False)
         | Inr (result, up, uc) \<Rightarrow> if drifted p base (cx_world cx1) then (cx1, Aborted False)
             else apply_and_settle te groot bc cfg p key title before base result (0 < up + uc) cx1)"
    unfolding infer_and_apply_def l Let_def prod.case cx1_def by simp
  show ?thesis
    using assms o0 o1 own_entry_trans [OF o1 own_apply [where before = before]] unfolding step
    by (auto split: if_splits sum.splits)
qed

lemma own_turn_body:
  assumes "turn_body te groot bc cfg c p key title cx = (cx', content, fin)"
  shows "own_entry key cx cx'"
proof -
  obtain cx1 r1 where f: "first_read te groot p cx = (cx1, r1)" by fastforce
  have o1: "own_entry key cx cx1" by (rule own_first_read [OF f])
  show ?thesis
  proof (cases r1)
    case (Inl e)
    then show ?thesis using assms f o1 by (simp add: turn_body_def)
  next
    case r1: (Inr known)
    obtain cx2 r2 where g: "cognitive_pass te groot bc cfg c p known cx1 = (cx2, r2)" by fastforce
    have o2: "own_entry key cx cx2" using own_entry_trans [OF o1 own_cognitive [OF g]] .
    show ?thesis
    proof (cases r2)
      case (Inl e)
      then show ?thesis using assms f r1 g o2 by (simp add: turn_body_def)
    next
      case r2: (Inr k2)
      obtain b2 c2 where k2: "k2 = (b2, c2)" by (cases k2)
      obtain cx3 fin3 where a: "infer_and_apply te groot bc cfg p key title (cx_prompt cx, cx_completion cx) b2 cx2 = (cx3, fin3)"
        by fastforce
      have "cx' = cx3" using assms f r1 g r2 k2 a by (simp add: turn_body_def)
      then show ?thesis using own_entry_trans [OF o2 own_infer [OF a]] by simp
    qed
  qed
qed

lemma own_quarantine:
  "quarantine_structural_lint str_of te groot p key m msg mal cx = (cx', r) \<Longrightarrow> own_entry key cx cx'"
proof -
  obtain w1 r1 where w: "append_structural_lint_warning str_of groot p mal (te_quarantine te) (cx_world cx) = (w1, r1)" by fastforce
  assume q: "quarantine_structural_lint str_of te groot p key m msg mal cx = (cx', r)"
  show ?thesis
  proof (cases "relative_to p groot")
    case None
    then show ?thesis using q by (auto simp: quarantine_structural_lint_def intro!: own_entry_refl)
  next
    case (Some rel)
    then show ?thesis using q w resolve_warning [OF w]
      by (auto simp: quarantine_structural_lint_def Let_def TURN_STATUSES_def intro!: own_entry_set)
  qed
qed

lemma own_backoff:
  "own_entry k cx (on_state (\<lambda>s. record_page_lock_backoff s k m msg prior stamped now) cx)"
proof (cases "case prior of None \<Rightarrow> False | Some rec \<Rightarrow> fs_status rec = ''processed''")
  case True
  then show ?thesis by (intro own_entry_refl) (simp_all add: record_page_lock_backoff_def)
next
  case False
  then show ?thesis
    by (intro own_entry_rec) (auto simp: record_page_lock_backoff_def Let_def TURN_STATUSES_def)
qed

lemma own_failure:
  assumes "handle_failure str_of te groot p key m content e cx = (cx', r)"
    and "graph_relative_path_key (cx_world cx) p groot = Inr key"
  shows "own_entry key cx cx'"
proof (cases "e = OsError \<and> te_lock_error te")
  case True
  show ?thesis
  proof (cases "lookup_file_state (cx_world cx) groot (cx_state cx) p")
    case (Inl e')
    then show ?thesis using assms True by (auto simp: handle_failure_def intro!: own_entry_refl)
  next
    case (Inr kp)
    then obtain prior where "kp = (key, prior)" using lookup_key [of _ groot _ p] assms(2) by (cases kp) fastforce
    then show ?thesis using assms(1) True Inr own_backoff [of key cx] by (auto simp: handle_failure_def)
  qed
next
  case False
  have err: "own_entry key cx (on_state (set_entry key (entry m (te_iso te) ''error'' j)) cx)" for j
    by (rule own_entry_set) (auto simp: TURN_STATUSES_def)
  show ?thesis using assms(1) False err own_quarantine
    by (auto simp: handle_failure_def split: py_exn.splits)
qed

lemma own_journal:
  assumes "settle_journal_structural_cycle_file te groot c p cx = (cx', r)"
    and "graph_relative_path_key (cx_world cx) p groot = Inr key"
  shows "own_entry key cx cx'"
proof (cases "read_file_mtime (cx_world cx) p")
  case None
  then show ?thesis using assms by (auto simp: settle_journal_structural_cycle_file_def intro!: own_entry_refl)
next
  case (Some m)
  show ?thesis
    using assms Some
    by (auto simp: settle_journal_structural_cycle_file_def Let_def TURN_STATUSES_def intro!: own_entry_set
        split: sum.splits option.splits)
qed

text \<open>
  C39. A turn settles its own page only. Whatever the model, the pipeline and other programs do,
  a turn that ends, also one that raises, leaves the ledger entries of all other pages alone
  and gives its own page, if it changes it, one of the four settled states.
\<close>

theorem turn_settles_own_page:
  assumes "process_llm_cycle_file str_of te groot bc cfg c p cx = (cx', r)"
    and "graph_relative_path_key (cx_world cx) p groot = Inr key"
  shows "ledger cx' = ledger cx \<or>
    (\<exists>rec. fs_status rec \<in> {''processed'', ''skipped'', ''error'', ''lock_backoff''} \<and>
       map_of (ledger cx') = (map_of (ledger cx))(key \<mapsto> rec))"
proof -
  have "own_entry key cx cx'"
  proof (cases "is_journal_page_path (cx_world cx) groot p")
    case True
    then show ?thesis using assms own_journal by (simp add: process_llm_cycle_file_def)
  next
    case nj: False
    let ?flight = "\<lambda>b s. if c = None then s else s\<lparr>ds_phase2_cluster_file_in_flight := b\<rparr>"
    let ?cx1 = "save_cycle_checkpoint (sync_live_telemetry c True
      (on_state (\<lambda>s. ?flight True (s\<lparr>ds_last_file := JStr (sanitize_for_console key)\<rparr>)) cx))"
    show ?thesis
    proof (cases "read_file_mtime (cx_world cx) p = None \<or> (\<exists>e. page_title_from_path (cx_world cx) groot p = Inl e)")
      case True
      then have "cx' = cx" using assms nj by (auto simp: process_llm_cycle_file_def split: option.splits)
      then show ?thesis by (simp add: own_entry_refl)
    next
      case False
      then obtain m title where m: "read_file_mtime (cx_world cx) p = Some m"
        and title: "page_title_from_path (cx_world cx) groot p = Inr title"
        by (cases "page_title_from_path (cx_world cx) groot p") auto
      have o1: "own_entry key cx ?cx1" by (rule own_entry_refl) simp_all
      obtain cx2 content fin where b: "turn_body te groot bc cfg c p key title ?cx1 = (cx2, content, fin)"
        using prod_cases3 by blast
      have o2: "own_entry key cx cx2" by (rule own_entry_trans [OF o1 own_turn_body [OF b]])
      have k2: "graph_relative_path_key (cx_world cx2) p groot = Inr key"
        using o2 assms(2) key_cong [of "cx_world cx2" "cx_world cx"] by (simp add: own_entry_def)
      obtain cx3 f where h: "(case fin of Raised e _ \<Rightarrow> handle_failure str_of te groot p key m content e cx2
          | _ \<Rightarrow> (cx2, Inr ())) = (cx3, f)" by fastforce
      have o3: "own_entry key cx cx3"
        using h o2 own_entry_trans [OF o2 own_failure [OF _ k2]] by (cases fin) auto
      have fl: "ds_files (?flight b s) = ds_files s" for b s by simp
      have same: "own_entry key cy (on_state (?flight False) cy)"
        "own_entry key cy (save_cycle_checkpoint (on_state (count_turn bc key called) (on_state (?flight False) cy)))" for cy called
        by (rule own_entry_refl; simp add: fl)+
      have "own_entry key cx2 cx' \<or> own_entry key cx3 cx'"
      proof (cases fin)
        case (Aborted called)
        then show ?thesis
          using assms nj m title b same(1) [of cx2] unfolding process_llm_cycle_file_def Let_def by (simp cong: if_cong)
      next
        case (Completed used)
        then show ?thesis
          using assms nj m title b h same(2) [of cx3] unfolding process_llm_cycle_file_def Let_def by (auto cong: if_cong)
      next
        case (Raised e used)
        then show ?thesis
          using assms nj m title b h same [of cx3] unfolding process_llm_cycle_file_def Let_def
          by (cases f) (auto cong: if_cong)
      qed
      then show ?thesis using own_entry_trans [OF o2] own_entry_trans [OF o3] by blast
    qed
  qed
  then show ?thesis by (auto simp: own_entry_def TURN_STATUSES_def)
qed

subsection \<open>A turn writes over what was read\<close>

lemma transaction_unwritten:
  assumes "semantic_transaction stamp groot p title result dis (Some b) il w1 = (w2, Inr (False, out))"
    and "\<not> oc_write_aborted out"
  shows "\<exists>es. w2 = apply_edits es w1"
  using assms
  by (auto simp: semantic_transaction_def Let_def split: if_splits prod.splits sum.splits bool.splits option.splits)
    (metis apply_edits_Nil)+

lemma apply_over_baseline:
  assumes "apply_semantic_page_result stamp titles idx groot p title result False alias dis (Some (IntBase (mtime f))) il links w = (w', Inr out)"
    and "\<not> oc_write_aborted out" and "later p w0 w" and "resolved w0 p = p" and "files w0 p = Some f"
    and "clock_ok w0" and "1000000000000 \<le> mtime f"
  shows "(\<exists>es. w' = apply_edits es w) \<or>
    (\<exists>new_text t. plan_semantic_write stamp (universal_newlines (body f)) result dis = Inr (new_text, out) \<and>
      files w' p = Some \<lparr>body = new_text, mtime = t\<rparr>)"
proof -
  obtain w1 where lock: "page_rmw_lock p (il_lock il) w = Inr w1" and nd: "\<not> file_mtime_drifted w p (IntBase (mtime f))"
    using assms(1,2) by (cases "page_rmw_lock p (il_lock il) w") (auto simp: apply_semantic_page_result_def no_outcome_def split: if_splits)
  obtain written where tr: "semantic_transaction stamp groot p title result dis (Some (IntBase (mtime f))) il w1 = (w', Inr (written, out))"
    using assms(1) nd lock by (auto simp: apply_semantic_page_result_def split: prod.splits sum.splits bool.splits)
  show ?thesis
  proof (cases written)
    case False
    then have "semantic_transaction stamp groot p title result dis (Some (IntBase (mtime f))) il w1 = (w', Inr (False, out))"
      using tr by simp
    from transaction_unwritten [OF this assms(2)] obtain es where "w' = apply_edits es w1" by blast
    moreover obtain es1 where "w1 = apply_edits es1 w"
      using lock by (auto simp: page_rmw_lock_def split: sum.splits option.splits)
    ultimately show ?thesis by (metis apply_edits_append)
  next
    case True
    obtain prev new_text where rd: "read_graph_file_text w1 p groot = Inr prev"
      and plan: "plan_semantic_write stamp prev result dis = Inr (new_text, out)"
      and wr: "atomic_write_bytes_if_unchanged p new_text groot (IntBase (mtime f)) True (Some (''semantic index update on '' @ title))
         (apply_edits (il_write il) (apply_edits (il_copy il) w1)) = (w', Inr True)"
      using semantic_transaction_written tr True by (metis (full_types))
    let ?w2 = "apply_edits (il_write il) (apply_edits (il_copy il) w1)"
    have l1: "later p w0 w1" by (rule later_trans [OF assms(3) page_rmw_lock_later [OF lock]])
    have l2: "later p w1 ?w2" using later_edits later_trans by blast
    have l: "later (resolved w0 p) w0 ?w2" unfolding assms(4) using l1 l2 by (rule later_trans)
    have fin: "files ?w2 p = Some f \<and> (\<exists>t. files w' p = Some \<lparr>body = new_text, mtime = t\<rparr>)"
      using cond_write.write_serialised [OF wr l assms(6) _ assms(7)] assms(4,5) by simp
    have "files w1 p = Some f"
      using fin assms(5,6) by (intro later_unchanged [OF l1 l2]) (auto simp: clock_ok_def)
    moreover have "resolved w1 p = p" using l1 assms(4) by (auto simp: later_def resolved_def)
    ultimately have "prev = universal_newlines (body f)"
      using rd by (auto simp: read_graph_file_text_def assert_path_within_graph_def Let_def split: sum.splits if_splits option.splits)
    then show ?thesis using plan fin by blast
  qed
qed

lemma infer_completed:
  assumes "infer_and_apply te groot bc cfg p key title before base cx = (cx', Completed used)"
  obtains es result r w' out where "\<not> drifted p base (cx_world cx)"
    "apply_semantic_page_result (te_stamp te) (te_titles te) (case te_alias te of None \<Rightarrow> empty_index | Some i \<Rightarrow> i)
       groot p title result (bc \<and> lc_backpropagate_links cfg) (if bc then te_alias te else None)
       (lc_disable_semantic_corrections cfg) base (te_il te) (te_links te) (apply_edits es (cx_world cx)) = (w', Inr out)"
    "\<not> oc_write_aborted out" "cx_world cx' = apply_edits (te_settle te) w'"
proof -
  obtain es np nc r where l: "te_llm te = (es, np, nc, r)" by (cases "te_llm te")
  obtain result up uc where r: "r = Inr (result, up, uc)"
    using assms l by (cases r) (auto simp: infer_and_apply_def Let_def split: if_splits)
  define cx1 where "cx1 = (edit_world es cx)\<lparr>cx_prompt := cx_prompt cx + np, cx_completion := cx_completion cx + nc\<rparr>"
  have nd: "\<not> drifted p base (cx_world cx)"
    and a: "apply_and_settle te groot bc cfg p key title before base result (0 < up + uc) cx1 = (cx', Completed used)"
    using assms l r by (auto simp: infer_and_apply_def Let_def cx1_def split: if_splits)
  obtain w' o1 where s: "apply_semantic_page_result (te_stamp te) (te_titles te) (case te_alias te of None \<Rightarrow> empty_index | Some i \<Rightarrow> i)
       groot p title result (bc \<and> lc_backpropagate_links cfg) (if bc then te_alias te else None)
       (lc_disable_semantic_corrections cfg) base (te_il te) (te_links te) (cx_world cx1) = (w', o1)" by fastforce
  obtain out where out: "o1 = Inr out" using a s by (cases o1) (auto simp: apply_and_settle_def)
  have "\<not> oc_write_aborted out" "cx_world cx' = apply_edits (te_settle te) w'"
    using a s out by (auto simp: apply_and_settle_def Let_def split: if_splits option.splits)
  then show ?thesis using that nd s out by (simp add: cx1_def)
qed


subsection \<open>Examples\<close>

definition undisturbed :: interference where
  "undisturbed = \<lparr>il_lock = Some [], il_copy = [], il_write = []\<rparr>"

definition quiet_turn :: turn_env where
  "quiet_turn = \<lparr>te_iso = ''t'', te_now = 0, te_exn_text = (\<lambda>_. ''failed''), te_lock_error = False, te_snap = [], te_read = [],
     te_cognitive = ([], 0, 0, Inr \<lparr>cg_pages_created = [], cg_details = []\<rparr>), te_reread = [], te_resnap = [],
     te_llm = ([], 10, 5, Inr (small_result [], 10, 5)), te_alias = None, te_titles = [], te_stamp = ''now'',
     te_il = undisturbed, te_links = (\<lambda>_ _. undisturbed), te_settle = [], te_after_write = None,
     te_quarantine = undisturbed, te_requarantine = [], te_ast = None\<rparr>"

definition plain_config :: "bool \<Rightarrow> lint_config" where
  "plain_config enabled = \<lparr>lc_any_enabled = enabled, lc_semantic_routing = False, lc_backpropagate_links = False,
     lc_disable_semantic_corrections = True\<rparr>"

definition start_ctx :: "world \<Rightarrow> cycle_ctx" where
  "start_ctx w = \<lparr>cx_world = w, cx_state = fresh_state, cx_prompt = 0, cx_completion = 0, cx_saves = [],
     cx_saved = None, cx_persist_failed = False\<rparr>"

abbreviation page_A :: path where "page_A \<equiv> [''g'', ''pages'', ''A.md'']"
abbreviation page_B :: path where "page_B \<equiv> [''g'', ''pages'', ''B.md'']"

abbreviation run_turn :: "turn_env \<Rightarrow> bool \<Rightarrow> bool \<Rightarrow> cycle_ctx \<times> (py_exn + bool)" where
  "run_turn te bc enabled \<equiv> process_llm_cycle_file (\<lambda>_. ''0'') te [''g''] bc (plain_config enabled) None page_A
     (start_ctx (example_world ''- a'' ''''))"

lemma turn_settles_own_page_witness:
  "\<exists>cx' r. run_turn quiet_turn False False = (cx', r) \<and>
     map fst (ledger cx') = [''pages/A.md''] \<and> map (\<lambda>(k, rec). fs_status rec) (ledger cx') = [''processed''] \<and>
     (ledger cx' = ledger (start_ctx (example_world ''- a'' '''')) \<or>
      (\<exists>rec. fs_status rec \<in> {''processed'', ''skipped'', ''error'', ''lock_backoff''} \<and>
       map_of (ledger cx') = (map_of (ledger (start_ctx (example_world ''- a'' ''''))))(''pages/A.md'' \<mapsto> rec)))"
proof -
  obtain cx' r where t: "run_turn quiet_turn False False = (cx', r)" by fastforce
  have "map (\<lambda>(k, rec). (k, fs_status rec)) (ledger (fst (run_turn quiet_turn False False))) = [(''pages/A.md'', ''processed'')]"
    by code_simp
  then have l: "map fst (ledger cx') = [''pages/A.md'']" "map (\<lambda>(k, rec). fs_status rec) (ledger cx') = [''processed'']"
    using t by (auto simp: map_eq_Cons_conv)
  have k: "graph_relative_path_key (cx_world (start_ctx (example_world ''- a'' ''''))) page_A [''g''] = Inr ''pages/A.md''"
    by code_simp
  note own = turn_settles_own_page [OF t k]
  show ?thesis by (rule exI [of _ cx'], rule exI [of _ r], intro conjI t l own)
qed


lemma cycle_respects_budget_witness:
  "\<exists>cx' n k. drain_queue (\<lambda>_. ''0'') (\<lambda>_. quiet_turn) (\<lambda>_. quiet_turn) (\<lambda>_. False) False (\<lambda>_. False) (\<lambda>_. False) [''g''] False False
      (plain_config False) [] 1 [page_A] 0 [page_A] (start_ctx (example_world ''- a'' '''')) = (cx', Inr (n, k)) \<and>
    n = 0 \<and> k = 1 \<and> int n + k \<le> 1"
proof -
  let ?d = "drain_queue (\<lambda>_. ''0'') (\<lambda>_. quiet_turn) (\<lambda>_. quiet_turn) (\<lambda>_. False) False (\<lambda>_. False) (\<lambda>_. False) [''g''] False False
      (plain_config False) [] 1 [page_A] 0 [page_A] (start_ctx (example_world ''- a'' ''''))"
  have "(case snd ?d of Inr (n, k) \<Rightarrow> n = 0 \<and> k = 1 | _ \<Rightarrow> False)" by code_simp
  then obtain cx' n k where d: "?d = (cx', Inr (n, k))" "n = 0" "k = 1"
    by (cases ?d) (auto split: sum.splits)
  show ?thesis using cycle_respects_budget [OF d(1)] d by simp
qed

subsection \<open>Turns that go wrong\<close>

text \<open>
  The time stamp of the page is taken before the guarded part: a page that is removed after the
  queue was listed makes the turn raise, and nothing above it catches the exception.
\<close>

lemma removed_page_stops_daemon:
  "snd (process_llm_cycle_file (\<lambda>_. ''0'') quiet_turn [''g''] False (plain_config False) None page_B
     (start_ctx (example_world ''- a'' ''''))) = Inl OsError"
  by code_simp

text \<open>
  A failure of the catalogue or of the embeddings after the page was written replaces the
  processed entry by an error with the time stamp from before the write: the page is pending
  again at once, and every cycle asks the model again.
\<close>

definition pending_after :: "cycle_ctx \<times> (py_exn + bool) \<Rightarrow> bool option" where
  "pending_after t = (case page_is_pending (cx_world (fst t)) [''g''] 1 False (cx_state (fst t)) page_A of
     Inl _ \<Rightarrow> None | Inr b \<Rightarrow> Some b)"

lemma late_failure_requeues_page:
  "(let w = (example_world ''- a'' '''')\<lparr>clock := 1700000005000000000\<rparr>;
        t = process_llm_cycle_file (\<lambda>_. ''0'') (quiet_turn\<lparr>te_after_write := Some OsError\<rparr>) [''g''] False (plain_config False)
              None page_A (start_ctx w) in
     map (\<lambda>(k, rec). fs_status rec) (ledger (fst t)) = [''error''] \<and> pending_after t = Some True)"
  by code_simp

text \<open>An edit between the write and the time stamp of the entry counts as processed.\<close>

lemma edit_before_settling_is_not_processed:
  "(let t = run_turn (quiet_turn\<lparr>te_settle := [(page_A, ''- new words'')]\<rparr>) False False in
     map_option body (files (cx_world (fst t)) page_A) = Some ''- new words'' \<and> pending_after t = Some False)"
  by code_simp

text \<open>A turn that aborts after the model has answered is not counted against the budget.\<close>

lemma conflict_turn_is_not_counted:
  "(let t = run_turn (quiet_turn\<lparr>te_llm := ([(page_A, ''- user'')], 10, 5, Inr (small_result [], 10, 5))\<rparr>) False False in
     snd t = Inr False \<and> cx_prompt (fst t) = 10 \<and> pending_after t = Some True)"
  by code_simp

text \<open>
  After the pipeline the text is read before its baseline is taken: an edit in between is
  annotated with an index of a text the model did not see.
\<close>

lemma edit_after_pipeline_is_judged_unread:
  "(let t = turn_body (quiet_turn\<lparr>te_resnap := [(page_A, ''- user'')]\<rparr>) [''g''] True (plain_config True) None page_A ''pages/A.md'' ''A''
       (start_ctx (example_world ''- a'' ''''))
    in snd t = (''- a'', Completed True) \<and>
       map_option body (files (cx_world (fst t)) page_A) = Some (''- user'' @ format_index_section ''now'' (small_result []) []))"
  by code_simp

text \<open>A page settled without the model uses up the budget of the turns with the model.\<close>

lemma fast_track_uses_budget:
  "(let w = (example_world '' '' '''')\<lparr>files := (files (example_world '' '' ''''))(page_B \<mapsto> \<lparr>body = ''- b'', mtime = 5\<rparr>)\<rparr> in
    snd (drain_queue (\<lambda>_. ''0'') (\<lambda>_. quiet_turn) (\<lambda>_. quiet_turn) (\<lambda>_. False) False (\<lambda>_. False) (\<lambda>_. False) [''g''] False False
      (plain_config False) [] 1 [page_A, page_B] 0 [page_A, page_B] (start_ctx w)) = Inr (1, 0))"
  by code_simp

end
