(* ===== verification/Spec2Isabelle.thy ===== *)
theory Spec2Isabelle
  imports Prelude Fences Mldoc Blocks BlockRefs Safety FileStore PageProps PropEdit Reparent SplitBlocks Bm25 GraphPaths DaemonState PageQueue AliasIndex JsonRepair Locks Backlinks SemanticWrite MasterCatalog CatalogPages AdvancedQuery SemCache TagUnify DaemonCycle
begin

section \<open>Matryca Plumber: a verification library\<close>

text \<open>
  Matryca Plumber maintains a Logseq graph (a directory of Markdown pages) for people and for
  language models. A daemon and a set of tool handlers read pages, decide on a change, and
  write it back while Logseq itself and other processes may edit the same files. The core of
  the program, modelled here, is the code under \<open>src/src/graph\<close> that finds and rewrites the
  right lines of a page, the write path that protects edits of others, the indexes kept
  warm between writes, and the state the daemon keeps.

  \<^bold>\<open>Theories\<close> (each names the files it models in its opening text).
    \<^item> \<open>Prelude\<close>: Python strings and lists as HOL lists, \<open>splitlines\<close>, line structure lemmas.
    \<^item> \<open>Fences\<close>: \<open>global_fence_scanner.py\<close>, the dead zones of a page (code fences, query
      blocks, HTML comments). The three passes are one generic scan; the locale of a scan that
      skips fenced lines gives the masking lemmas.
    \<^item> \<open>Mldoc\<close>: \<open>mldoc_properties.py\<close>, \<open>mldoc_guards.py\<close>, property lines and list values.
    \<^item> \<open>Blocks\<close>: the line functions of \<open>markdown_blocks.py\<close>, which find a block by UUID.
    \<^item> \<open>BlockRefs\<close>: \<open>logseq_uuid.py\<close>, UUID shapes and malformed block references.
    \<^item> \<open>Safety\<close>: \<open>safety/validators.py\<close>, \<open>safety/write_policy.py\<close>.
    \<^item> \<open>FileStore\<close>: the optimistic concurrency control and atomic writes of
      \<open>markdown_blocks.py\<close>, with \<open>path_sandbox.py\<close>, \<open>page_path.py\<close>, \<open>io_retry.py\<close>. The
      state is a \<open>world\<close> of files with time stamps, a clock, the environment and a script of
      outcomes of system calls: a failed attempt to replace a file may be followed by edits of
      other programs. The locale \<open>page_writer\<close> states what a conditional writer promises.
    \<^item> \<open>PageProps\<close>: \<open>page_properties.py\<close>, reading and injecting page properties.
    \<^item> \<open>PropEdit\<close>: \<open>property_line_edit.py\<close>, \<open>regex_policy.py\<close>, the block property editor.
    \<^item> \<open>Reparent\<close>, \<open>SplitBlocks\<close>: \<open>reparent_blocks.py\<close>, \<open>split_large_blocks.py\<close>.
    \<^item> \<open>Bm25\<close>: the search corpus of \<open>generational_cache.py\<close> and its query cache. The locale
      \<open>doc_index\<close> is the contract of an incrementally maintained index.
    \<^item> \<open>GraphPaths\<close>: titles and file names (\<open>page_path.py\<close>), the keys and listings of pages
      (\<open>_shared.py\<close>, \<open>alias_index.py\<close>).
    \<^item> \<open>AliasIndex\<close>: \<open>alias_index.py\<close>, the index of page aliases and its patching.
    \<^item> \<open>DaemonState\<close>: \<open>daemon_state.py\<close>, \<open>journey_log.py\<close>, the checkpoint of the daemon: its
      JSON form, key migration, lock backoff, and saving as a list of file system steps that a
      crash may cut anywhere.
    \<^item> \<open>PageQueue\<close>: \<open>daemon_page_queue.py\<close>, which pages the daemon still has to process.
    \<^item> \<open>JsonRepair\<close>: \<open>json_repair.py\<close>, the repair of model output that should be JSON.
    \<^item> \<open>Locks\<close>: \<open>page_write_lock.py\<close>, \<open>platform_lock.py\<close>, the page locks as a step relation on
      threads, lock objects, sidecar files and \<open>flock\<close>s, with its reachable states.
    \<^item> \<open>Backlinks\<close>: \<open>backlink_backpropagator.py\<close>, the semantic block that is put under a page
      linked from another one, with the text of the pages as lines that keep their ends.
    \<^item> \<open>SemanticWrite\<close>: \<open>daemon_semantic_write.py\<close>, the daemon's own edits of a page (corrected
      bullets, the semantic index, tag hygiene) under a page lock and a drift check.

  \<^bold>\<open>Parameters.\<close> What the code takes from outside is an argument: \<open>resolve\<close> and \<open>rp\<close> resolve
  paths, \<open>loads\<close> is \<open>json.loads\<close>, \<open>fl\<close> parses a float, \<open>lg\<close> is the logarithm of the scoring
  formula, the sorted list of pages and the clock are given to the functions that read them.
  \<open>titles\<close> lists the existing pages, \<open>idx\<close> is the alias index in use, \<open>stamp\<close> the time stamp
  written to a page and \<open>str_of\<close> Python's \<open>str\<close> on a value of the model.

  \<^bold>\<open>Groups of lemmas.\<close> Each theory first proves what its helpers do (shape of results, bounds,
  what is preserved), then the properties that carry a claim number. Where an interface
  matters it is a locale whose laws are discharged on the code's own definitions.

  \<^bold>\<open>Conventions.\<close> A Python string is a HOL string of code points below 256; the string methods
  are exact on that range. A dictionary is an association list in insertion order or a map, a
  Python \<open>int\<close> is an \<open>int\<close> or a \<open>nat\<close>, a float of the scoring code is a rational number. An
  exception is the left side of a sum, an early return is a branch. Loops are structural
  recursions or come with a termination proof; the one loop of the program that need not end
  (the case-insensitive replacement with an empty search text) is a \<open>partial_function\<close> into
  options, and what it needs to return is a theorem. The retry loop of an atomic write runs on
  a counter, which is the number of attempts of the source. The actions of threads on page
  locks interleave freely; a run is a derivation of the inductive predicate \<open>reach\<close>.

  \<^bold>\<open>Interference.\<close> Other programs act between two steps of an operation: between the reading of
  a page and the lock, between the lock and the commit, and between the attempts of a commit.
  Every such window is an explicit argument of the model, and the theorems hold for all of
  its values.

  \<^bold>\<open>Not modelled.\<close> Logging, sleeping, hints in messages for a person, the walk over
  directories, timing counters, validation of model output against a model class (a library
  call), the language model client, the command line, the servers and the databases.
\<close>

end
